(* ===== verification/Prelude.thy ===== *)
theory Prelude
  imports Main "HOL-Library.Word"
begin

text \<open>
  Shared vocabulary of the development.

  \<^item> Machine types: \<open>size_t\<close> and \<open>uint64\<close> are 64-bit words, \<open>int\<close> is a 32-bit
    word read with \<open>sint\<close>; addresses of awaiter objects are 64-bit words (the engine
    casts them to the \<open>user_data\<close> of a completion).
  \<^item> A \<open>std::coroutine_handle<>\<close> is the address of a coroutine frame, a number whose
    value 0 is the null handle.
  \<^item> Results: every method returns a new state together with a \<open>res\<close>: a value, a C++
    exception, or \<open>Undef\<close> where the C++ abstract machine gives the execution no
    meaning (reading an empty \<open>std::optional\<close>, an index out of range, a dangling
    pointer). A theorem that a method does not yield \<open>Undef\<close> is a safety theorem.
  \<^item> A \<open>std::queue\<close> is a list whose head is \<open>front()\<close>.
\<close>

named_theorems word_nat "arithmetic on size_t values read as natural numbers"
named_theorems res_simps "evaluation of results and of sequencing"

subsection \<open>Machine types\<close>

type_synonym handle = nat
type_synonym addr = "64 word"
type_synonym size_t = "64 word"
type_synonym uint64 = "64 word"
type_synonym int32 = "32 word"

abbreviation (input) null_handle :: handle where
  "null_handle \<equiv> 0"

subsection \<open>Exceptions and results\<close>

datatype exn =
    RuntimeError string
  | LogicError string
  | InvalidArgument string
  | LengthError string
  | OtherError nat

datatype 'a res = Ret 'a | Throw exn | Undef

fun is_Ret :: "'a res \<Rightarrow> bool" where
  "is_Ret (Ret _) = True"
| "is_Ret _ = False"

text \<open>
  An object that may have been moved from: \<open>Holds v\<close>, \<open>MovedFrom\<close> (valid but
  unspecified, so that reading it again is \<open>Undef\<close>), or an empty \<open>std::optional\<close>.
\<close>

datatype 'a slot = Nullopt | Holds 'a | MovedFrom

text \<open>Sequencing of two pieces of code: an exception or undefined behaviour ends it.\<close>

fun bind_res :: "'s \<times> 'a res \<Rightarrow> ('s \<Rightarrow> 'a \<Rightarrow> 's \<times> 'b res) \<Rightarrow> 's \<times> 'b res" where
  "bind_res (s, Ret a) f = f s a"
| "bind_res (s, Throw e) f = (s, Throw e)"
| "bind_res (s, Undef) f = (s, Undef)"

declare bind_res.simps [res_simps]

lemma bind_res_Ret_iff:
  "bind_res p f = (s', Ret b) \<longleftrightarrow> (\<exists>s a. p = (s, Ret a) \<and> f s a = (s', Ret b))"
  by (cases p; cases "snd p") auto

lemma bind_res_assoc: "bind_res (bind_res p f) g = bind_res p (\<lambda>s a. bind_res (f s a) g)"
  by (cases p; cases "snd p") auto

lemma bind_res_not_Undef:
  assumes "snd p \<noteq> Undef"
    and "\<And>s a. p = (s, Ret a) \<Longrightarrow> snd (f s a) \<noteq> Undef"
  shows "snd (bind_res p f) \<noteq> Undef"
  using assms by (cases p; cases "snd p") auto

subsection \<open>Word arithmetic of indices and counters\<close>

lemma unat_inc [word_nat]:
  fixes t c :: "'a::len word"
  assumes "t < c"
  shows "unat (t + 1) = Suc (unat t)"
proof -
  have "unat t < unat c" "unat c < 2 ^ LENGTH('a)"
    using assms by (simp_all add: word_less_nat_alt)
  then have "unat t + 1 < 2 ^ LENGTH('a)" by linarith
  then show ?thesis by (simp add: unat_word_ariths)
qed

lemma unat_inc_mod [word_nat]:
  fixes t c :: "'a::len word"
  assumes "t < c"
  shows "unat ((t + 1) mod c) = Suc (unat t) mod unat c"
  by (simp add: unat_mod_distrib unat_inc [OF assms])

lemma unat_dec [word_nat]:
  fixes c :: "'a::len word"
  assumes "0 < unat c"
  shows "unat (c - 1) = unat c - 1"
  using assms by (intro unat_minus_one) auto

lemma word_pos_unat: "(c :: 'a::len word) \<noteq> 0 \<longleftrightarrow> 0 < unat c"
  by (metis neq0_conv unat_eq_zero)

lemma of_nat_eq_0_size_t: "n < 2 ^ 64 \<Longrightarrow> (of_nat n :: size_t) = 0 \<longleftrightarrow> n = 0"
  by (auto dest: arg_cong [where f = unat] simp: unat_of_nat)

text \<open>\<open>static_cast<size_t>\<close> of an \<open>int\<close>.\<close>

definition size_of_int :: "int32 \<Rightarrow> size_t" where
  "size_of_int w = word_of_int (sint w)"

lemma unat_size_of_int [word_nat]:
  assumes "0 \<le> sint w"
  shows "unat (size_of_int w) = nat (sint w)"
proof -
  have "sint w < 2 ^ 31" using sint_lt [of w] by simp
  then have "uint (size_of_int w) = sint w" using assms
    unfolding size_of_int_def by (subst uint_word_of_int) simp
  then show ?thesis by (metis nat_uint_eq)
qed

subsection \<open>Lists used as queues\<close>

lemma map_upt_snoc: "map f [0..<Suc n] = map f [0..<n] @ [f n]"
  by simp

lemma map_upt_cons: "map f [0..<Suc n] = f 0 # map (\<lambda>k. f (Suc k)) [0..<n]"
  by (simp add: map_Suc_upt [symmetric] upt_conv_Cons del: upt_Suc)

end
