(* ===== verification/Io_Uring.thy ===== *)
theory Io_Uring
  imports Prelude
begin

text \<open>
  The class \<open>IoUring\<close> of \<open>include/io_uring.h\<close>, a wrapper of liburing. The C library is
  not part of the repository: it is the parameter \<open>L\<close> of the operations, a record with
  one function for each entry point the wrapper calls, over an arbitrary type \<open>'u\<close> of
  ring states. The conversions the wrapper's calls make (a \<open>size_t\<close> length or queue
  depth passed as \<open>unsigned\<close>) are written out with \<open>ucast\<close>.
\<close>

subsection \<open>The C library as a parameter\<close>

record cqe =
  cqe_user_data :: uint64
  cqe_res :: int32

record 'u liburing =
  io_uring_queue_init :: "32 word \<Rightarrow> int32 \<times> 'u"
  io_uring_get_sqe :: "'u \<Rightarrow> 'u \<times> nat option"
  io_uring_prep_read :: "nat \<Rightarrow> int32 \<Rightarrow> addr \<Rightarrow> 32 word \<Rightarrow> uint64 \<Rightarrow> 'u \<Rightarrow> 'u"
  io_uring_prep_write :: "nat \<Rightarrow> int32 \<Rightarrow> addr \<Rightarrow> 32 word \<Rightarrow> uint64 \<Rightarrow> 'u \<Rightarrow> 'u"
  sqe_set_user_data :: "nat \<Rightarrow> uint64 \<Rightarrow> 'u \<Rightarrow> 'u"
  io_uring_submit :: "'u \<Rightarrow> 'u \<times> int32"
  io_uring_wait_cqe :: "'u \<Rightarrow> 'u \<times> int32 \<times> cqe"
  io_uring_peek_cqe :: "'u \<Rightarrow> 'u \<times> int32 \<times> cqe option"
  io_uring_cqe_seen :: "cqe \<Rightarrow> 'u \<Rightarrow> 'u"

definition EAGAIN :: int32 where
  "EAGAIN = 11"

subsection \<open>The wrapper\<close>

record IoInfo =
  user_data :: uint64
  result :: int32

definition IoUring_new :: "'u liburing \<Rightarrow> size_t \<Rightarrow> 'u res" where
  "IoUring_new L queue_depth =
     (let (ret, u) = io_uring_queue_init L (ucast queue_depth)
      in if sint ret < 0 then Throw (RuntimeError ''io_uring_queue_init failed'')
         else Ret u)"

definition submit_read ::
  "'u liburing \<Rightarrow> int32 \<Rightarrow> addr \<Rightarrow> size_t \<Rightarrow> size_t \<Rightarrow> uint64 \<Rightarrow> 'u \<Rightarrow> 'u \<times> unit res" where
  "submit_read L fd buf len offset ud u =
     (case io_uring_get_sqe L u of
        (u1, None) \<Rightarrow> (u1, Throw (RuntimeError ''io_uring_get_sqe failed''))
      | (u1, Some sqe) \<Rightarrow>
          (sqe_set_user_data L sqe ud (io_uring_prep_read L sqe fd buf (ucast len) offset u1),
           Ret ()))"

definition submit_write ::
  "'u liburing \<Rightarrow> int32 \<Rightarrow> addr \<Rightarrow> size_t \<Rightarrow> size_t \<Rightarrow> uint64 \<Rightarrow> 'u \<Rightarrow> 'u \<times> unit res" where
  "submit_write L fd buf len offset ud u =
     (case io_uring_get_sqe L u of
        (u1, None) \<Rightarrow> (u1, Throw (RuntimeError ''io_uring_get_sqe failed''))
      | (u1, Some sqe) \<Rightarrow>
          (sqe_set_user_data L sqe ud (io_uring_prep_write L sqe fd buf (ucast len) offset u1),
           Ret ()))"

definition submit :: "'u liburing \<Rightarrow> 'u \<Rightarrow> 'u \<times> int32" where
  "submit L u = io_uring_submit L u"

definition wait_one :: "'u liburing \<Rightarrow> 'u \<Rightarrow> 'u \<times> IoInfo res" where
  "wait_one L u =
     (let (u1, ret, c) = io_uring_wait_cqe L u
      in if sint ret < 0 then (u1, Throw (RuntimeError ''io_uring_wait_cqe failed''))
         else (io_uring_cqe_seen L c u1,
               Ret \<lparr>user_data = cqe_user_data c, result = cqe_res c\<rparr>))"

text \<open>
  \<open>try_wait_one\<close> writes its reference parameter only when it returns true: its result is
  \<open>Some info\<close> for true and \<open>None\<close> for false.
\<close>

definition try_wait_one :: "'u liburing \<Rightarrow> 'u \<Rightarrow> 'u \<times> IoInfo option res" where
  "try_wait_one L u =
     (let (u1, ret, p) = io_uring_peek_cqe L u
      in if sint ret < 0 then
           (if ret = - EAGAIN then (u1, Ret None)
            else (u1, Throw (RuntimeError ''io_uring_peek_cqe failed'')))
         else (case p of
                 None \<Rightarrow> (u1, Ret None)
               | Some c \<Rightarrow> (io_uring_cqe_seen L c u1,
                   Ret (Some \<lparr>user_data = cqe_user_data c, result = cqe_res c\<rparr>))))"

end
