(* ===== verification/Engine.thy ===== *)
theory Engine
  imports Io_Uring "HOL-Library.Multiset"
begin

text \<open>
  The class \<open>Engine\<close> of \<open>include/runtime/engine.h\<close> and \<open>src/runtime/engine.cpp\<close>: the
  queues of one worker, and the submission and completion of its I/O. The awaiter objects
  the I/O queues point to live in coroutine frames; they are the store \<open>io_mem\<close> (class
  \<open>IoOpAwaiterBase\<close> of \<open>include/runtime/io_awaiter.h\<close> with the buffer of its
  subclasses). \<open>cv_\<close> is modelled by who waits on it: \<open>cv_waiting\<close> holds while the
  worker thread is blocked in \<open>cv_.wait\<close>, and a notification ends that.
\<close>

subsection \<open>Data\<close>

record io_awaiter =
  aw_fd :: int32
  aw_buf :: addr
  aw_len :: size_t
  aw_offset :: size_t
  aw_result :: int32
  aw_handle :: handle

type_synonym io_mem = "addr \<rightharpoonup> io_awaiter"

record 'u engine =
  task_queue :: "handle list"
  io_waiting_queue :: "handle list"
  io_read_submit_queue :: "addr list"
  io_write_submit_queue :: "addr list"
  uring :: 'u
  pending_submit_count :: size_t
  inflight_tasks :: size_t
  inflight_io :: size_t
  cv_waiting :: bool

definition new_engine :: "'u \<Rightarrow> 'u engine" where
  "new_engine u =
     \<lparr>task_queue = [], io_waiting_queue = [], io_read_submit_queue = [],
      io_write_submit_queue = [], uring = u, pending_submit_count = 0,
      inflight_tasks = 0, inflight_io = 0, cv_waiting = False\<rparr>"

subsection \<open>Counters and submission\<close>

definition on_task_resume_begin :: "'u engine \<Rightarrow> 'u engine" where
  "on_task_resume_begin e = e\<lparr>inflight_tasks := inflight_tasks e + 1\<rparr>"

definition on_task_resume_end :: "'u engine \<Rightarrow> 'u engine" where
  "on_task_resume_end e = e\<lparr>inflight_tasks := inflight_tasks e - 1\<rparr>"

definition on_io_inflight_begin :: "size_t \<Rightarrow> 'u engine \<Rightarrow> 'u engine" where
  "on_io_inflight_begin n e =
     (if n = 0 then e else e\<lparr>inflight_io := inflight_io e + n\<rparr>)"

definition on_io_inflight_end :: "size_t \<Rightarrow> 'u engine \<Rightarrow> 'u engine" where
  "on_io_inflight_end n e =
     (if n = 0 then e else e\<lparr>inflight_io := inflight_io e - n\<rparr>)"

definition notify_cv :: "'u engine \<Rightarrow> 'u engine" where
  "notify_cv e = e\<lparr>cv_waiting := False\<rparr>"

definition engine_submit_task :: "handle \<Rightarrow> 'u engine \<Rightarrow> 'u engine" where
  "engine_submit_task h e = notify_cv (e\<lparr>task_queue := task_queue e @ [h]\<rparr>)"

definition engine_submit_io_waiting :: "handle \<Rightarrow> 'u engine \<Rightarrow> 'u engine" where
  "engine_submit_io_waiting h e =
     (let e1 = on_io_inflight_begin 1 e
      in notify_cv (e1\<lparr>io_waiting_queue := io_waiting_queue e1 @ [h]\<rparr>))"

text \<open>The address 0 is the null pointer.\<close>

definition engine_submit_io_read :: "addr \<Rightarrow> 'u engine \<Rightarrow> 'u engine" where
  "engine_submit_io_read a e =
     (if a = 0 then e
      else let e1 = on_io_inflight_begin 1 e
           in notify_cv (e1\<lparr>io_read_submit_queue := io_read_submit_queue e1 @ [a]\<rparr>))"

definition engine_submit_io_write :: "addr \<Rightarrow> 'u engine \<Rightarrow> 'u engine" where
  "engine_submit_io_write a e =
     (if a = 0 then e
      else let e1 = on_io_inflight_begin 1 e
           in notify_cv (e1\<lparr>io_write_submit_queue := io_write_submit_queue e1 @ [a]\<rparr>))"

definition engine_notify_all :: "'u engine \<Rightarrow> 'u engine" where
  "engine_notify_all e = notify_cv e"

subsection \<open>Taking tasks\<close>

definition try_pop_task :: "'u engine \<Rightarrow> 'u engine \<times> handle" where
  "try_pop_task e =
     (case task_queue e of
        [] \<Rightarrow> (e, null_handle)
      | h # hs \<Rightarrow> (e\<lparr>task_queue := hs\<rparr>, h))"

text \<open>The loop of \<open>pop_batch\<close>: \<open>out\<close> grows, the queue shrinks.\<close>

function pop_loop :: "size_t \<Rightarrow> handle list \<Rightarrow> 'u engine \<Rightarrow> 'u engine \<times> handle list" where
  "pop_loop max_n out e =
     (case task_queue e of
        [] \<Rightarrow> (e, out)
      | h # hs \<Rightarrow>
          if length out < unat max_n
          then pop_loop max_n (out @ [h]) (e\<lparr>task_queue := hs\<rparr>)
          else (e, out))"
  by pat_completeness auto
termination
  by (relation "measure (\<lambda>(max_n, out, e). length (task_queue e))") auto

declare pop_loop.simps [simp del]

text \<open>
  \<open>pop_batch\<close> clears and fills the caller's vector; when it returns 0 early the vector
  keeps what it had. \<open>out.size()\<close> is returned as a \<open>size_t\<close>.
\<close>

definition pop_batch ::
  "handle list \<Rightarrow> size_t \<Rightarrow> 'u engine \<Rightarrow> 'u engine \<times> handle list \<times> size_t" where
  "pop_batch out max_n e =
     (if task_queue e = [] \<or> max_n = 0 then (e, out, 0)
      else let (e1, out1) = pop_loop max_n [] e in (e1, out1, of_nat (length out1)))"

subsection \<open>Polling I/O\<close>

function poll_waiting :: "size_t \<Rightarrow> size_t \<Rightarrow> 'u engine \<Rightarrow> 'u engine \<times> size_t" where
  "poll_waiting max_n progressed e =
     (case io_waiting_queue e of
        [] \<Rightarrow> (e, progressed)
      | h # hs \<Rightarrow>
          if progressed < max_n
          then poll_waiting max_n (progressed + 1)
                 (on_io_inflight_end 1
                    (e\<lparr>task_queue := task_queue e @ [h], io_waiting_queue := hs\<rparr>))
          else (e, progressed))"
  by pat_completeness auto
termination
  by (relation "measure (\<lambda>(max_n, progressed, e). length (io_waiting_queue e))")
     (auto simp: on_io_inflight_end_def)

declare poll_waiting.simps [simp del]

definition prep_read_step ::
  "'u liburing \<Rightarrow> io_awaiter \<Rightarrow> addr \<Rightarrow> 'u engine \<Rightarrow> 'u engine \<times> unit res" where
  "prep_read_step L aw a e =
     (let (u, r) = submit_read L (aw_fd aw) (aw_buf aw) (aw_len aw) (aw_offset aw) a (uring e)
      in (case r of
            Ret _ \<Rightarrow> (e\<lparr>uring := u, pending_submit_count := pending_submit_count e + 1\<rparr>, Ret ())
          | Throw x \<Rightarrow> (e\<lparr>uring := u\<rparr>, Throw x)
          | Undef \<Rightarrow> (e\<lparr>uring := u\<rparr>, Undef)))"

definition prep_write_step ::
  "'u liburing \<Rightarrow> io_awaiter \<Rightarrow> addr \<Rightarrow> 'u engine \<Rightarrow> 'u engine \<times> unit res" where
  "prep_write_step L aw a e =
     (let (u, r) = submit_write L (aw_fd aw) (aw_buf aw) (aw_len aw) (aw_offset aw) a (uring e)
      in (case r of
            Ret _ \<Rightarrow> (e\<lparr>uring := u, pending_submit_count := pending_submit_count e + 1\<rparr>, Ret ())
          | Throw x \<Rightarrow> (e\<lparr>uring := u\<rparr>, Throw x)
          | Undef \<Rightarrow> (e\<lparr>uring := u\<rparr>, Undef)))"

lemma prep_read_step_queue:
  "prep_read_step L aw a e = (e1, r) \<Longrightarrow> io_read_submit_queue e1 = io_read_submit_queue e"
  by (auto simp: prep_read_step_def split: prod.splits res.splits)

lemma prep_write_step_queue:
  "prep_write_step L aw a e = (e1, r) \<Longrightarrow> io_write_submit_queue e1 = io_write_submit_queue e"
  by (auto simp: prep_write_step_def split: prod.splits res.splits)

function poll_reads ::
  "'u liburing \<Rightarrow> io_mem \<Rightarrow> size_t \<Rightarrow> size_t \<Rightarrow> 'u engine \<Rightarrow> 'u engine \<times> size_t res" where
  "poll_reads L m max_n prepared e =
     (case io_read_submit_queue e of
        [] \<Rightarrow> (e, Ret prepared)
      | a # as \<Rightarrow>
          if prepared < max_n then
            (case m a of
               None \<Rightarrow> (e, Undef)
             | Some aw \<Rightarrow>
                 (case prep_read_step L aw a (e\<lparr>io_read_submit_queue := as\<rparr>) of
                    (e1, Ret _) \<Rightarrow> poll_reads L m max_n (prepared + 1) e1
                  | (e1, Throw x) \<Rightarrow> (e1, Throw x)
                  | (e1, Undef) \<Rightarrow> (e1, Undef)))
          else (e, Ret prepared))"
  by pat_completeness auto
termination
  by (relation "measure (\<lambda>(L, m, max_n, prepared, e). length (io_read_submit_queue e))")
     (auto dest!: prep_read_step_queue [OF sym])

declare poll_reads.simps [simp del]

function poll_writes ::
  "'u liburing \<Rightarrow> io_mem \<Rightarrow> size_t \<Rightarrow> size_t \<Rightarrow> 'u engine \<Rightarrow> 'u engine \<times> size_t res" where
  "poll_writes L m max_n prepared e =
     (case io_write_submit_queue e of
        [] \<Rightarrow> (e, Ret prepared)
      | a # as \<Rightarrow>
          if prepared < max_n then
            (case m a of
               None \<Rightarrow> (e, Undef)
             | Some aw \<Rightarrow>
                 (case prep_write_step L aw a (e\<lparr>io_write_submit_queue := as\<rparr>) of
                    (e1, Ret _) \<Rightarrow> poll_writes L m max_n (prepared + 1) e1
                  | (e1, Throw x) \<Rightarrow> (e1, Throw x)
                  | (e1, Undef) \<Rightarrow> (e1, Undef)))
          else (e, Ret prepared))"
  by pat_completeness auto
termination
  by (relation "measure (\<lambda>(L, m, max_n, prepared, e). length (io_write_submit_queue e))")
     (auto dest!: prep_write_step_queue [OF sym])

declare poll_writes.simps [simp del]

text \<open>
  The submission loop stops because every iteration that does not throw lowers
  \<open>pending_submit_count\<close>.
\<close>

function poll_submit ::
  "'u liburing \<Rightarrow> size_t \<Rightarrow> 'u engine \<Rightarrow> 'u engine \<times> size_t res" where
  "poll_submit L progressed e =
     (if 0 < pending_submit_count e then
        let (u, submitted) = submit L (uring e); e1 = e\<lparr>uring := u\<rparr> in
        if sint submitted \<le> 0 then
          (e1, Throw (RuntimeError ''io_uring_submit failed in runtime::Engine''))
        else
          let submitted_size = size_of_int submitted in
          if submitted_size > pending_submit_count e then
            (e1, Throw (RuntimeError ''io_uring_submit returned invalid count''))
          else poll_submit L (progressed + submitted_size)
                 (e1\<lparr>pending_submit_count := pending_submit_count e - submitted_size\<rparr>)
      else (e, Ret progressed))"
  by pat_completeness auto
termination
proof (relation "measure (\<lambda>(L, progressed, e). unat (pending_submit_count e))", goal_cases)
  case 1
  show ?case by simp
next
  case (2 L progressed e p u submitted e1 n)
  then have "0 < unat n" and "unat n \<le> unat (pending_submit_count e)"
    by (auto simp: unat_size_of_int word_less_nat_alt)
  with 2 show ?case
    by (simp add: unat_sub word_le_nat_alt)
qed

declare poll_submit.simps [simp del]

definition set_result :: "addr \<Rightarrow> int32 \<Rightarrow> io_mem \<Rightarrow> io_mem" where
  "set_result a r m = (case m a of None \<Rightarrow> m | Some aw \<Rightarrow> m(a \<mapsto> aw\<lparr>aw_result := r\<rparr>))"

function poll_complete ::
  "'u liburing \<Rightarrow> size_t \<Rightarrow> size_t \<Rightarrow> 'u engine \<times> io_mem \<Rightarrow>
   ('u engine \<times> io_mem) \<times> size_t res" where
  "poll_complete L max_n completed (e, m) =
     (if completed < max_n then
        (case try_wait_one L (uring e) of
           (u, Throw x) \<Rightarrow> ((e\<lparr>uring := u\<rparr>, m), Throw x)
         | (u, Undef) \<Rightarrow> ((e\<lparr>uring := u\<rparr>, m), Undef)
         | (u, Ret None) \<Rightarrow> ((e\<lparr>uring := u\<rparr>, m), Ret completed)
         | (u, Ret (Some info)) \<Rightarrow>
             (case m (user_data info) of
                None \<Rightarrow> ((e\<lparr>uring := u\<rparr>, m), Undef)
              | Some aw \<Rightarrow>
                  poll_complete L max_n (completed + 1)
                    (on_io_inflight_end 1
                       (e\<lparr>uring := u, task_queue := task_queue e @ [aw_handle aw]\<rparr>),
                     set_result (user_data info) (result info) m)))
      else ((e, m), Ret completed))"
  by pat_completeness auto
termination
  by (relation "measure (\<lambda>(L, max_n, completed, em). unat max_n - unat completed)")
     (auto simp: unat_inc word_less_nat_alt)

declare poll_complete.simps [simp del]

text \<open>
  \<open>poll_io\<close>: resume what waits on the poll phase, prepare reads and writes (at most
  \<open>max_n\<close> together), submit everything prepared, then reap at most \<open>max_n\<close> completions.
\<close>

definition poll_io ::
  "'u liburing \<Rightarrow> size_t \<Rightarrow> 'u engine \<times> io_mem \<Rightarrow> ('u engine \<times> io_mem) \<times> size_t res" where
  "poll_io L max_n em =
     (if max_n = 0 then (em, Ret 0)
      else
        let (e, m) = em; (e1, progressed) = poll_waiting max_n 0 e in
        case bind_res (poll_reads L m max_n 0 e1)
               (\<lambda>e2 prepared. bind_res (poll_writes L m max_n prepared e2)
               (\<lambda>e3 _. poll_submit L progressed e3)) of
          (e4, Throw x) \<Rightarrow> ((e4, m), Throw x)
        | (e4, Undef) \<Rightarrow> ((e4, m), Undef)
        | (e4, Ret progressed4) \<Rightarrow>
            bind_res (poll_complete L max_n 0 (e4, m))
              (\<lambda>em5 completed. (em5, Ret (if 0 < completed then progressed4 + completed
                                          else progressed4))))"

subsection \<open>Stopping and sleeping\<close>

definition engine_empty :: "'u engine \<Rightarrow> bool" where
  "engine_empty e \<longleftrightarrow>
     task_queue e = [] \<and> io_waiting_queue e = [] \<and> io_read_submit_queue e = [] \<and>
     io_write_submit_queue e = [] \<and> pending_submit_count e = 0"

definition can_stop :: "bool \<Rightarrow> 'u engine \<Rightarrow> bool" where
  "can_stop stop_requested e =
     (if \<not> stop_requested then False
      else if task_queue e \<noteq> [] \<or> io_waiting_queue e \<noteq> [] \<or>
              io_read_submit_queue e \<noteq> [] \<or> io_write_submit_queue e \<noteq> [] \<or>
              pending_submit_count e \<noteq> 0 then False
      else if inflight_tasks e \<noteq> 0 then False
      else if inflight_io e \<noteq> 0 then False
      else True)"

text \<open>The predicate of \<open>wait_for_work_or_stop\<close>, and the wait itself: the worker blocks
  exactly when the predicate is false.\<close>

definition wait_pred :: "bool \<Rightarrow> 'u engine \<Rightarrow> bool" where
  "wait_pred stop_requested e \<longleftrightarrow>
     stop_requested \<or> task_queue e \<noteq> [] \<or> io_waiting_queue e \<noteq> [] \<or>
     io_read_submit_queue e \<noteq> [] \<or> io_write_submit_queue e \<noteq> [] \<or>
     pending_submit_count e \<noteq> 0 \<or> inflight_io e \<noteq> 0"

definition wait_for_work_or_stop :: "bool \<Rightarrow> 'u engine \<Rightarrow> 'u engine" where
  "wait_for_work_or_stop stop_requested e = e\<lparr>cv_waiting := \<not> wait_pred stop_requested e\<rparr>"

end
