(* ===== verification/Task.thy ===== *)
theory Task
  imports Prelude
begin

text \<open>
  \<open>include/task.h\<close>: coroutine frames with the promise of a task in them, and the owner
  \<open>Task<T>\<close> of a frame. The frames live in a heap from non-null handles; destroying a
  frame removes it, so that a second destruction, or a use of the frame after it, is
  \<open>Undef\<close>. The template parameter is the type \<open>'v\<close>; \<open>Task<void>\<close> is the instance
  whose results carry \<open>()\<close>, with its own \<open>get\<close> and \<open>await_resume\<close> because the
  source skips the value there.

  The body of a coroutine is user code: it is the parameter \<open>body\<close> of
  \<open>coroutine_resume\<close>, which runs one segment of a frame up to its next suspension point.
  \<open>coroutine_resume\<close> is the language's resumption with the symmetric transfer that the
  awaiters of this file ask for.
\<close>

subsection \<open>Frames and promises\<close>

record 'v frame =
  fr_done :: bool
  fr_caller :: handle
  fr_exception :: "exn option"
  fr_value :: "'v slot"

type_synonym 'v heap = "handle \<rightharpoonup> 'v frame"

text \<open>A coroutine call: the promise is constructed and \<open>initial_suspend\<close> suspends.\<close>

definition new_frame :: "'v frame" where
  "new_frame = \<lparr>fr_done = False, fr_caller = null_handle, fr_exception = None, fr_value = Nullopt\<rparr>"

definition return_value :: "handle \<Rightarrow> 'v \<Rightarrow> 'v heap \<Rightarrow> 'v heap" where
  "return_value h v H = H(h := map_option (\<lambda>f. f\<lparr>fr_value := Holds v\<rparr>) (H h))"

definition unhandled_exception :: "handle \<Rightarrow> exn \<Rightarrow> 'v heap \<Rightarrow> 'v heap" where
  "unhandled_exception h x H = H(h := map_option (\<lambda>f. f\<lparr>fr_exception := Some x\<rparr>) (H h))"

text \<open>
  \<open>final_suspend\<close> marks the frame done; the awaiter's \<open>await_suspend\<close> answers the handle
  to transfer to: the caller if there is one, else \<open>noop_coroutine\<close> (here: null, nothing).
\<close>

definition mark_done :: "handle \<Rightarrow> 'v heap \<Rightarrow> 'v heap" where
  "mark_done h H = H(h := map_option (\<lambda>f. f\<lparr>fr_done := True\<rparr>) (H h))"

definition final_await_suspend :: "handle \<Rightarrow> 'v heap \<Rightarrow> handle res" where
  "final_await_suspend callee H =
     (case H callee of
        None \<Rightarrow> Undef
      | Some f \<Rightarrow> Ret (if fr_caller f \<noteq> null_handle then fr_caller f else null_handle))"

definition handle_destroy :: "handle \<Rightarrow> 'v heap \<Rightarrow> 'v heap \<times> unit res" where
  "handle_destroy h H = (case H h of None \<Rightarrow> (H, Undef) | Some _ \<Rightarrow> (H(h := None), Ret ()))"

definition handle_done :: "handle \<Rightarrow> 'v heap \<Rightarrow> bool res" where
  "handle_done h H = (case H h of None \<Rightarrow> Undef | Some f \<Rightarrow> Ret (fr_done f))"

subsection \<open>The owner of a frame\<close>

record task =
  handler :: handle

definition task_of_handle :: "handle \<Rightarrow> task" where
  "task_of_handle h = \<lparr>handler = h\<rparr>"

definition task_default :: task where
  "task_default = \<lparr>handler = null_handle\<rparr>"

definition task_destroy :: "task \<Rightarrow> 'v heap \<Rightarrow> 'v heap \<times> unit res" where
  "task_destroy t H =
     (if handler t \<noteq> null_handle then handle_destroy (handler t) H else (H, Ret ()))"

text \<open>Move construction: the new task and what is left of the old one.\<close>

definition task_move :: "task \<Rightarrow> task \<times> task" where
  "task_move t = (\<lparr>handler = handler t\<rparr>, t\<lparr>handler := null_handle\<rparr>)"

text \<open>Move assignment \<open>x = std::move(y)\<close> for distinct objects, and self-assignment.\<close>

definition task_move_assign :: "task \<Rightarrow> task \<Rightarrow> 'v heap \<Rightarrow> 'v heap \<times> (task \<times> task) res" where
  "task_move_assign x y H =
     bind_res (if handler x \<noteq> null_handle then handle_destroy (handler x) H else (H, Ret ()))
       (\<lambda>H1 _. (H1, Ret (x\<lparr>handler := handler y\<rparr>, y\<lparr>handler := null_handle\<rparr>)))"

definition task_self_assign :: "task \<Rightarrow> 'v heap \<Rightarrow> 'v heap \<times> task res" where
  "task_self_assign x H = (H, Ret x)"

definition task_done :: "task \<Rightarrow> 'v heap \<Rightarrow> bool res" where
  "task_done t H = (if handler t \<noteq> null_handle then handle_done (handler t) H else Ret True)"

definition get_handle :: "task \<Rightarrow> handle" where
  "get_handle t = handler t"

definition detach :: "task \<Rightarrow> task" where
  "detach t = t\<lparr>handler := null_handle\<rparr>"

text \<open>
  \<open>*promise().value_\<close> moved out: reading an empty optional, or one already moved from,
  has no defined value.
\<close>

definition take_value :: "handle \<Rightarrow> 'v heap \<Rightarrow> 'v heap \<times> 'v res" where
  "take_value h H =
     (case H h of
        None \<Rightarrow> (H, Undef)
      | Some f \<Rightarrow>
          (case fr_value f of
             Holds v \<Rightarrow> (H(h \<mapsto> f\<lparr>fr_value := MovedFrom\<rparr>), Ret v)
           | _ \<Rightarrow> (H, Undef)))"

definition rethrow_if :: "handle \<Rightarrow> 'v heap \<Rightarrow> 'v heap \<times> unit res" where
  "rethrow_if h H =
     (case H h of
        None \<Rightarrow> (H, Undef)
      | Some f \<Rightarrow> (case fr_exception f of Some x \<Rightarrow> (H, Throw x) | None \<Rightarrow> (H, Ret ())))"

text \<open>The assertion of \<open>get\<close> aborts the program when it fails; that is \<open>Undef\<close> here.\<close>

definition task_get :: "task \<Rightarrow> 'v heap \<Rightarrow> 'v heap \<times> 'v res" where
  "task_get t H =
     (if handler t \<noteq> null_handle \<and> handle_done (handler t) H = Ret True
      then bind_res (rethrow_if (handler t) H) (\<lambda>H1 _. take_value (handler t) H1)
      else (H, Undef))"

definition task_get_void :: "task \<Rightarrow> 'v heap \<Rightarrow> 'v heap \<times> unit res" where
  "task_get_void t H =
     (if handler t \<noteq> null_handle \<and> handle_done (handler t) H = Ret True
      then rethrow_if (handler t) H else (H, Undef))"

subsection \<open>Awaiting a task\<close>

definition task_await_ready :: "task \<Rightarrow> 'v heap \<Rightarrow> bool res" where
  "task_await_ready t H =
     (if handler t = null_handle then Ret True else handle_done (handler t) H)"

text \<open>\<open>await_suspend\<close> records the awaiting coroutine and transfers to the task's frame.\<close>

definition task_await_suspend :: "task \<Rightarrow> handle \<Rightarrow> 'v heap \<Rightarrow> 'v heap \<times> handle res" where
  "task_await_suspend t caller H =
     (case H (handler t) of
        None \<Rightarrow> (H, Undef)
      | Some f \<Rightarrow> (H(handler t \<mapsto> f\<lparr>fr_caller := caller\<rparr>), Ret (handler t)))"

definition task_await_resume :: "task \<Rightarrow> 'v heap \<Rightarrow> 'v heap \<times> 'v res" where
  "task_await_resume t H =
     bind_res (rethrow_if (handler t) H) (\<lambda>H1 _. take_value (handler t) H1)"

definition task_await_resume_void :: "task \<Rightarrow> 'v heap \<Rightarrow> 'v heap \<times> unit res" where
  "task_await_resume_void t H = rethrow_if (handler t) H"

subsection \<open>Resumption with symmetric transfer\<close>

text \<open>
  What a segment of a body ends with: a suspension that leaves the coroutine parked
  somewhere, the end of the body by \<open>co_return\<close> or by an exception, or
  \<open>co_await\<close> of a task.
\<close>

datatype 'v segment_end =
    Parked
  | Co_return 'v
  | Co_throw exn
  | Co_await task

text \<open>
  The heap is one component of the state \<open>'w\<close> the bodies run on: \<open>get\<close> and \<open>put\<close>
  reach it. \<open>resume_segment\<close> runs one segment of a frame and says what control does next:
  come back to whoever resumed (with the result), or transfer to another frame.
\<close>

datatype control = Back "unit res" | Transfer handle

definition transfer_to :: "handle res \<Rightarrow> control" where
  "transfer_to r =
     (case r of
        Ret h \<Rightarrow> if h = null_handle then Back (Ret ()) else Transfer h
      | Throw x \<Rightarrow> Back (Throw x)
      | Undef \<Rightarrow> Back Undef)"

definition finish :: "handle \<Rightarrow> 'v heap \<Rightarrow> 'v heap \<times> control" where
  "finish h H = (let H1 = mark_done h H in (H1, transfer_to (final_await_suspend h H1)))"

definition start_await :: "task \<Rightarrow> handle \<Rightarrow> 'v heap \<Rightarrow> 'v heap \<times> control" where
  "start_await t h H =
     (case task_await_ready t H of
        Ret True \<Rightarrow> (H, Transfer h)
      | Ret False \<Rightarrow> (let (H1, r) = task_await_suspend t h H in (H1, transfer_to r))
      | Throw x \<Rightarrow> (H, Back (Throw x))
      | Undef \<Rightarrow> (H, Back Undef))"

definition resume_segment ::
  "('w \<Rightarrow> 'v heap) \<Rightarrow> ('v heap \<Rightarrow> 'w \<Rightarrow> 'w) \<Rightarrow> (handle \<Rightarrow> 'w \<Rightarrow> 'w \<times> 'v segment_end) \<Rightarrow>
   handle \<Rightarrow> 'w \<Rightarrow> 'w \<times> control" where
  "resume_segment get put body h w =
     (case get w h of
        None \<Rightarrow> (w, Back Undef)
      | Some f \<Rightarrow>
          if fr_done f then (w, Back Undef)
          else
            let (w1, e) = body h w in
            case e of
              Parked \<Rightarrow> (w1, Back (Ret ()))
            | Co_return v \<Rightarrow>
                (let (H, n) = finish h (return_value h v (get w1)) in (put H w1, n))
            | Co_throw x \<Rightarrow>
                (let (H, n) = finish h (unhandled_exception h x (get w1)) in (put H w1, n))
            | Co_await t \<Rightarrow>
                (let (H, n) = start_await t h (get w1) in (put H w1, n)))"

text \<open>\<open>handle.resume()\<close>; \<open>None\<close> is an execution that does not come back to the resumer.\<close>

partial_function (option) coroutine_resume ::
  "('w \<Rightarrow> 'v heap) \<Rightarrow> ('v heap \<Rightarrow> 'w \<Rightarrow> 'w) \<Rightarrow> (handle \<Rightarrow> 'w \<Rightarrow> 'w \<times> 'v segment_end) \<Rightarrow>
   handle \<Rightarrow> 'w \<Rightarrow> ('w \<times> unit res) option" where
  "coroutine_resume get put body h w =
     (let (w1, n) = resume_segment get put body h w in
      case n of
        Back r \<Rightarrow> Some (w1, r)
      | Transfer h1 \<Rightarrow> coroutine_resume get put body h1 w1)"

text \<open>\<open>Task::resume\<close> does nothing on an empty task.\<close>

definition task_resume ::
  "('w \<Rightarrow> 'v heap) \<Rightarrow> ('v heap \<Rightarrow> 'w \<Rightarrow> 'w) \<Rightarrow> (handle \<Rightarrow> 'w \<Rightarrow> 'w \<times> 'v segment_end) \<Rightarrow>
   task \<Rightarrow> 'w \<Rightarrow> ('w \<times> unit res) option" where
  "task_resume get put body t w =
     (if handler t \<noteq> null_handle then coroutine_resume get put body (handler t) w
      else Some (w, Ret ()))"

end
