(* ===== verification/Runtime.thy ===== *)
theory Runtime
  imports Engine Task
begin

text \<open>
  The part of the runtime every coroutine sees: the engine of each context behind
  \<open>Context::submit_*\<close> (\<open>src/runtime/context.cpp\<close>), the thread-local pointer to the
  context of the executing worker, \<open>reschedule_or_resume\<close>
  (\<open>src/runtime/resume_handle.cpp\<close>), the I/O awaiters
  (\<open>include/runtime/io_awaiter.h\<close>), \<open>yield\<close> and \<open>submit_to_scheduler\<close>
  (\<open>include/runtime/scheduler.h\<close>).

  \<open>world\<close> is memory as the executing thread sees it: the field \<open>obj\<close> holds the
  synchronisation object (channel, mutex, \<dots>) a component theory is about.
  \<open>handle.resume()\<close> runs user code; it is the parameter \<open>resume\<close>.
\<close>

subsection \<open>The world of a thread\<close>

record ('u, 'v, 's) world =
  engines :: "nat \<Rightarrow> 'u engine"
  local_context_ptr :: "nat option"
  pending_tasks :: size_t
  io_store :: io_mem
  frames :: "'v heap"
  obj :: 's

definition try_local_context :: "('u, 'v, 's) world \<Rightarrow> nat option" where
  "try_local_context w = local_context_ptr w"

text \<open>\<open>local_context\<close> dereferences the pointer unchecked.\<close>

definition local_context :: "('u, 'v, 's) world \<Rightarrow> nat res" where
  "local_context w = (case local_context_ptr w of None \<Rightarrow> Undef | Some c \<Rightarrow> Ret c)"

definition on_engine ::
  "nat \<Rightarrow> ('u engine \<Rightarrow> 'u engine) \<Rightarrow> ('u, 'v, 's) world \<Rightarrow> ('u, 'v, 's) world" where
  "on_engine c f w = w\<lparr>engines := (engines w)(c := f (engines w c))\<rparr>"

subsection \<open>Context::submit\<close>

definition context_submit_task :: "nat \<Rightarrow> handle \<Rightarrow> ('u, 'v, 's) world \<Rightarrow> ('u, 'v, 's) world" where
  "context_submit_task c h w = on_engine c (engine_submit_task h) w"

definition context_submit_io_waiting ::
  "nat \<Rightarrow> handle \<Rightarrow> ('u, 'v, 's) world \<Rightarrow> ('u, 'v, 's) world" where
  "context_submit_io_waiting c h w = on_engine c (engine_submit_io_waiting h) w"

definition context_submit_io_read ::
  "nat \<Rightarrow> addr \<Rightarrow> ('u, 'v, 's) world \<Rightarrow> ('u, 'v, 's) world" where
  "context_submit_io_read c a w = on_engine c (engine_submit_io_read a) w"

definition context_submit_io_write ::
  "nat \<Rightarrow> addr \<Rightarrow> ('u, 'v, 's) world \<Rightarrow> ('u, 'v, 's) world" where
  "context_submit_io_write c a w = on_engine c (engine_submit_io_write a) w"

definition submit_tracked_task ::
  "nat \<Rightarrow> handle \<Rightarrow> ('u, 'v, 's) world \<Rightarrow> ('u, 'v, 's) world" where
  "submit_tracked_task c h w =
     (if h = null_handle then w
      else on_engine c (engine_submit_task h) (w\<lparr>pending_tasks := pending_tasks w + 1\<rparr>))"

subsection \<open>reschedule\_or\_resume\<close>

definition reschedule_or_resume ::
  "(handle \<Rightarrow> ('u, 'v, 's) world \<Rightarrow> ('u, 'v, 's) world) \<Rightarrow> handle \<Rightarrow>
   ('u, 'v, 's) world \<Rightarrow> ('u, 'v, 's) world" where
  "reschedule_or_resume resume h w =
     (if h = null_handle then w
      else (case try_local_context w of
              Some c \<Rightarrow> context_submit_task c h w
            | None \<Rightarrow> resume h w))"

text \<open>
  The shape of every method of the synchronisation objects: a critical section under the
  object's mutex, which answers a result and the handles to wake, and then
  \<open>reschedule_or_resume\<close> on each of them, in order, with the mutex released.
\<close>

definition call_locked ::
  "(handle \<Rightarrow> ('u, 'v, 's) world \<Rightarrow> ('u, 'v, 's) world) \<Rightarrow>
   ('s \<Rightarrow> 's \<times> ('r \<times> handle list) res) \<Rightarrow> ('u, 'v, 's) world \<Rightarrow> ('u, 'v, 's) world \<times> 'r res" where
  "call_locked resume section w =
     (case section (obj w) of
        (s, Ret (r, hs)) \<Rightarrow> (fold (reschedule_or_resume resume) hs (w\<lparr>obj := s\<rparr>), Ret r)
      | (s, Throw x) \<Rightarrow> (w\<lparr>obj := s\<rparr>, Throw x)
      | (s, Undef) \<Rightarrow> (w\<lparr>obj := s\<rparr>, Undef))"

subsection \<open>The interface to the synchronisation objects\<close>

text \<open>
  What a client that wakes coroutines relies on: on a worker thread a wake is the handle
  at the end of the worker's task queue, and nothing else the client can see.
\<close>

locale rescheduler =
  fixes resched :: "handle \<Rightarrow> 'w \<Rightarrow> 'w"
    and ready :: "'w \<Rightarrow> handle list"
    and on_worker :: "'w \<Rightarrow> bool"
    and shared :: "'w \<Rightarrow> 's"
  assumes resched_null: "resched null_handle w = w"
    and resched_ready: "on_worker w \<Longrightarrow> h \<noteq> null_handle \<Longrightarrow> ready (resched h w) = ready w @ [h]"
    and resched_worker: "on_worker w \<Longrightarrow> on_worker (resched h w)"
    and resched_shared: "on_worker w \<Longrightarrow> shared (resched h w) = shared w"
begin

lemma fold_worker: "on_worker w \<Longrightarrow> on_worker (fold resched hs w)"
  by (induction hs arbitrary: w) (auto intro: resched_worker)

lemma fold_shared: "on_worker w \<Longrightarrow> shared (fold resched hs w) = shared w"
  by (induction hs arbitrary: w) (auto simp: resched_shared resched_worker)

lemma fold_ready:
  "on_worker w \<Longrightarrow> ready (fold resched hs w) = ready w @ filter (\<lambda>h. h \<noteq> null_handle) hs"
proof (induction hs arbitrary: w)
  case (Cons h hs)
  then show ?case
    by (cases "h = null_handle") (simp_all add: resched_null resched_ready resched_worker)
qed simp

end

definition is_worker :: "('u, 'v, 's) world \<Rightarrow> bool" where
  "is_worker w \<longleftrightarrow> try_local_context w \<noteq> None"

definition local_queue :: "('u, 'v, 's) world \<Rightarrow> handle list" where
  "local_queue w =
     (case try_local_context w of None \<Rightarrow> [] | Some c \<Rightarrow> task_queue (engines w c))"

interpretation rr: rescheduler "reschedule_or_resume resume" local_queue is_worker obj
  for resume :: "handle \<Rightarrow> ('u, 'v, 's) world \<Rightarrow> ('u, 'v, 's) world"
  by unfold_locales
     (auto simp: reschedule_or_resume_def local_queue_def is_worker_def try_local_context_def
        context_submit_task_def on_engine_def engine_submit_task_def notify_cv_def)

lemma call_locked_worker:
  assumes "is_worker w" and "section (obj w) = (s, Ret (r, hs))"
  shows "obj (fst (call_locked resume section w)) = s"
    and "local_queue (fst (call_locked resume section w)) =
           local_queue w @ filter (\<lambda>h. h \<noteq> null_handle) hs"
    and "snd (call_locked resume section w) = Ret r"
proof -
  have w: "is_worker (w\<lparr>obj := s\<rparr>)" "local_queue (w\<lparr>obj := s\<rparr>) = local_queue w"
    using assms(1) by (auto simp: is_worker_def local_queue_def try_local_context_def)
  show "obj (fst (call_locked resume section w)) = s"
    "local_queue (fst (call_locked resume section w)) =
       local_queue w @ filter (\<lambda>h. h \<noteq> null_handle) hs"
    "snd (call_locked resume section w) = Ret r"
    using assms(2) by (simp_all add: call_locked_def rr.fold_shared rr.fold_ready w)
qed

subsection \<open>I/O awaiters\<close>

definition io_suspend_once_await_suspend ::
  "handle \<Rightarrow> ('u, 'v, 's) world \<Rightarrow> ('u, 'v, 's) world \<times> bool" where
  "io_suspend_once_await_suspend h w =
     (case try_local_context w of
        None \<Rightarrow> (w, False)
      | Some c \<Rightarrow> (context_submit_io_waiting c h w, True))"

definition new_io_awaiter :: "int32 \<Rightarrow> addr \<Rightarrow> size_t \<Rightarrow> size_t \<Rightarrow> io_awaiter" where
  "new_io_awaiter fd buf len offset =
     \<lparr>aw_fd = fd, aw_buf = buf, aw_len = len, aw_offset = offset, aw_result = 0,
      aw_handle = null_handle\<rparr>"

text \<open>\<open>io::read\<close> and \<open>io::write\<close> put the awaiter object at \<open>a\<close>, in the frame of the caller.\<close>

definition io_read :: "addr \<Rightarrow> int32 \<Rightarrow> addr \<Rightarrow> size_t \<Rightarrow> size_t \<Rightarrow> io_mem \<Rightarrow> io_mem" where
  "io_read a fd buf len offset m = m(a \<mapsto> new_io_awaiter fd buf len offset)"

definition io_write :: "addr \<Rightarrow> int32 \<Rightarrow> addr \<Rightarrow> size_t \<Rightarrow> size_t \<Rightarrow> io_mem \<Rightarrow> io_mem" where
  "io_write a fd buf len offset m = m(a \<mapsto> new_io_awaiter fd buf len offset)"

definition set_handle :: "addr \<Rightarrow> handle \<Rightarrow> io_mem \<Rightarrow> io_mem" where
  "set_handle a h m = m(a := map_option (\<lambda>aw. aw\<lparr>aw_handle := h\<rparr>) (m a))"

definition io_read_await_suspend ::
  "addr \<Rightarrow> handle \<Rightarrow> ('u, 'v, 's) world \<Rightarrow> ('u, 'v, 's) world \<times> bool" where
  "io_read_await_suspend a h w =
     (let w1 = w\<lparr>io_store := set_handle a h (io_store w)\<rparr> in
      case try_local_context w1 of
        None \<Rightarrow> (w1\<lparr>io_store := set_result a (- 1) (io_store w1)\<rparr>, False)
      | Some c \<Rightarrow> (context_submit_io_read c a w1, True))"

definition io_write_await_suspend ::
  "addr \<Rightarrow> handle \<Rightarrow> ('u, 'v, 's) world \<Rightarrow> ('u, 'v, 's) world \<times> bool" where
  "io_write_await_suspend a h w =
     (let w1 = w\<lparr>io_store := set_handle a h (io_store w)\<rparr> in
      case try_local_context w1 of
        None \<Rightarrow> (w1\<lparr>io_store := set_result a (- 1) (io_store w1)\<rparr>, False)
      | Some c \<Rightarrow> (context_submit_io_write c a w1, True))"

definition io_await_resume :: "addr \<Rightarrow> ('u, 'v, 's) world \<Rightarrow> int32 res" where
  "io_await_resume a w = (case io_store w a of None \<Rightarrow> Undef | Some aw \<Rightarrow> Ret (aw_result aw))"

subsection \<open>yield and submit\_to\_scheduler\<close>

text \<open>\<open>YieldAwaiter\<close>: the flag \<open>missing_context_\<close> is the state it carries to \<open>await_resume\<close>.\<close>

definition yield_await_suspend ::
  "handle \<Rightarrow> ('u, 'v, 's) world \<Rightarrow> ('u, 'v, 's) world \<times> bool \<times> bool" where
  "yield_await_suspend h w =
     (case try_local_context w of
        None \<Rightarrow> (w, True, False)
      | Some c \<Rightarrow> (context_submit_task c h w, False, True))"

definition yield_await_resume :: "bool \<Rightarrow> unit res" where
  "yield_await_resume missing_context =
     (if missing_context
      then Throw (LogicError ''runtime::yield() requires runtime context'') else Ret ())"

definition world_destroy :: "handle \<Rightarrow> ('u, 'v, 's) world \<Rightarrow> ('u, 'v, 's) world \<times> unit res" where
  "world_destroy h w = (let (H, r) = handle_destroy h (frames w) in (w\<lparr>frames := H\<rparr>, r))"

text \<open>
  The overload for a task releases the task's ownership first; an empty task has a null
  handle, which it passes on unchecked.
\<close>

definition submit_to_scheduler_task ::
  "task \<Rightarrow> ('u, 'v, 's) world \<Rightarrow> ('u, 'v, 's) world \<times> task \<times> unit res" where
  "submit_to_scheduler_task t w =
     (let h = get_handle t; t1 = detach t in
      case try_local_context w of
        Some c \<Rightarrow> (submit_tracked_task c h w, t1, Ret ())
      | None \<Rightarrow>
          (let (w1, r) = bind_res (world_destroy h w)
             (\<lambda>w1 _. (w1, Throw (LogicError
                ''runtime::submit_to_scheduler() requires runtime context''))) in (w1, t1, r)))"

definition submit_to_scheduler_handle ::
  "handle \<Rightarrow> ('u, 'v, 's) world \<Rightarrow> ('u, 'v, 's) world \<times> unit res" where
  "submit_to_scheduler_handle h w =
     (if h = null_handle then (w, Ret ())
      else
        case try_local_context w of
          Some c \<Rightarrow> (submit_tracked_task c h w, Ret ())
        | None \<Rightarrow>
            bind_res (world_destroy h w)
              (\<lambda>w1 _. (w1, Throw (LogicError
                 ''runtime::submit_to_scheduler() requires runtime context''))))"

end
