(* ===== verification/Channel.thy ===== *)
theory Channel
  imports Runtime
begin

text \<open>
  The class template \<open>Channel<T>\<close> of \<open>include/channel.h\<close>: a bounded multi-producer,
  multi-consumer queue over a ring buffer, with coroutines parked on it when it is full or
  empty. A default-constructed channel has capacity 0 and is a rendezvous channel.

  \<open>chan_state\<close> is the channel together with the awaiter objects its two queues point
  to; these live in the frames of the parked coroutines. Every method is given as its
  critical section on \<open>chan_state\<close> (names ending in \<open>_locked\<close> where the source goes on
  after releasing the mutex), which answers the handles to wake; the method itself is
  \<open>call_locked\<close> of it. Values are moved, never copied: a sender awaiter whose value went
  to the buffer or to a receiver is left \<open>MovedFrom\<close>.
\<close>

subsection \<open>Data\<close>

text \<open>\<open>StatsSnapshot\<close>, and the counters of the channel it copies.\<close>

record chan_stats =
  buffer_pushes :: uint64
  buffer_pops :: uint64
  direct_handoffs :: uint64
  sender_waits :: uint64
  receiver_waits :: uint64
  try_send_full_failures :: uint64
  try_receive_empty_returns :: uint64
  closed_failures :: uint64
  close_calls :: uint64
  close_wake_senders :: uint64
  close_wake_receivers :: uint64

definition zero_stats :: chan_stats where
  "zero_stats = \<lparr>buffer_pushes = 0, buffer_pops = 0, direct_handoffs = 0, sender_waits = 0,
     receiver_waits = 0, try_send_full_failures = 0, try_receive_empty_returns = 0,
     closed_failures = 0, close_calls = 0, close_wake_senders = 0, close_wake_receivers = 0\<rparr>"

record 'a sender_awaiter =
  sa_value :: "'a slot"
  sa_close :: bool

record 'a receiver_awaiter =
  ra_value :: "'a option"

text \<open>\<open>ch_stats_enabled\<close> is the compile-time constant \<open>kStatsEnabled\<close> of the instance.\<close>

record 'a channel =
  ch_buffer :: "'a option list"
  ch_header :: size_t
  ch_tail :: size_t
  ch_capacity :: size_t
  ch_count :: size_t
  ch_close :: bool
  ch_senders :: "(handle \<times> addr) list"
  ch_receivers :: "(handle \<times> addr) list"
  ch_stats_enabled :: bool
  ch_stats :: chan_stats

record 'a chan_state =
  chan :: "'a channel"
  sas :: "addr \<rightharpoonup> 'a sender_awaiter"
  ras :: "addr \<rightharpoonup> 'a receiver_awaiter"

subsection \<open>Construction, observers, statistics\<close>

definition channel_default :: "bool \<Rightarrow> 'a channel" where
  "channel_default stats =
     \<lparr>ch_buffer = [], ch_header = 0, ch_tail = 0, ch_capacity = 0, ch_count = 0,
      ch_close = False, ch_senders = [], ch_receivers = [], ch_stats_enabled = stats,
      ch_stats = zero_stats\<rparr>"

text \<open>
  \<open>Channel(size_t)\<close>. \<open>max_size\<close> is \<open>max_size()\<close> of the buffer's vector type, above which
  \<open>resize\<close> throws; exhaustion of memory below it is not modelled.
\<close>

definition channel_new :: "bool \<Rightarrow> size_t \<Rightarrow> size_t \<Rightarrow> 'a channel res" where
  "channel_new stats max_size capacity =
     (if capacity = 0 then Throw (InvalidArgument ''channel capacity must be greater than 0'')
      else if capacity > max_size then Throw (LengthError ''vector::_M_default_append'')
      else Ret ((channel_default stats)\<lparr>ch_capacity := capacity,
                  ch_buffer := replicate (unat capacity) None\<rparr>))"

definition isEmpty :: "'a channel \<Rightarrow> bool" where
  "isEmpty c \<longleftrightarrow> ch_count c = 0"

definition isFull :: "'a channel \<Rightarrow> bool" where
  "isFull c \<longleftrightarrow> ch_count c = ch_capacity c"

text \<open>\<open>stats_add\<close> on the counter that \<open>upd\<close> adds to; nothing without statistics.\<close>

definition stats_add :: "(chan_stats \<Rightarrow> chan_stats) \<Rightarrow> 'a channel \<Rightarrow> 'a channel" where
  "stats_add upd c = (if ch_stats_enabled c then c\<lparr>ch_stats := upd (ch_stats c)\<rparr> else c)"

text \<open>\<open>stats_load\<close> of the counter \<open>counter\<close>, \<open>stats_reset\<close> of the counter that \<open>upd\<close> sets.\<close>

definition stats_load :: "(chan_stats \<Rightarrow> uint64) \<Rightarrow> 'a channel \<Rightarrow> uint64" where
  "stats_load counter c = (if ch_stats_enabled c then counter (ch_stats c) else 0)"

definition stats_reset :: "((uint64 \<Rightarrow> uint64) \<Rightarrow> chan_stats \<Rightarrow> chan_stats) \<Rightarrow> 'a channel \<Rightarrow> 'a channel" where
  "stats_reset upd c = (if ch_stats_enabled c then c\<lparr>ch_stats := upd (\<lambda>_. 0) (ch_stats c)\<rparr> else c)"

definition stats_snapshot :: "'a channel \<Rightarrow> chan_stats" where
  "stats_snapshot c =
     \<lparr>buffer_pushes = stats_load buffer_pushes c,
      buffer_pops = stats_load buffer_pops c,
      direct_handoffs = stats_load direct_handoffs c,
      sender_waits = stats_load sender_waits c,
      receiver_waits = stats_load receiver_waits c,
      try_send_full_failures = stats_load try_send_full_failures c,
      try_receive_empty_returns = stats_load try_receive_empty_returns c,
      closed_failures = stats_load closed_failures c,
      close_calls = stats_load close_calls c,
      close_wake_senders = stats_load close_wake_senders c,
      close_wake_receivers = stats_load close_wake_receivers c\<rparr>"

definition reset_stats :: "'a channel \<Rightarrow> 'a channel" where
  "reset_stats c = fold stats_reset
     [buffer_pushes_update,
      buffer_pops_update,
      direct_handoffs_update,
      sender_waits_update,
      receiver_waits_update,
      try_send_full_failures_update,
      try_receive_empty_returns_update,
      closed_failures_update,
      close_calls_update,
      close_wake_senders_update,
      close_wake_receivers_update] c"

lemma reset_stats_eq: "reset_stats c = (if ch_stats_enabled c then c\<lparr>ch_stats := zero_stats\<rparr> else c)"
proof (cases "ch_stats_enabled c")
  case True
  have "fold stats_reset us c = c\<lparr>ch_stats := fold (\<lambda>upd. upd (\<lambda>_. 0)) us (ch_stats c)\<rparr>" for us
    using True by (induction us arbitrary: c) (simp_all add: stats_reset_def)
  then have "reset_stats c = c\<lparr>ch_stats := zero_stats\<rparr>"
    unfolding reset_stats_def by (cases "ch_stats c") (simp only:, simp add: zero_stats_def)
  with True show ?thesis by simp
next
  case False
  then have "fold stats_reset us c = c" for us by (induction us) (simp_all add: stats_reset_def)
  with False show ?thesis by (simp only: reset_stats_def if_False)
qed

lemma stats_snapshot_eq: "stats_snapshot c = (if ch_stats_enabled c then ch_stats c else zero_stats)"
  by (simp add: stats_snapshot_def stats_load_def zero_stats_def)

abbreviation add_pushes where "add_pushes \<equiv> stats_add (buffer_pushes_update (\<lambda>n. n + 1))"
abbreviation add_pops where "add_pops \<equiv> stats_add (buffer_pops_update (\<lambda>n. n + 1))"
abbreviation add_handoffs where "add_handoffs \<equiv> stats_add (direct_handoffs_update (\<lambda>n. n + 1))"
abbreviation add_sender_waits where
  "add_sender_waits \<equiv> stats_add (sender_waits_update (\<lambda>n. n + 1))"
abbreviation add_receiver_waits where
  "add_receiver_waits \<equiv> stats_add (receiver_waits_update (\<lambda>n. n + 1))"
abbreviation add_full_failures where
  "add_full_failures \<equiv> stats_add (try_send_full_failures_update (\<lambda>n. n + 1))"
abbreviation add_empty_returns where
  "add_empty_returns \<equiv> stats_add (try_receive_empty_returns_update (\<lambda>n. n + 1))"
abbreviation add_closed_failures where
  "add_closed_failures \<equiv> stats_add (closed_failures_update (\<lambda>n. n + 1))"

abbreviation closed_exn :: exn where
  "closed_exn \<equiv> RuntimeError ''channel is closed''"

subsection \<open>Pieces the methods share\<close>

text \<open>
  \<open>buffer_[tail_] = v; tail_ = (tail_ + 1) % capacity_; count_++\<close>. Indexing outside the
  vector, or a remainder by zero, is undefined.
\<close>

definition buf_write :: "'a \<Rightarrow> 'a channel \<Rightarrow> 'a channel res" where
  "buf_write v c =
     (if unat (ch_tail c) < length (ch_buffer c) \<and> ch_capacity c \<noteq> 0
      then Ret (c\<lparr>ch_buffer := (ch_buffer c)[unat (ch_tail c) := Some v],
                  ch_tail := (ch_tail c + 1) mod ch_capacity c,
                  ch_count := ch_count c + 1\<rparr>)
      else Undef)"

text \<open>
  \<open>v = std::move(*buffer_[header_]); buffer_[header_].reset();
  header_ = (header_ + 1) % capacity_; count_--\<close>.
\<close>

definition buf_take :: "'a channel \<Rightarrow> ('a \<times> 'a channel) res" where
  "buf_take c =
     (if unat (ch_header c) < length (ch_buffer c) \<and> ch_capacity c \<noteq> 0
      then (case ch_buffer c ! unat (ch_header c) of
              None \<Rightarrow> Undef
            | Some v \<Rightarrow>
                Ret (v, c\<lparr>ch_buffer := (ch_buffer c)[unat (ch_header c) := None],
                          ch_header := (ch_header c + 1) mod ch_capacity c,
                          ch_count := ch_count c - 1\<rparr>))
      else Undef)"

text \<open>\<open>std::move(sender_awaiter->value_)\<close> through the pointer of a parked sender.\<close>

definition move_sender_value :: "addr \<Rightarrow> 'a chan_state \<Rightarrow> 'a chan_state \<times> 'a res" where
  "move_sender_value a s =
     (case sas s a of
        None \<Rightarrow> (s, Undef)
      | Some sa \<Rightarrow>
          (case sa_value sa of
             Holds v \<Rightarrow> (s\<lparr>sas := (sas s)(a \<mapsto> sa\<lparr>sa_value := MovedFrom\<rparr>)\<rparr>, Ret v)
           | _ \<Rightarrow> (s, Undef)))"

text \<open>\<open>receiver_awaiter->value_ = v\<close>.\<close>

definition deliver :: "addr \<Rightarrow> 'a \<Rightarrow> 'a chan_state \<Rightarrow> 'a chan_state \<times> unit res" where
  "deliver a v s =
     (case ras s a of
        None \<Rightarrow> (s, Undef)
      | Some ra \<Rightarrow> (s\<lparr>ras := (ras s)(a \<mapsto> ra\<lparr>ra_value := Some v\<rparr>)\<rparr>, Ret ()))"

definition on_chan :: "('a channel \<Rightarrow> 'a channel) \<Rightarrow> 'a chan_state \<Rightarrow> 'a chan_state" where
  "on_chan f s = s\<lparr>chan := f (chan s)\<rparr>"

definition push_value :: "'a \<Rightarrow> 'a chan_state \<Rightarrow> 'a chan_state \<times> unit res" where
  "push_value v s =
     (case buf_write v (chan s) of
        Ret c \<Rightarrow> (s\<lparr>chan := add_pushes c\<rparr>, Ret ())
      | Throw x \<Rightarrow> (s, Throw x)
      | Undef \<Rightarrow> (s, Undef))"

definition pop_value :: "'a chan_state \<Rightarrow> 'a chan_state \<times> 'a res" where
  "pop_value s =
     (case buf_take (chan s) of
        Ret (v, c) \<Rightarrow> (s\<lparr>chan := add_pops c\<rparr>, Ret v)
      | Throw x \<Rightarrow> (s, Throw x)
      | Undef \<Rightarrow> (s, Undef))"

text \<open>After a value left the buffer: the first parked sender's value takes its place.\<close>

definition refill :: "'a chan_state \<Rightarrow> 'a chan_state \<times> handle list res" where
  "refill s =
     (case ch_senders (chan s) of
        [] \<Rightarrow> (s, Ret [])
      | (sender_handle, sender_awaiter) # q \<Rightarrow>
          bind_res (move_sender_value sender_awaiter (on_chan (\<lambda>c. c\<lparr>ch_senders := q\<rparr>) s))
            (\<lambda>s1 v. bind_res (push_value v s1) (\<lambda>s2 _. (s2, Ret [sender_handle]))))"

definition take_buffered :: "'a chan_state \<Rightarrow> 'a chan_state \<times> ('a \<times> handle list) res" where
  "take_buffered s =
     bind_res (pop_value s) (\<lambda>s1 v. bind_res (refill s1) (\<lambda>s2 hs. (s2, Ret (v, hs))))"

text \<open>An empty buffer and a parked sender: its value is handed over directly.\<close>

definition take_handoff :: "'a chan_state \<Rightarrow> 'a chan_state \<times> ('a \<times> handle list) res" where
  "take_handoff s =
     (case ch_senders (chan s) of
        [] \<Rightarrow> (s, Undef)
      | (sender_handle, sender_awaiter) # q \<Rightarrow>
          bind_res (move_sender_value sender_awaiter (on_chan (\<lambda>c. c\<lparr>ch_senders := q\<rparr>) s))
            (\<lambda>s1 v. (on_chan add_handoffs s1, Ret (v, [sender_handle]))))"

text \<open>A parked receiver is given a value.\<close>

definition give_receiver ::
  "handle \<Rightarrow> addr \<Rightarrow> (handle \<times> addr) list \<Rightarrow> 'a \<Rightarrow> 'a chan_state \<Rightarrow> 'a chan_state \<times> handle res" where
  "give_receiver receiver_handle receiver_awaiter q v s =
     bind_res (deliver receiver_awaiter v (on_chan (\<lambda>c. c\<lparr>ch_receivers := q\<rparr>) s))
       (\<lambda>s1 _. (on_chan add_handoffs s1, Ret receiver_handle))"

subsection \<open>Sending\<close>

definition send :: "'a \<Rightarrow> 'a chan_state \<Rightarrow> 'a chan_state \<times> 'a sender_awaiter res" where
  "send v s =
     (if ch_close (chan s) then (on_chan add_closed_failures s, Throw closed_exn)
      else (s, Ret \<lparr>sa_value = Holds v, sa_close = False\<rparr>))"

definition sender_suspend_locked ::
  "handle \<Rightarrow> addr \<Rightarrow> 'a chan_state \<Rightarrow> 'a chan_state \<times> (bool \<times> handle list) res" where
  "sender_suspend_locked h this s =
     (case sas s this of
        None \<Rightarrow> (s, Undef)
      | Some sa \<Rightarrow>
          if ch_close (chan s) then
            (on_chan add_closed_failures (s\<lparr>sas := (sas s)(this \<mapsto> sa\<lparr>sa_close := True\<rparr>)\<rparr>),
             Ret (False, []))
          else
            (case ch_receivers (chan s) of
               (rh, ra) # q \<Rightarrow>
                 bind_res (move_sender_value this s)
                   (\<lambda>s1 v. bind_res (give_receiver rh ra q v s1) (\<lambda>s2 r. (s2, Ret (False, [r]))))
             | [] \<Rightarrow>
                 if \<not> isFull (chan s) then
                   bind_res (move_sender_value this s)
                     (\<lambda>s1 v. bind_res (push_value v s1) (\<lambda>s2 _. (s2, Ret (False, []))))
                 else
                   (on_chan (\<lambda>c. add_sender_waits (c\<lparr>ch_senders := ch_senders c @ [(h, this)]\<rparr>)) s,
                    Ret (True, []))))"

definition sender_await_resume :: "addr \<Rightarrow> 'a chan_state \<Rightarrow> unit res" where
  "sender_await_resume this s =
     (case sas s this of
        None \<Rightarrow> Undef
      | Some sa \<Rightarrow> if sa_close sa then Throw closed_exn else Ret ())"

definition try_send_locked :: "'a \<Rightarrow> 'a chan_state \<Rightarrow> 'a chan_state \<times> (bool \<times> handle list) res" where
  "try_send_locked v s =
     (if ch_close (chan s) then (on_chan add_closed_failures s, Throw closed_exn)
      else
        (case ch_receivers (chan s) of
           (rh, ra) # q \<Rightarrow> bind_res (give_receiver rh ra q v s) (\<lambda>s1 r. (s1, Ret (True, [r])))
         | [] \<Rightarrow>
             if \<not> isFull (chan s) then bind_res (push_value v s) (\<lambda>s1 _. (s1, Ret (True, [])))
             else (on_chan add_full_failures s, Ret (False, []))))"

fun send_loop ::
  "'a list \<Rightarrow> size_t \<Rightarrow> handle list \<Rightarrow> 'a chan_state \<Rightarrow> 'a chan_state \<times> (size_t \<times> handle list) res" where
  "send_loop [] sent hs s = (s, Ret (sent, hs))"
| "send_loop (item # items) sent hs s =
     (case ch_receivers (chan s) of
        (rh, ra) # q \<Rightarrow>
          (case give_receiver rh ra q item s of
             (s1, Ret r) \<Rightarrow> send_loop items (sent + 1) (hs @ [r]) s1
           | (s1, Throw x) \<Rightarrow> (s1, Throw x)
           | (s1, Undef) \<Rightarrow> (s1, Undef))
      | [] \<Rightarrow>
          if \<not> isFull (chan s) then
            (case push_value item s of
               (s1, Ret _) \<Rightarrow> send_loop items (sent + 1) hs s1
             | (s1, Throw x) \<Rightarrow> (s1, Throw x)
             | (s1, Undef) \<Rightarrow> (s1, Undef))
          else (on_chan add_full_failures s, Ret (sent, hs)))"

definition try_send_many_locked ::
  "'a list \<Rightarrow> 'a chan_state \<Rightarrow> 'a chan_state \<times> (size_t \<times> handle list) res" where
  "try_send_many_locked items s =
     (if items = [] then (s, Ret (0, []))
      else if ch_close (chan s) then (on_chan add_closed_failures s, Throw closed_exn)
      else send_loop items 0 [] s)"

subsection \<open>Receiving\<close>

definition receive :: "'a receiver_awaiter" where
  "receive = \<lparr>ra_value = None\<rparr>"

definition receiver_suspend_locked ::
  "handle \<Rightarrow> addr \<Rightarrow> 'a chan_state \<Rightarrow> 'a chan_state \<times> (bool \<times> handle list) res" where
  "receiver_suspend_locked h this s =
     (case ras s this of
        None \<Rightarrow> (s, Undef)
      | Some ra \<Rightarrow>
          if \<not> isEmpty (chan s) then
            bind_res (take_buffered s)
              (\<lambda>s1 (v, hs). bind_res (deliver this v s1) (\<lambda>s2 _. (s2, Ret (False, hs))))
          else if ch_close (chan s) then
            (on_chan add_closed_failures (s\<lparr>ras := (ras s)(this \<mapsto> ra\<lparr>ra_value := None\<rparr>)\<rparr>),
             Ret (False, []))
          else if ch_senders (chan s) \<noteq> [] then
            bind_res (take_handoff s)
              (\<lambda>s1 (v, hs). bind_res (deliver this v s1) (\<lambda>s2 _. (s2, Ret (False, hs))))
          else
            (on_chan (\<lambda>c. add_receiver_waits (c\<lparr>ch_receivers := ch_receivers c @ [(h, this)]\<rparr>)) s,
             Ret (True, [])))"

definition receiver_await_resume :: "addr \<Rightarrow> 'a chan_state \<Rightarrow> 'a res" where
  "receiver_await_resume this s =
     (case ras s this of
        None \<Rightarrow> Undef
      | Some ra \<Rightarrow> (case ra_value ra of Some v \<Rightarrow> Ret v | None \<Rightarrow> Throw closed_exn))"

definition try_receive_locked ::
  "'a chan_state \<Rightarrow> 'a chan_state \<times> ('a option \<times> handle list) res" where
  "try_receive_locked s =
     (if \<not> isEmpty (chan s) then
        bind_res (take_buffered s) (\<lambda>s1 (v, hs). (s1, Ret (Some v, hs)))
      else if ch_senders (chan s) \<noteq> [] then
        bind_res (take_handoff s) (\<lambda>s1 (v, hs). (s1, Ret (Some v, hs)))
      else if ch_close (chan s) then (on_chan add_closed_failures s, Throw closed_exn)
      else (on_chan add_empty_returns s, Ret (None, [])))"

function receive_loop ::
  "size_t \<Rightarrow> 'a list \<Rightarrow> handle list \<Rightarrow> 'a chan_state \<Rightarrow>
   'a chan_state \<times> ('a list \<times> handle list) res" where
  "receive_loop max_items values hs s =
     (if length values < unat max_items then
        if \<not> isEmpty (chan s) then
          (case take_buffered s of
             (s1, Ret (v, ws)) \<Rightarrow> receive_loop max_items (values @ [v]) (hs @ ws) s1
           | (s1, Throw x) \<Rightarrow> (s1, Throw x)
           | (s1, Undef) \<Rightarrow> (s1, Undef))
        else if ch_senders (chan s) \<noteq> [] then
          (case take_handoff s of
             (s1, Ret (v, ws)) \<Rightarrow> receive_loop max_items (values @ [v]) (hs @ ws) s1
           | (s1, Throw x) \<Rightarrow> (s1, Throw x)
           | (s1, Undef) \<Rightarrow> (s1, Undef))
        else (s, Ret (values, hs))
      else (s, Ret (values, hs)))"
  by pat_completeness auto
termination
  by (relation "measure (\<lambda>(max_items, values, hs, s). unat max_items - length values)") auto

declare receive_loop.simps [simp del]

text \<open>\<open>max_size\<close> is \<open>max_size()\<close> of \<open>std::vector<T>\<close>: \<open>reserve\<close> throws above it.\<close>

definition try_receive_many_locked ::
  "size_t \<Rightarrow> size_t \<Rightarrow> 'a chan_state \<Rightarrow> 'a chan_state \<times> ('a list \<times> handle list) res" where
  "try_receive_many_locked max_size max_items s =
     (if max_items = 0 then (s, Ret ([], []))
      else if max_items > max_size then (s, Throw (LengthError ''vector::reserve''))
      else
        bind_res (receive_loop max_items [] [] s)
          (\<lambda>s1 (values, hs).
             if values = [] \<and> ch_close (chan s1)
             then (on_chan add_closed_failures s1, Throw closed_exn)
             else if values = [] then (on_chan add_empty_returns s1, Ret (values, hs))
             else (s1, Ret (values, hs))))"

subsection \<open>Closing\<close>

fun close_senders_loop ::
  "(handle \<times> addr) list \<Rightarrow> handle list \<Rightarrow> 'a chan_state \<Rightarrow> 'a chan_state \<times> handle list res" where
  "close_senders_loop [] hs s = (s, Ret hs)"
| "close_senders_loop ((sender_handle, sender_awaiter) # q) hs s =
     (case sas s sender_awaiter of
        None \<Rightarrow> (s, Undef)
      | Some sa \<Rightarrow>
          close_senders_loop q (hs @ [sender_handle])
            (on_chan (\<lambda>c. c\<lparr>ch_senders := q\<rparr>)
               (s\<lparr>sas := (sas s)(sender_awaiter \<mapsto> sa\<lparr>sa_close := True\<rparr>)\<rparr>)))"

fun close_receivers_loop ::
  "(handle \<times> addr) list \<Rightarrow> handle list \<Rightarrow> 'a chan_state \<Rightarrow> 'a chan_state \<times> handle list" where
  "close_receivers_loop [] hs s = (s, hs)"
| "close_receivers_loop ((receiver_handle, receiver_awaiter) # q) hs s =
     close_receivers_loop q (hs @ [receiver_handle]) (on_chan (\<lambda>c. c\<lparr>ch_receivers := q\<rparr>) s)"

definition close_locked :: "'a chan_state \<Rightarrow> 'a chan_state \<times> (unit \<times> handle list) res" where
  "close_locked s =
     (if ch_close (chan s) then (s, Throw (RuntimeError ''channel is already closed''))
      else
        let s1 = on_chan (\<lambda>c. stats_add (close_calls_update (\<lambda>n. n + 1)) (c\<lparr>ch_close := True\<rparr>)) s in
        bind_res (close_senders_loop (ch_senders (chan s1)) [] s1)
          (\<lambda>s2 sender_handles.
             let (s3, receiver_handles) = close_receivers_loop (ch_receivers (chan s2)) [] s2 in
             (on_chan (\<lambda>c. stats_add (close_wake_receivers_update (\<lambda>n. n + of_nat (length receiver_handles)))
                 (stats_add (close_wake_senders_update (\<lambda>n. n + of_nat (length sender_handles))) c)) s3,
              Ret ((), sender_handles @ receiver_handles))))"

subsection \<open>The methods\<close>

text \<open>Each method with its wakes, on the world of the calling thread.\<close>

definition sender_await_suspend where
  "sender_await_suspend resume h this w = call_locked resume (sender_suspend_locked h this) w"

definition receiver_await_suspend where
  "receiver_await_suspend resume h this w = call_locked resume (receiver_suspend_locked h this) w"

definition try_send where
  "try_send resume v w = call_locked resume (try_send_locked v) w"

definition try_send_many where
  "try_send_many resume items w = call_locked resume (try_send_many_locked items) w"

definition try_receive where
  "try_receive resume w = call_locked resume try_receive_locked w"

definition try_receive_many where
  "try_receive_many resume max_size max_items w =
     call_locked resume (try_receive_many_locked max_size max_items) w"

definition channel_close where
  "channel_close resume w = call_locked resume close_locked w"

end
