(* ===== verification/Channel_Ring.thy ===== *)
theory Channel_Ring
  imports Channel
begin

text \<open>
  The ring buffer inside a channel as a bounded queue. The interface \<open>bounded_queue\<close>
  says what the channel's methods rely on; the ring of \<open>buffer_\<close>, \<open>header_\<close>,
  \<open>tail_\<close>, \<open>count_\<close>, \<open>capacity_\<close> with its 64-bit index arithmetic provides it.
\<close>

subsection \<open>The interface\<close>

fun put_all :: "('a \<Rightarrow> 'q \<Rightarrow> 'q res) \<Rightarrow> 'a list \<Rightarrow> 'q \<Rightarrow> 'q res" where
  "put_all put [] q = Ret q"
| "put_all put (x # xs) q =
     (case put x q of Ret q1 \<Rightarrow> put_all put xs q1 | Throw e \<Rightarrow> Throw e | Undef \<Rightarrow> Undef)"

fun take_all :: "('q \<Rightarrow> ('a \<times> 'q) res) \<Rightarrow> nat \<Rightarrow> 'q \<Rightarrow> ('a list \<times> 'q) res" where
  "take_all tk 0 q = Ret ([], q)"
| "take_all tk (Suc n) q =
     (case tk q of
        Ret (x, q1) \<Rightarrow>
          (case take_all tk n q1 of
             Ret (xs, q2) \<Rightarrow> Ret (x # xs, q2) | Throw e \<Rightarrow> Throw e | Undef \<Rightarrow> Undef)
      | Throw e \<Rightarrow> Throw e
      | Undef \<Rightarrow> Undef)"

locale bounded_queue =
  fixes put :: "'a \<Rightarrow> 'q \<Rightarrow> 'q res"
    and tk :: "'q \<Rightarrow> ('a \<times> 'q) res"
    and contents :: "'q \<Rightarrow> 'a list"
    and bound :: "'q \<Rightarrow> nat"
    and invar :: "'q \<Rightarrow> bool"
  assumes put_ok: "invar q \<Longrightarrow> length (contents q) < bound q \<Longrightarrow>
      \<exists>q'. put v q = Ret q' \<and> invar q' \<and> contents q' = contents q @ [v] \<and> bound q' = bound q"
    and tk_ok: "invar q \<Longrightarrow> contents q \<noteq> [] \<Longrightarrow>
      \<exists>q'. tk q = Ret (hd (contents q), q') \<and> invar q' \<and> contents q' = tl (contents q) \<and>
        bound q' = bound q"
    and bounded: "invar q \<Longrightarrow> length (contents q) \<le> bound q"
begin

lemma put_all_ok:
  "invar q \<Longrightarrow> length (contents q) + length xs \<le> bound q \<Longrightarrow>
   \<exists>q'. put_all put xs q = Ret q' \<and> invar q' \<and> contents q' = contents q @ xs \<and> bound q' = bound q"
proof (induction xs arbitrary: q)
  case (Cons x xs)
  then obtain q1 where q1: "put x q = Ret q1" "invar q1" "contents q1 = contents q @ [x]"
    "bound q1 = bound q" using put_ok [of q x] by auto
  with Cons show ?case using Cons.IH [of q1] by auto
qed simp

lemma take_all_ok:
  "invar q \<Longrightarrow> n \<le> length (contents q) \<Longrightarrow>
   \<exists>q'. take_all tk n q = Ret (take n (contents q), q') \<and> invar q' \<and>
     contents q' = drop n (contents q) \<and> bound q' = bound q"
proof (induction n arbitrary: q)
  case (Suc n)
  then have ne: "contents q \<noteq> []" by auto
  with Suc.prems obtain q1 where q1: "tk q = Ret (hd (contents q), q1)" "invar q1"
    "contents q1 = tl (contents q)" "bound q1 = bound q" using tk_ok by blast
  with Suc.prems Suc.IH [of q1] ne show ?case
    by (cases "contents q") auto
qed simp

lemma fifo_round_trip:
  assumes "invar q" and "contents q = []" and "length xs \<le> bound q"
  shows "\<exists>q1 q2. put_all put xs q = Ret q1 \<and> take_all tk (length xs) q1 = Ret (xs, q2) \<and>
    invar q2 \<and> contents q2 = []"
proof -
  from put_all_ok [OF assms(1), of xs] assms(2,3)
  obtain q1 where "put_all put xs q = Ret q1" "invar q1" "contents q1 = xs" by auto
  with take_all_ok [of q1 "length xs"] show ?thesis by auto
qed

end

subsection \<open>The ring\<close>

definition slot :: "'a channel \<Rightarrow> nat \<Rightarrow> nat" where
  "slot c k = (unat (ch_header c) + k) mod unat (ch_capacity c)"

definition items :: "'a channel \<Rightarrow> 'a list" where
  "items c = map (\<lambda>k. the (ch_buffer c ! slot c k)) [0..<unat (ch_count c)]"

definition ring_inv :: "'a channel \<Rightarrow> bool" where
  "ring_inv c \<longleftrightarrow>
     length (ch_buffer c) = unat (ch_capacity c) \<and>
     unat (ch_count c) \<le> unat (ch_capacity c) \<and>
     (ch_capacity c = 0 \<longrightarrow> ch_header c = 0 \<and> ch_tail c = 0) \<and>
     (ch_capacity c \<noteq> 0 \<longrightarrow>
        ch_header c < ch_capacity c \<and> unat (ch_tail c) = slot c (unat (ch_count c))) \<and>
     (\<forall>k < unat (ch_capacity c). ch_buffer c ! slot c k \<noteq> None \<longleftrightarrow> k < unat (ch_count c))"

lemma length_items [simp]: "length (items c) = unat (ch_count c)"
  by (simp add: items_def)

lemma items_Nil_iff [simp]: "items c = [] \<longleftrightarrow> isEmpty c"
  by (simp add: items_def isEmpty_def unat_eq_zero)

lemma items_Nil_iff' [simp]: "[] = items c \<longleftrightarrow> isEmpty c"
  by (metis items_Nil_iff)

lemma mod_add_inj_le:
  fixes h n k l :: nat
  assumes "k \<le> l" and "l < n" and "(h + k) mod n = (h + l) mod n"
  shows "k = l"
proof -
  have "n dvd (h + l) - (h + k)"
    using assms(1,3) mod_eq_dvd_iff_nat [of "h + k" "h + l" n] by simp
  then have "n dvd l - k" by simp
  with assms(1,2) show ?thesis by (cases "l - k = 0") (auto dest: dvd_imp_le)
qed

lemma mod_add_inj:
  fixes h n k l :: nat
  assumes "k < n" and "l < n" and "(h + k) mod n = (h + l) mod n"
  shows "k = l"
  using assms mod_add_inj_le [of k l n h] mod_add_inj_le [of l k n h] by (cases "k \<le> l") auto

lemma slot_lt: "ch_capacity c \<noteq> 0 \<Longrightarrow> slot c k < unat (ch_capacity c)"
  by (simp add: slot_def word_pos_unat)

lemma slot_inj:
  "k < unat (ch_capacity c) \<Longrightarrow> l < unat (ch_capacity c) \<Longrightarrow> slot c k = slot c l \<longleftrightarrow> k = l"
  by (auto simp: slot_def dest: mod_add_inj)

lemma slot_0: "ch_header c < ch_capacity c \<Longrightarrow> slot c 0 = unat (ch_header c)"
  by (simp add: slot_def word_less_nat_alt)

lemma ring_inv_stats [simp]: "ring_inv (stats_add f c) = ring_inv c"
  by (simp add: ring_inv_def slot_def stats_add_def)

lemma items_stats [simp]: "items (stats_add f c) = items c"
  by (simp add: items_def slot_def stats_add_def)

lemma ring_write:
  assumes inv: "ring_inv c" and room: "unat (ch_count c) < unat (ch_capacity c)"
  shows "\<exists>c'. buf_write v c = Ret c' \<and> ring_inv c' \<and> items c' = items c @ [v] \<and>
    ch_capacity c' = ch_capacity c"
proof -
  let ?n = "unat (ch_count c)" and ?cap = "unat (ch_capacity c)"
  have cap: "ch_capacity c \<noteq> 0" using room by auto
  then have len: "length (ch_buffer c) = ?cap" and hd: "ch_header c < ch_capacity c"
    and tl: "unat (ch_tail c) = slot c ?n"
    and occ: "\<And>k. k < ?cap \<Longrightarrow> ch_buffer c ! slot c k \<noteq> None \<longleftrightarrow> k < ?n"
    using inv by (auto simp: ring_inv_def)
  have tlt: "slot c ?n < ?cap" using cap by (rule slot_lt)
  let ?c = "c\<lparr>ch_buffer := (ch_buffer c)[slot c ?n := Some v],
              ch_tail := (ch_tail c + 1) mod ch_capacity c, ch_count := ch_count c + 1\<rparr>"
  have w: "buf_write v c = Ret ?c"
    using tlt cap by (simp add: buf_write_def len tl)
  have slot': "slot ?c k = slot c k" for k by (simp add: slot_def)
  have n': "unat (ch_count c + 1) = Suc ?n"
    using room by (simp add: unat_inc [of "ch_count c" "ch_capacity c"] word_less_nat_alt)
  have buf': "(ch_buffer c)[slot c ?n := Some v] ! slot c k =
      (if k = ?n then Some v else ch_buffer c ! slot c k)" if "k < ?cap" for k
    using that room tlt by (simp add: nth_list_update len slot_inj)
  have "unat ((ch_tail c + 1) mod ch_capacity c) = Suc (slot c ?n) mod ?cap"
    using tlt tl by (simp add: unat_inc_mod word_less_nat_alt)
  also have "\<dots> = slot c (Suc ?n)" by (simp add: slot_def mod_Suc_eq)
  finally have tl': "unat ((ch_tail c + 1) mod ch_capacity c) = slot c (Suc ?n)" .
  have "ring_inv ?c"
    unfolding ring_inv_def using len room hd cap occ tl'
    by (auto simp: n' slot' buf' less_Suc_eq)
  moreover have "items ?c = items c @ [v]"
    using room by (auto simp: items_def n' slot' buf')
  ultimately show ?thesis using w by auto
qed

lemma ring_take:
  assumes inv: "ring_inv c" and some: "0 < unat (ch_count c)"
  shows "\<exists>c'. buf_take c = Ret (hd (items c), c') \<and> ring_inv c' \<and> items c' = tl (items c) \<and>
    ch_capacity c' = ch_capacity c"
proof -
  let ?cap = "unat (ch_capacity c)"
  obtain n where n: "unat (ch_count c) = Suc n" using some by (cases "unat (ch_count c)") auto
  have cnt: "Suc n \<le> ?cap" using inv n by (simp add: ring_inv_def)
  then have cap: "ch_capacity c \<noteq> 0" by auto
  then have len: "length (ch_buffer c) = ?cap" and hd: "ch_header c < ch_capacity c"
    and tl: "unat (ch_tail c) = slot c (Suc n)"
    and occ: "\<And>k. k < ?cap \<Longrightarrow> ch_buffer c ! slot c k \<noteq> None \<longleftrightarrow> k < Suc n"
    using inv n by (auto simp: ring_inv_def)
  have s0: "slot c 0 = unat (ch_header c)" using hd by (rule slot_0)
  from occ [of 0] cnt obtain v where v: "ch_buffer c ! unat (ch_header c) = Some v"
    by (auto simp: s0)
  let ?c = "c\<lparr>ch_buffer := (ch_buffer c)[unat (ch_header c) := None],
              ch_header := (ch_header c + 1) mod ch_capacity c, ch_count := ch_count c - 1\<rparr>"
  have t: "buf_take c = Ret (v, ?c)"
    using hd cap v by (simp add: buf_take_def len word_less_nat_alt)
  have slot': "slot ?c k = slot c (Suc k)" for k
    using hd by (simp add: slot_def unat_inc_mod mod_add_left_eq)
  have n': "unat (ch_count c - 1) = n" using n by (simp add: unat_dec)
  have wrap: "slot c ?cap = unat (ch_header c)"
    using hd by (simp add: slot_def word_less_nat_alt)
  have buf': "(ch_buffer c)[unat (ch_header c) := None] ! slot c (Suc k) =
      (if Suc k = ?cap then None else ch_buffer c ! slot c (Suc k))" if "k < ?cap" for k
  proof (cases "Suc k = ?cap")
    case True
    with hd show ?thesis by (simp add: wrap len word_less_nat_alt)
  next
    case False
    with that cnt have "slot c (Suc k) \<noteq> slot c 0" by (simp add: slot_inj)
    with False show ?thesis by (simp add: s0 nth_list_update)
  qed
  have "ring_inv ?c"
    unfolding ring_inv_def using len cnt hd cap occ tl
    by (auto simp: n' slot' buf' unat_inc_mod word_less_nat_alt)
  moreover have "items c = v # items ?c"
  proof -
    have "items c = the (ch_buffer c ! slot c 0) # map (\<lambda>k. the (ch_buffer c ! slot c (Suc k))) [0..<n]"
      unfolding items_def n by (rule map_upt_cons)
    also have "map (\<lambda>k. the (ch_buffer c ! slot c (Suc k))) [0..<n] = items ?c"
      using cnt by (auto simp: items_def n' slot' buf')
    finally show ?thesis by (simp add: s0 v)
  qed
  ultimately show ?thesis using t by auto
qed

interpretation ring: bounded_queue buf_write buf_take items "\<lambda>c. unat (ch_capacity c)" ring_inv
proof
  fix q :: "'a channel" and v
  assume inv: "ring_inv q"
  show "length (items q) \<le> unat (ch_capacity q)"
    using inv by (simp add: ring_inv_def)
  show "\<exists>q'. buf_write v q = Ret q' \<and> ring_inv q' \<and> items q' = items q @ [v] \<and>
      unat (ch_capacity q') = unat (ch_capacity q)"
    if "length (items q) < unat (ch_capacity q)"
    using ring_write [OF inv, of v] that by auto
  show "\<exists>q'. buf_take q = Ret (hd (items q), q') \<and> ring_inv q' \<and> items q' = tl (items q) \<and>
      unat (ch_capacity q') = unat (ch_capacity q)"
    if "items q \<noteq> []"
    using ring_take [OF inv] that by (auto simp: isEmpty_def word_pos_unat)
qed

subsection \<open>What the ring operations leave alone\<close>

lemma buf_write_frame:
  assumes "buf_write v c = Ret c'"
  shows "ch_senders c' = ch_senders c" "ch_receivers c' = ch_receivers c"
    "ch_close c' = ch_close c" "ch_capacity c' = ch_capacity c"
    "ch_stats_enabled c' = ch_stats_enabled c" "ch_stats c' = ch_stats c"
    "ch_count c' = ch_count c + 1"
  using assms by (auto simp: buf_write_def split: if_splits)

lemma buf_take_frame:
  assumes "buf_take c = Ret (v, c')"
  shows "ch_senders c' = ch_senders c" "ch_receivers c' = ch_receivers c"
    "ch_close c' = ch_close c" "ch_capacity c' = ch_capacity c"
    "ch_stats_enabled c' = ch_stats_enabled c" "ch_stats c' = ch_stats c"
    "ch_count c' = ch_count c - 1"
  using assms by (auto simp: buf_take_def split: if_splits option.splits)

lemma ring_new:
  assumes "channel_new stats max_size n = Ret c"
  shows "ring_inv c" and "items c = []"
  using assms
  by (auto simp: channel_new_def channel_default_def ring_inv_def items_def slot_def
      word_pos_unat word_less_nat_alt split: if_splits)

lemma ring_default: "ring_inv (channel_default stats)"
  by (simp add: channel_default_def ring_inv_def)

end
