(* ===== verification/Channel_Spec.thy ===== *)
theory Channel_Spec
  imports Channel_Ring
begin

text \<open>
  The contract of a channel and its refinement. \<open>achan\<close> is the channel as its user sees
  it: buffered values, senders parked with their values, receivers parked, a closed flag;
  no ring, no indices, no awaiter objects. \<open>chan_inv\<close> is the representation invariant;
  under it every critical section of \<open>Channel.thy\<close> does exactly what the abstract
  operation does and never runs into undefined behaviour.
\<close>

subsection \<open>The abstract channel\<close>

record 'a achan =
  a_items :: "'a list"
  a_cap :: nat
  a_parked :: "(handle \<times> addr \<times> 'a) list"
  a_waiting :: "(handle \<times> addr) list"
  a_closed :: bool

datatype verdict = Done | Suspends | Closed | Refused

text \<open>
  An abstract operation answers the new channel, a verdict, the handles to wake and the
  values delivered to receiver awaiters.
\<close>

type_synonym 'a answer = "'a achan \<times> verdict \<times> handle list \<times> (addr \<times> 'a) list"

definition a_offer :: "'a \<Rightarrow> 'a achan \<Rightarrow> 'a answer" where
  "a_offer v q =
     (if a_closed q then (q, Closed, [], [])
      else
        (case a_waiting q of
           (rh, ra) # ws \<Rightarrow> (q\<lparr>a_waiting := ws\<rparr>, Done, [rh], [(ra, v)])
         | [] \<Rightarrow>
             if length (a_items q) < a_cap q
             then (q\<lparr>a_items := a_items q @ [v]\<rparr>, Done, [], [])
             else (q, Refused, [], [])))"

definition a_send :: "handle \<Rightarrow> addr \<Rightarrow> 'a \<Rightarrow> 'a achan \<Rightarrow> 'a answer" where
  "a_send h a v q =
     (case a_offer v q of
        (q', Refused, _) \<Rightarrow> (q'\<lparr>a_parked := a_parked q' @ [(h, a, v)]\<rparr>, Suspends, [], [])
      | r \<Rightarrow> r)"

text \<open>Taking the oldest value; the first parked sender, if any, is let in.\<close>

definition a_take :: "'a achan \<Rightarrow> ('a achan \<times> 'a \<times> handle list) option" where
  "a_take q =
     (case (a_items q, a_parked q) of
        (v # vs, []) \<Rightarrow> Some (q\<lparr>a_items := vs\<rparr>, v, [])
      | (v # vs, (ph, pa, pv) # ps) \<Rightarrow>
          Some (q\<lparr>a_items := vs @ [pv], a_parked := ps\<rparr>, v, [ph])
      | ([], (ph, pa, pv) # ps) \<Rightarrow> Some (q\<lparr>a_parked := ps\<rparr>, pv, [ph])
      | ([], []) \<Rightarrow> None)"

definition a_receive :: "handle \<Rightarrow> addr \<Rightarrow> 'a achan \<Rightarrow> 'a answer" where
  "a_receive h a q =
     (case a_take q of
        Some (q', v, hs) \<Rightarrow> (q', Done, hs, [(a, v)])
      | None \<Rightarrow>
          if a_closed q then (q, Closed, [], [])
          else (q\<lparr>a_waiting := a_waiting q @ [(h, a)]\<rparr>, Suspends, [], []))"

definition a_close :: "'a achan \<Rightarrow> 'a achan \<times> handle list" where
  "a_close q =
     (q\<lparr>a_closed := True, a_parked := [], a_waiting := []\<rparr>,
      map fst (a_parked q) @ map fst (a_waiting q))"

text \<open>Offering values one after the other until one is refused; taking up to \<open>n\<close> of them.\<close>

fun a_offer_many :: "'a list \<Rightarrow> 'a achan \<Rightarrow> 'a achan \<times> nat \<times> handle list \<times> (addr \<times> 'a) list" where
  "a_offer_many [] q = (q, 0, [], [])"
| "a_offer_many (v # vs) q =
     (case a_offer v q of
        (q', Done, hs, ds) \<Rightarrow>
          (case a_offer_many vs q' of (q'', n, hs', ds') \<Rightarrow> (q'', Suc n, hs @ hs', ds @ ds'))
      | _ \<Rightarrow> (q, 0, [], []))"

fun a_take_many :: "nat \<Rightarrow> 'a achan \<Rightarrow> 'a achan \<times> 'a list \<times> handle list" where
  "a_take_many 0 q = (q, [], [])"
| "a_take_many (Suc n) q =
     (case a_take q of
        None \<Rightarrow> (q, [], [])
      | Some (q', v, hs) \<Rightarrow>
          (case a_take_many n q' of (q'', vs, hs') \<Rightarrow> (q'', v # vs, hs @ hs')))"

text \<open>The values inside the channel, oldest first.\<close>

definition pending :: "'a achan \<Rightarrow> 'a list" where
  "pending q = a_items q @ map (\<lambda>(h, a, v). v) (a_parked q)"

subsection \<open>Representation\<close>

definition held :: "'a chan_state \<Rightarrow> addr \<Rightarrow> 'a option" where
  "held s a =
     (case sas s a of
        None \<Rightarrow> None
      | Some sa \<Rightarrow> (case sa_value sa of Holds v \<Rightarrow> Some v | _ \<Rightarrow> None))"

definition abs_chan :: "'a chan_state \<Rightarrow> 'a achan" where
  "abs_chan s =
     \<lparr>a_items = items (chan s), a_cap = unat (ch_capacity (chan s)),
      a_parked = map (\<lambda>(h, a). (h, a, the (held s a))) (ch_senders (chan s)),
      a_waiting = ch_receivers (chan s), a_closed = ch_close (chan s)\<rparr>"

definition sender_ok :: "'a chan_state \<Rightarrow> addr \<Rightarrow> bool" where
  "sender_ok s a \<longleftrightarrow>
     (case sas s a of
        None \<Rightarrow> False
      | Some sa \<Rightarrow> (case sa_value sa of Holds v \<Rightarrow> \<not> sa_close sa | _ \<Rightarrow> False))"

definition receiver_ok :: "'a chan_state \<Rightarrow> addr \<Rightarrow> bool" where
  "receiver_ok s a \<longleftrightarrow> (case ras s a of None \<Rightarrow> False | Some ra \<Rightarrow> ra_value ra = None)"

definition queues_inv :: "'a chan_state \<Rightarrow> bool" where
  "queues_inv s \<longleftrightarrow>
     (let c = chan s in
      (ch_senders c \<noteq> [] \<longrightarrow> isFull c \<and> \<not> ch_close c \<and> ch_receivers c = []) \<and>
      (ch_receivers c \<noteq> [] \<longrightarrow> isEmpty c \<and> \<not> ch_close c))"

definition awaiters_inv :: "'a chan_state \<Rightarrow> bool" where
  "awaiters_inv s \<longleftrightarrow>
     list_all (\<lambda>(h, a). sender_ok s a) (ch_senders (chan s)) \<and>
     distinct (map snd (ch_senders (chan s))) \<and>
     list_all (\<lambda>(h, a). receiver_ok s a) (ch_receivers (chan s)) \<and>
     distinct (map snd (ch_receivers (chan s)))"

definition chan_inv :: "'a chan_state \<Rightarrow> bool" where
  "chan_inv s \<longleftrightarrow> ring_inv (chan s) \<and> queues_inv s \<and> awaiters_inv s"

lemmas chan_inv_defs = chan_inv_def queues_inv_def awaiters_inv_def

lemma chan_inv_ring: "chan_inv s \<Longrightarrow> ring_inv (chan s)"
  by (simp add: chan_inv_def)

subsection \<open>Simplification set-up\<close>

lemma stats_add_frame [simp]:
  "ch_buffer (stats_add f c) = ch_buffer c" "ch_header (stats_add f c) = ch_header c"
  "ch_tail (stats_add f c) = ch_tail c" "ch_capacity (stats_add f c) = ch_capacity c"
  "ch_count (stats_add f c) = ch_count c" "ch_close (stats_add f c) = ch_close c"
  "ch_senders (stats_add f c) = ch_senders c" "ch_receivers (stats_add f c) = ch_receivers c"
  "ch_stats_enabled (stats_add f c) = ch_stats_enabled c"
  by (simp_all add: stats_add_def)

lemma isFull_stats [simp]: "isFull (stats_add f c) = isFull c"
  and isEmpty_stats [simp]: "isEmpty (stats_add f c) = isEmpty c"
  by (simp_all add: isFull_def isEmpty_def)

lemma ring_frame [simp]:
  "ring_inv (c\<lparr>ch_senders := x\<rparr>) = ring_inv c" "items (c\<lparr>ch_senders := x\<rparr>) = items c"
  "ring_inv (c\<lparr>ch_receivers := y\<rparr>) = ring_inv c" "items (c\<lparr>ch_receivers := y\<rparr>) = items c"
  "ring_inv (c\<lparr>ch_close := b\<rparr>) = ring_inv c" "items (c\<lparr>ch_close := b\<rparr>) = items c"
  "isFull (c\<lparr>ch_senders := x\<rparr>) = isFull c" "isEmpty (c\<lparr>ch_senders := x\<rparr>) = isEmpty c"
  "isFull (c\<lparr>ch_receivers := y\<rparr>) = isFull c" "isEmpty (c\<lparr>ch_receivers := y\<rparr>) = isEmpty c"
  "isFull (c\<lparr>ch_close := b\<rparr>) = isFull c" "isEmpty (c\<lparr>ch_close := b\<rparr>) = isEmpty c"
  by (simp_all add: ring_inv_def items_def slot_def isFull_def isEmpty_def)

lemma on_chan_simps [simp]:
  "chan (on_chan f s) = f (chan s)" "sas (on_chan f s) = sas s" "ras (on_chan f s) = ras s"
  by (simp_all add: on_chan_def)

lemma sender_ok_chan [simp]: "sender_ok (on_chan f s) = sender_ok s"
  "receiver_ok (on_chan f s) = receiver_ok s" "held (on_chan f s) = held s"
  "sender_ok (s\<lparr>chan := c\<rparr>) = sender_ok s" "receiver_ok (s\<lparr>chan := c\<rparr>) = receiver_ok s"
  "held (s\<lparr>chan := c\<rparr>) = held s" "sender_ok (s\<lparr>ras := r\<rparr>) = sender_ok s"
  "held (s\<lparr>ras := r\<rparr>) = held s" "receiver_ok (s\<lparr>sas := t\<rparr>) = receiver_ok s"
  by (auto simp: sender_ok_def receiver_ok_def held_def fun_eq_iff)

lemma sender_okE:
  assumes "sender_ok s a"
  obtains v where "sas s a = Some \<lparr>sa_value = Holds v, sa_close = False\<rparr>" and "held s a = Some v"
proof -
  from assms obtain sa where sa: "sas s a = Some sa" "sa_value sa \<noteq> Nullopt"
    "sa_value sa \<noteq> MovedFrom" "\<not> sa_close sa"
    by (auto simp: sender_ok_def split: option.splits slot.splits)
  then obtain v where "sa_value sa = Holds v" by (cases "sa_value sa") auto
  with sa have "sas s a = Some \<lparr>sa_value = Holds v, sa_close = False\<rparr>" "held s a = Some v"
    by (auto simp: held_def)
  then show thesis by (rule that)
qed

lemma receiver_okE:
  assumes "receiver_ok s a"
  obtains "ras s a = Some \<lparr>ra_value = None\<rparr>"
  using assms by (auto simp: receiver_ok_def split: option.splits)

lemma move_sender_value_held:
  assumes "sas s a = Some \<lparr>sa_value = Holds v, sa_close = b\<rparr>"
  shows "move_sender_value a s =
    (s\<lparr>sas := (sas s)(a \<mapsto> \<lparr>sa_value = MovedFrom, sa_close = b\<rparr>)\<rparr>, Ret v)"
  using assms by (simp add: move_sender_value_def)

lemma deliver_ok:
  assumes "ras s a = Some ra"
  shows "deliver a v s = (s\<lparr>ras := (ras s)(a \<mapsto> \<lparr>ra_value = Some v\<rparr>)\<rparr>, Ret ())"
  using assms by (cases ra) (simp add: deliver_def)

definition chan_frame :: "'a channel \<Rightarrow> 'a channel \<Rightarrow> bool" where
  "chan_frame c c' \<longleftrightarrow>
     ch_senders c' = ch_senders c \<and> ch_receivers c' = ch_receivers c \<and>
     ch_close c' = ch_close c \<and> ch_capacity c' = ch_capacity c \<and>
     ch_stats_enabled c' = ch_stats_enabled c"

lemma isFull_items: "ring_inv c \<Longrightarrow> isFull c \<longleftrightarrow> length (items c) = unat (ch_capacity c)"
  by (simp add: isFull_def word_unat_eq_iff)

lemma not_full_items: "ring_inv c \<Longrightarrow> \<not> isFull c \<longleftrightarrow> length (items c) < unat (ch_capacity c)"
  using ring.bounded [of c] by (auto simp: isFull_items)

lemma push_value_ok:
  assumes "ring_inv (chan s)" and "\<not> isFull (chan s)"
  shows "\<exists>c'. push_value v s = (s\<lparr>chan := c'\<rparr>, Ret ()) \<and> ring_inv c' \<and>
    items c' = items (chan s) @ [v] \<and> chan_frame (chan s) c'"
proof -
  from ring_write [OF assms(1), of v] assms(2) obtain c' where
    c': "buf_write v (chan s) = Ret c'" "ring_inv c'" "items c' = items (chan s) @ [v]"
    by (auto simp: not_full_items [OF assms(1)])
  then show ?thesis
    by (intro exI [of _ "add_pushes c'"])
       (simp add: push_value_def chan_frame_def buf_write_frame [OF c'(1)])
qed

lemma pop_value_ok:
  assumes "ring_inv (chan s)" and "items (chan s) = v # vs"
  shows "\<exists>c'. pop_value s = (s\<lparr>chan := c'\<rparr>, Ret v) \<and> ring_inv c' \<and> items c' = vs \<and>
    chan_frame (chan s) c'"
proof -
  have "0 < unat (ch_count (chan s))" using assms(2) by (metis length_items length_greater_0_conv list.distinct(1))
  from ring_take [OF assms(1) this] obtain c' where
    c': "buf_take (chan s) = Ret (v, c')" "ring_inv c'" "items c' = vs"
    using assms(2) by auto
  then show ?thesis
    by (intro exI [of _ "add_pops c'"])
       (simp add: pop_value_def chan_frame_def buf_take_frame [OF c'(1)])
qed

subsection \<open>What a critical section leaves behind\<close>

text \<open>Values arriving at receiver awaiters.\<close>

definition delivered ::
  "(addr \<times> 'a) list \<Rightarrow> (addr \<rightharpoonup> 'a receiver_awaiter) \<Rightarrow> (addr \<rightharpoonup> 'a receiver_awaiter)" where
  "delivered ds r = foldl (\<lambda>r (a, v). r(a \<mapsto> \<lparr>ra_value = Some v\<rparr>)) r ds"

text \<open>
  \<open>s'\<close> represents \<open>q\<close>, keeps the invariant, has delivered exactly \<open>ds\<close> to receiver
  awaiters and has marked no sender awaiter as closed.
\<close>

definition follows ::
  "'a chan_state \<Rightarrow> 'a chan_state \<Rightarrow> 'a achan \<Rightarrow> (addr \<times> 'a) list \<Rightarrow> bool" where
  "follows s s' q ds \<longleftrightarrow>
     chan_inv s' \<and> abs_chan s' = q \<and> ras s' = delivered ds (ras s) \<and>
     (\<forall>a. map_option sa_close (sas s' a) = map_option sa_close (sas s a))"

lemma delivered_simps [simp]:
  "delivered [] r = r" "delivered [(a, v)] r = r(a \<mapsto> \<lparr>ra_value = Some v\<rparr>)"
  by (simp_all add: delivered_def)

lemma give_receiver_ok:
  assumes inv: "chan_inv s" and rs: "ch_receivers (chan s) = (rh, ra) # q"
  shows "\<exists>s'. give_receiver rh ra q v s = (s', Ret rh) \<and>
    follows s s' (abs_chan s\<lparr>a_waiting := q\<rparr>) [(ra, v)] \<and> sas s' = sas s"
proof -
  have "receiver_ok s ra" using inv rs by (simp add: chan_inv_defs)
  then obtain r where r: "ras s ra = Some r" by (auto simp: receiver_ok_def split: option.splits)
  let ?s = "on_chan add_handoffs
     ((on_chan (\<lambda>c. c\<lparr>ch_receivers := q\<rparr>) s)\<lparr>ras := (ras s)(ra \<mapsto> \<lparr>ra_value = Some v\<rparr>)\<rparr>)"
  have g: "give_receiver rh ra q v s = (?s, Ret rh)"
    using r by (simp add: give_receiver_def deliver_ok)
  have ns: "ch_senders (chan s) = []" and ra: "ra \<notin> snd ` set q"
    using inv rs by (auto simp: chan_inv_defs Let_def)
  have "list_all (\<lambda>(h, a). receiver_ok ?s a) q"
    using inv rs ra by (auto simp: chan_inv_defs list_all_iff receiver_ok_def image_iff)
  with inv rs ns have "chan_inv ?s" by (auto simp: chan_inv_defs Let_def)
  moreover have "abs_chan ?s = abs_chan s\<lparr>a_waiting := q\<rparr>"
    using ns by (simp add: abs_chan_def)
  ultimately show ?thesis using g by (simp add: follows_def)
qed

lemma push_value_follows:
  assumes inv: "chan_inv s" and rs: "ch_receivers (chan s) = []" and nf: "\<not> isFull (chan s)"
  shows "\<exists>s'. push_value v s = (s', Ret ()) \<and> sas s' = sas s \<and>
    follows s s' (abs_chan s\<lparr>a_items := a_items (abs_chan s) @ [v]\<rparr>) []"
proof -
  from push_value_ok [OF chan_inv_ring [OF inv] nf] obtain c' where
    c': "push_value v s = (s\<lparr>chan := c'\<rparr>, Ret ())" "ring_inv c'"
      "items c' = items (chan s) @ [v]" "chan_frame (chan s) c'" by blast
  have ns: "ch_senders (chan s) = []" using inv nf by (auto simp: chan_inv_defs Let_def)
  show ?thesis using c' inv ns rs
    by (simp add: follows_def chan_inv_defs chan_frame_def abs_chan_def Let_def)
qed

text \<open>Awaiters that are not parked may change, come and go.\<close>

lemma sas_frame:
  assumes inv: "chan_inv s" and fresh: "a \<notin> snd ` set (ch_senders (chan s))"
  shows "chan_inv (s\<lparr>sas := (sas s)(a := x)\<rparr>)" and "abs_chan (s\<lparr>sas := (sas s)(a := x)\<rparr>) = abs_chan s"
proof -
  let ?t = "(sas s)(a := x)"
  have same: "b \<noteq> a" if "(h, b) \<in> set (ch_senders (chan s))" for h b
    using fresh that by (force simp: image_iff)
  have "list_all (\<lambda>(h, b). sender_ok (s\<lparr>sas := ?t\<rparr>) b) (ch_senders (chan s))"
    using inv same by (auto simp: chan_inv_defs list_all_iff sender_ok_def)
  with inv show "chan_inv (s\<lparr>sas := ?t\<rparr>)" by (simp add: chan_inv_defs Let_def)
  show "abs_chan (s\<lparr>sas := ?t\<rparr>) = abs_chan s" using same by (auto simp: abs_chan_def held_def)
qed

lemma ras_frame:
  assumes inv: "chan_inv s" and fresh: "a \<notin> snd ` set (ch_receivers (chan s))"
  shows "chan_inv (s\<lparr>ras := (ras s)(a := x)\<rparr>)" and "abs_chan (s\<lparr>ras := (ras s)(a := x)\<rparr>) = abs_chan s"
proof -
  let ?t = "(ras s)(a := x)"
  have "b \<noteq> a" if "(h, b) \<in> set (ch_receivers (chan s))" for h b
    using fresh that by (force simp: image_iff)
  with inv have "list_all (\<lambda>(h, b). receiver_ok (s\<lparr>ras := ?t\<rparr>) b) (ch_receivers (chan s))"
    by (auto simp: chan_inv_defs list_all_iff receiver_ok_def)
  with inv show "chan_inv (s\<lparr>ras := ?t\<rparr>)" by (simp add: chan_inv_defs Let_def)
  show "abs_chan (s\<lparr>ras := ?t\<rparr>) = abs_chan s" by (simp add: abs_chan_def)
qed

lemma sender_moved:
  assumes inv: "chan_inv s" and ok: "sas s a = Some \<lparr>sa_value = Holds v, sa_close = False\<rparr>"
    and fresh: "a \<notin> snd ` set (ch_senders (chan s))"
  shows "follows s (s\<lparr>sas := (sas s)(a \<mapsto> \<lparr>sa_value = MovedFrom, sa_close = False\<rparr>)\<rparr>) (abs_chan s) []"
    (is "follows s ?s _ _")
  using sas_frame [OF inv fresh] ok by (simp add: follows_def)

lemma delivered_append: "delivered (ds @ es) r = delivered es (delivered ds r)"
  by (simp add: delivered_def)

lemma follows_append: "follows s s1 p ds \<Longrightarrow> follows s1 s2 q es \<Longrightarrow> follows s s2 q (ds @ es)"
  by (auto simp: follows_def delivered_append)

lemma follows_refl: "chan_inv s \<Longrightarrow> follows s s (abs_chan s) []"
  by (simp add: follows_def)

lemma follows_trans: "follows s s1 p [] \<Longrightarrow> follows s1 s2 q ds \<Longrightarrow> follows s s2 q ds"
  using follows_append [of s s1 p "[]"] by simp

lemma follows_inv: "follows s s' q ds \<Longrightarrow> chan_inv s'"
  and follows_abs: "follows s s' q ds \<Longrightarrow> abs_chan s' = q"
  by (simp_all add: follows_def)

subsection \<open>Taking a value\<close>

text \<open>The first parked sender leaves the queue and its value is moved out.\<close>

definition unparked :: "'a channel \<Rightarrow> (handle \<times> addr) list \<Rightarrow> addr \<Rightarrow> 'a chan_state \<Rightarrow> 'a chan_state" where
  "unparked c ps pa s =
     s\<lparr>chan := c\<lparr>ch_senders := ps\<rparr>,
       sas := (sas s)(pa \<mapsto> \<lparr>sa_value = MovedFrom, sa_close = False\<rparr>)\<rparr>"

lemma first_sender:
  assumes inv: "chan_inv s" and ss: "ch_senders (chan s) = (ph, pa) # ps"
  obtains pv where "held s pa = Some pv"
    and "\<And>c. move_sender_value pa (s\<lparr>chan := c\<lparr>ch_senders := ps\<rparr>\<rparr>) = (unparked c ps pa s, Ret pv)"
    and "sas s pa = Some \<lparr>sa_value = Holds pv, sa_close = False\<rparr>"
proof -
  have "sender_ok s pa" using inv ss by (simp add: chan_inv_defs)
  then obtain pv where pv: "sas s pa = Some \<lparr>sa_value = Holds pv, sa_close = False\<rparr>"
    "held s pa = Some pv" by (rule sender_okE)
  show thesis by (rule that [of pv]) (use pv in \<open>simp_all add: move_sender_value_def unparked_def\<close>)
qed

lemma unparked_rest:
  assumes inv: "chan_inv s" and ss: "ch_senders (chan s) = (ph, pa) # ps"
  shows "list_all (\<lambda>(h, b). sender_ok (unparked c ps pa s) b) ps"
    and "map (\<lambda>(h, b). (h, b, the (held (unparked c ps pa s) b))) ps =
         map (\<lambda>(h, b). (h, b, the (held s b))) ps"
    and "distinct (map snd ps)"
proof -
  have neq: "b \<noteq> pa" if "(h, b) \<in> set ps" for h b
    using inv ss that by (force simp: chan_inv_defs image_iff)
  show "list_all (\<lambda>(h, b). sender_ok (unparked c ps pa s) b) ps"
    using inv ss neq by (auto simp: chan_inv_defs list_all_iff sender_ok_def unparked_def)
  show "map (\<lambda>(h, b). (h, b, the (held (unparked c ps pa s) b))) ps =
         map (\<lambda>(h, b). (h, b, the (held s b))) ps"
    using neq by (auto simp: held_def unparked_def)
  show "distinct (map snd ps)" using inv ss by (simp add: chan_inv_defs)
qed

lemma unparked_follows:
  assumes inv: "chan_inv s" and ss: "ch_senders (chan s) = (ph, pa) # ps"
    and c: "ring_inv c" "isFull c" "chan_frame (chan s) c"
  shows "follows s (unparked (c\<lparr>ch_senders := x\<rparr>) ps pa s)
     (abs_chan s\<lparr>a_items := items c, a_parked := tl (a_parked (abs_chan s))\<rparr>) []"
proof -
  have rs: "ch_receivers (chan s) = []" "\<not> ch_close (chan s)"
    using inv ss by (auto simp: chan_inv_defs Let_def)
  from first_sender [OF inv ss] obtain pv where
    pv: "sas s pa = Some \<lparr>sa_value = Holds pv, sa_close = False\<rparr>" by metis
  let ?u = "unparked (c\<lparr>ch_senders := x\<rparr>) ps pa s"
  have u: "chan ?u = c\<lparr>ch_senders := ps\<rparr>" "ras ?u = ras s"
    "sas ?u = (sas s)(pa \<mapsto> \<lparr>sa_value = MovedFrom, sa_close = False\<rparr>)"
    by (simp_all add: unparked_def)
  have "chan_inv ?u" using rs c u(1) unparked_rest(1,3) [OF inv ss]
    by (simp add: chan_inv_defs chan_frame_def Let_def)
  moreover have "abs_chan ?u = abs_chan s\<lparr>a_items := items c, a_parked := tl (a_parked (abs_chan s))\<rparr>"
    using c(3) unparked_rest(2) [OF inv ss] by (simp add: abs_chan_def u ss chan_frame_def)
  ultimately show ?thesis using u pv by (simp add: follows_def)
qed

lemma take_handoff_ok:
  assumes inv: "chan_inv s" and ss: "ch_senders (chan s) \<noteq> []" and e: "isEmpty (chan s)"
  shows "\<exists>s' v hs q'. take_handoff s = (s', Ret (v, hs)) \<and>
    a_take (abs_chan s) = Some (q', v, hs) \<and> follows s s' q' []"
proof -
  obtain ph pa ps where ps: "ch_senders (chan s) = (ph, pa) # ps"
    using ss by (cases "ch_senders (chan s)") auto
  from first_sender [OF inv ps] obtain pv where pv: "held s pa = Some pv"
    and mv: "\<And>c. move_sender_value pa (s\<lparr>chan := c\<lparr>ch_senders := ps\<rparr>\<rparr>) = (unparked c ps pa s, Ret pv)"
    by metis
  have full: "isFull (chan s)" using inv ps by (auto simp: chan_inv_defs Let_def)
  have it: "items (chan s) = []" using e by (simp add: isEmpty_def)
  have th: "take_handoff s = (on_chan add_handoffs (unparked (chan s) ps pa s), Ret (pv, [ph]))"
    using ps mv [of "chan s"] by (simp add: take_handoff_def on_chan_def)
  let ?c = "add_handoffs (chan s)"
  have eq: "on_chan add_handoffs (unparked (chan s) ps pa s) = unparked (?c\<lparr>ch_senders := ps\<rparr>) ps pa s"
    by (simp add: on_chan_def unparked_def stats_add_def)
  have "follows s (unparked (?c\<lparr>ch_senders := ps\<rparr>) ps pa s)
     (abs_chan s\<lparr>a_items := items ?c, a_parked := tl (a_parked (abs_chan s))\<rparr>) []"
    using full chan_inv_ring [OF inv]
    by (intro unparked_follows [OF inv ps]) (simp_all add: chan_frame_def)
  moreover have "a_take (abs_chan s) = Some (abs_chan s\<lparr>a_items := items ?c,
      a_parked := tl (a_parked (abs_chan s))\<rparr>, pv, [ph])"
    using ps it pv by (simp add: a_take_def abs_chan_def del: items_Nil_iff)
  ultimately show ?thesis using th eq by metis
qed

lemma take_buffered_ok:
  assumes inv: "chan_inv s" and ne: "\<not> isEmpty (chan s)"
  shows "\<exists>s' v hs q'. take_buffered s = (s', Ret (v, hs)) \<and>
    a_take (abs_chan s) = Some (q', v, hs) \<and> follows s s' q' []"
proof -
  note ring = chan_inv_ring [OF inv]
  obtain v vs where it: "items (chan s) = v # vs"
    using ne by (cases "items (chan s)") (auto simp: isEmpty_def)
  have rs: "ch_receivers (chan s) = []" using inv ne by (auto simp: chan_inv_defs Let_def)
  from pop_value_ok [OF ring it] obtain c where
    pop: "pop_value s = (s\<lparr>chan := c\<rparr>, Ret v)" and c: "ring_inv c" "items c = vs" "chan_frame (chan s) c"
    by blast
  show ?thesis
  proof (cases "ch_senders (chan s)")
    case Nil
    have "take_buffered s = (s\<lparr>chan := c\<rparr>, Ret (v, []))"
      using Nil c(3) by (simp add: take_buffered_def pop refill_def chan_frame_def)
    moreover have "follows s (s\<lparr>chan := c\<rparr>) (abs_chan s\<lparr>a_items := vs\<rparr>) []"
      using inv rs Nil c by (simp add: follows_def chan_inv_defs abs_chan_def chan_frame_def Let_def)
    moreover have "a_take (abs_chan s) = Some (abs_chan s\<lparr>a_items := vs\<rparr>, v, [])"
      using it Nil by (simp add: a_take_def abs_chan_def)
    ultimately show ?thesis by blast
  next
    case (Cons p ps)
    obtain ph pa where p: "ch_senders (chan s) = (ph, pa) # ps" using Cons by (cases p) auto
    from first_sender [OF inv p] obtain pv where pv: "held s pa = Some pv"
      and mv: "\<And>c. move_sender_value pa (s\<lparr>chan := c\<lparr>ch_senders := ps\<rparr>\<rparr>) = (unparked c ps pa s, Ret pv)"
      by metis
    have full: "isFull (chan s)" using inv p by (auto simp: chan_inv_defs Let_def)
    let ?u = "unparked c ps pa s"
    have u: "chan ?u = c\<lparr>ch_senders := ps\<rparr>" by (simp add: unparked_def)
    have nf: "\<not> isFull (chan ?u)" and ru: "ring_inv (chan ?u)"
      using full it c ring by (simp_all add: u not_full_items isFull_items chan_frame_def)
    from push_value_ok [OF ru nf, of pv] obtain d where
      d: "push_value pv ?u = (?u\<lparr>chan := d\<rparr>, Ret ())" "ring_inv d" "items d = vs @ [pv]"
        "chan_frame (c\<lparr>ch_senders := ps\<rparr>) d"
      using c(2) by (auto simp: u)
    have eq: "?u\<lparr>chan := d\<rparr> = unparked (d\<lparr>ch_senders := ch_senders (chan s)\<rparr>\<lparr>ch_senders := x\<rparr>) ps pa s" for x
      using d(4) by (cases d) (simp add: unparked_def chan_frame_def)
    have "take_buffered s = (?u\<lparr>chan := d\<rparr>, Ret (v, [ph]))"
      using p c(3) mv [of c] d(1)
      by (simp add: take_buffered_def pop refill_def chan_frame_def on_chan_def)
    moreover have "follows s (?u\<lparr>chan := d\<rparr>)
       (abs_chan s\<lparr>a_items := vs @ [pv], a_parked := tl (a_parked (abs_chan s))\<rparr>) []"
      using unparked_follows [OF inv p, of "d\<lparr>ch_senders := ch_senders (chan s)\<rparr>" ps] c d full it
      by (simp add: eq [of ps] chan_frame_def isFull_items ring)
    moreover have "a_take (abs_chan s) = Some (abs_chan s\<lparr>a_items := vs @ [pv],
        a_parked := tl (a_parked (abs_chan s))\<rparr>, v, [ph])"
      using p it pv by (simp add: a_take_def abs_chan_def)
    ultimately show ?thesis by blast
  qed
qed

end
