(* ===== verification/Channel_Refine.thy ===== *)
theory Channel_Refine
  imports Channel_Spec
begin

text \<open>
  The methods of the channel refine the abstract channel of \<open>Channel_Spec\<close>: from a state
  that satisfies \<open>chan_inv\<close>, each critical section returns (no undefined behaviour), keeps
  the invariant, changes the abstract channel as the abstract operation says, wakes exactly
  the coroutines it names and hands each value to the awaiter it names.
\<close>

lemma stats_follows: "chan_inv s \<Longrightarrow> follows s (on_chan (stats_add f) s) (abs_chan s) []"
  by (simp add: follows_def chan_inv_defs abs_chan_def Let_def)

subsection \<open>Sending\<close>

lemma closed_sender_follows:
  assumes inv: "chan_inv s" and cl: "ch_close (chan s)"
  shows "chan_inv (on_chan add_closed_failures (s\<lparr>sas := t\<rparr>))"
    and "abs_chan (on_chan add_closed_failures (s\<lparr>sas := t\<rparr>)) = abs_chan s"
proof -
  have "ch_senders (chan s) = []" using inv cl by (auto simp: chan_inv_defs Let_def)
  with inv show "chan_inv (on_chan add_closed_failures (s\<lparr>sas := t\<rparr>))"
    "abs_chan (on_chan add_closed_failures (s\<lparr>sas := t\<rparr>)) = abs_chan s"
    by (simp_all add: chan_inv_defs abs_chan_def Let_def)
qed

lemma sender_parks:
  assumes inv: "chan_inv s" and op: "\<not> ch_close (chan s)" and full: "isFull (chan s)"
    and rs: "ch_receivers (chan s) = []"
    and sa: "sas s this = Some \<lparr>sa_value = Holds v, sa_close = False\<rparr>"
    and fresh: "this \<notin> snd ` set (ch_senders (chan s))"
  shows "follows s (on_chan (\<lambda>c. add_sender_waits (c\<lparr>ch_senders := ch_senders c @ [(h, this)]\<rparr>)) s)
    (abs_chan s\<lparr>a_parked := a_parked (abs_chan s) @ [(h, this, v)]\<rparr>) []"
proof -
  have "sender_ok s this" "held s this = Some v" using sa by (simp_all add: sender_ok_def held_def)
  then show ?thesis using inv op full rs fresh
    by (auto simp: follows_def chan_inv_defs abs_chan_def Let_def)
qed

lemma not_full_abs: "chan_inv s \<Longrightarrow> length (a_items (abs_chan s)) < a_cap (abs_chan s) \<longleftrightarrow> \<not> isFull (chan s)"
  by (simp add: abs_chan_def not_full_items [OF chan_inv_ring] del: length_items)

lemma abs_sel [simp]:
  "a_closed (abs_chan s) = ch_close (chan s)" "a_waiting (abs_chan s) = ch_receivers (chan s)"
  by (simp_all add: abs_chan_def)

text \<open>
  What a suspending sender promises: the abstract send, and an exception at its resumption
  exactly when it found the channel closed.
\<close>

lemma sender_suspend_follows:
  assumes inv: "chan_inv s" and sa: "sas s this = Some \<lparr>sa_value = Holds v, sa_close = False\<rparr>"
    and fresh: "this \<notin> snd ` set (ch_senders (chan s))"
    and ans: "a_send h this v (abs_chan s) = (q, vd, hs, ds)"
  shows "\<exists>s'. sender_suspend_locked h this s = (s', Ret (vd = Suspends, hs)) \<and>
    chan_inv s' \<and> abs_chan s' = q \<and> ras s' = delivered ds (ras s) \<and>
    (\<forall>a. map_option sa_close (sas s' a) =
       (if a = this then Some (vd = Closed) else map_option sa_close (sas s a)))"
proof (cases "ch_close (chan s)")
  case True
  with ans have "q = abs_chan s" "vd = Closed" "hs = []" "ds = []"
    by (simp_all add: a_send_def a_offer_def)
  with True sa closed_sender_follows [OF inv True] show ?thesis
    by (simp add: sender_suspend_locked_def)
next
  case opn: False
  let ?m = "s\<lparr>sas := (sas s)(this \<mapsto> \<lparr>sa_value = MovedFrom, sa_close = False\<rparr>)\<rparr>"
  have m: "follows s ?m (abs_chan s) []" by (rule sender_moved [OF inv sa fresh])
  then have mi: "chan_inv ?m" and ma: "abs_chan ?m = abs_chan s" by (simp_all add: follows_def)
  have mv: "move_sender_value this s = (?m, Ret v)" by (rule move_sender_value_held [OF sa])
  show ?thesis
  proof (cases "ch_receivers (chan s)")
    case (Cons r rs)
    obtain rh ra where r: "ch_receivers (chan s) = (rh, ra) # rs" using Cons by (cases r) auto
    then have "ch_receivers (chan ?m) = (rh, ra) # rs" by simp
    from give_receiver_ok [OF mi this, of v] obtain s' where
      g: "give_receiver rh ra rs v ?m = (s', Ret rh)"
        "follows ?m s' (abs_chan s\<lparr>a_waiting := rs\<rparr>) [(ra, v)]" unfolding ma by blast
    from follows_trans [OF m g(2)] ans r opn g(1) sa mv show ?thesis
      by (auto simp: sender_suspend_locked_def a_send_def a_offer_def follows_def)
  next
    case rs: Nil
    show ?thesis
    proof (cases "isFull (chan s)")
      case False
      with rs have "ch_receivers (chan ?m) = []" "\<not> isFull (chan ?m)" by simp_all
      from push_value_follows [OF mi this, of v] obtain s' where
        p: "push_value v ?m = (s', Ret ())"
          "follows ?m s' (abs_chan s\<lparr>a_items := a_items (abs_chan s) @ [v]\<rparr>) []"
        unfolding ma by blast
      from follows_trans [OF m p(2)] ans rs opn False p(1) sa mv show ?thesis
        by (auto simp: sender_suspend_locked_def a_send_def a_offer_def follows_def
            not_full_abs [OF inv])
    next
      case True
      from sender_parks [OF inv opn True rs sa fresh, of h] ans rs opn True sa show ?thesis
        by (auto simp: sender_suspend_locked_def a_send_def a_offer_def follows_def
            not_full_abs [OF inv])
    qed
  qed
qed

lemma try_send_follows:
  assumes inv: "chan_inv s" and ans: "a_offer v (abs_chan s) = (q, vd, hs, ds)"
  shows "\<exists>s'. try_send_locked v s =
      (s', if vd = Closed then Throw closed_exn else Ret (vd = Done, hs)) \<and> follows s s' q ds"
proof (cases "ch_close (chan s)")
  case True
  with stats_follows [OF inv] ans show ?thesis
    by (auto simp: try_send_locked_def a_offer_def)
next
  case opn: False
  show ?thesis
  proof (cases "ch_receivers (chan s)")
    case (Cons r rs)
    obtain rh ra where r: "ch_receivers (chan s) = (rh, ra) # rs" using Cons by (cases r) auto
    from give_receiver_ok [OF inv r, of v] ans r opn show ?thesis
      by (auto simp: try_send_locked_def a_offer_def)
  next
    case rs: Nil
    show ?thesis
    proof (cases "isFull (chan s)")
      case False
      from push_value_follows [OF inv rs False, of v] ans rs opn False show ?thesis
        by (auto simp: try_send_locked_def a_offer_def not_full_abs [OF inv])
    next
      case True
      with stats_follows [OF inv] ans rs opn show ?thesis
        by (auto simp: try_send_locked_def a_offer_def not_full_abs [OF inv])
    qed
  qed
qed

subsection \<open>Receiving\<close>

lemma a_take_None:
  "chan_inv s \<Longrightarrow> a_take (abs_chan s) = None \<longleftrightarrow> isEmpty (chan s) \<and> ch_senders (chan s) = []"
  using items_Nil_iff [of "chan s"]
  by (auto simp: a_take_def abs_chan_def isEmpty_def split: list.splits simp del: items_Nil_iff)

lemma delivered_receiver:
  assumes fw: "follows s s1 q []" and ra: "ras s this = Some ra"
    and fresh: "this \<notin> snd ` set (ch_receivers (chan s1))"
  shows "\<exists>s2. deliver this v s1 = (s2, Ret ()) \<and> follows s s2 q [(this, v)]"
proof -
  let ?s = "s1\<lparr>ras := (ras s1)(this \<mapsto> \<lparr>ra_value = Some v\<rparr>)\<rparr>"
  have "ras s1 this = Some ra" using fw ra by (simp add: follows_def)
  then have d: "deliver this v s1 = (?s, Ret ())" by (rule deliver_ok)
  from ras_frame [OF follows_inv [OF fw] fresh] fw have "follows s ?s q [(this, v)]"
    by (simp add: follows_def)
  with d show ?thesis by blast
qed

lemma take_keeps_waiting: "a_take q = Some (q', v, hs) \<Longrightarrow> a_waiting q' = a_waiting q"
  by (auto simp: a_take_def split: list.splits)

lemma take_follows:
  assumes inv: "chan_inv s" and ne: "\<not> isEmpty (chan s) \<or> ch_senders (chan s) \<noteq> []"
  shows "\<exists>s' v hs q'. (if isEmpty (chan s) then take_handoff s else take_buffered s) = (s', Ret (v, hs)) \<and>
    a_take (abs_chan s) = Some (q', v, hs) \<and> follows s s' q' []"
  using take_handoff_ok [OF inv] take_buffered_ok [OF inv] ne by (cases "isEmpty (chan s)") simp_all

lemma receiver_suspend_follows:
  assumes inv: "chan_inv s" and ra: "ras s this = Some \<lparr>ra_value = None\<rparr>"
    and fresh: "this \<notin> snd ` set (ch_receivers (chan s))"
    and ans: "a_receive h this (abs_chan s) = (q, vd, hs, ds)"
  shows "\<exists>s'. receiver_suspend_locked h this s = (s', Ret (vd = Suspends, hs)) \<and> follows s s' q ds"
proof (cases "isEmpty (chan s) \<and> ch_senders (chan s) = []")
  case False
  then have "\<not> isEmpty (chan s) \<or> ch_senders (chan s) \<noteq> []" by blast
  from take_follows [OF inv this] obtain s1 v ws q' where
    t: "(if isEmpty (chan s) then take_handoff s else take_buffered s) = (s1, Ret (v, ws))"
      "a_take (abs_chan s) = Some (q', v, ws)" "follows s s1 q' []" by blast
  have "ch_receivers (chan s1) = ch_receivers (chan s)"
    using take_keeps_waiting [OF t(2)] t(3) by (metis abs_sel(2) follows_def)
  with delivered_receiver [OF t(3) ra, of v] fresh obtain s2 where
    d: "deliver this v s1 = (s2, Ret ())" "follows s s2 q' [(this, v)]" by auto
  have a: "q = q'" "vd = Done" "hs = ws" "ds = [(this, v)]"
    using ans t(2) by (simp_all add: a_receive_def)
  have "\<not> ch_close (chan s)" if "isEmpty (chan s)"
    using False that inv by (auto simp: chan_inv_defs Let_def)
  with False t(1) d a ra show ?thesis
    by (cases "isEmpty (chan s)") (auto simp: receiver_suspend_locked_def)
next
  case True
  then have none: "a_take (abs_chan s) = None" by (simp add: a_take_None [OF inv])
  have keep: "s\<lparr>ras := (ras s)(this \<mapsto> \<lparr>ra_value = None\<rparr>)\<rparr> = s"
    using ra by (cases s) (auto simp: fun_upd_idem)
  show ?thesis
  proof (cases "ch_close (chan s)")
    case cl: True
    with none ans True ra keep stats_follows [OF inv] show ?thesis
      by (auto simp: receiver_suspend_locked_def a_receive_def)
  next
    case False
    let ?s = "on_chan (\<lambda>c. add_receiver_waits (c\<lparr>ch_receivers := ch_receivers c @ [(h, this)]\<rparr>)) s"
    have "receiver_ok s this" using ra by (simp add: receiver_ok_def)
    with inv fresh False True
    have "follows s ?s (abs_chan s\<lparr>a_waiting := a_waiting (abs_chan s) @ [(h, this)]\<rparr>) []"
      by (auto simp: follows_def chan_inv_defs abs_chan_def Let_def)
    with none ans True False ra show ?thesis
      by (auto simp: receiver_suspend_locked_def a_receive_def)
  qed
qed

text \<open>The non-blocking receive: empty and closed is an exception, empty and open is no value.\<close>

lemma try_receive_follows:
  assumes inv: "chan_inv s"
  shows "\<exists>s'. try_receive_locked s =
      (s', case a_take (abs_chan s) of
             Some (q', v, hs) \<Rightarrow> Ret (Some v, hs)
           | None \<Rightarrow> if ch_close (chan s) then Throw closed_exn else Ret (None, [])) \<and>
    follows s s' (case a_take (abs_chan s) of Some (q', v, hs) \<Rightarrow> q' | None \<Rightarrow> abs_chan s) []"
proof (cases "isEmpty (chan s) \<and> ch_senders (chan s) = []")
  case False
  then have "\<not> isEmpty (chan s) \<or> ch_senders (chan s) \<noteq> []" by blast
  from take_follows [OF inv this] False show ?thesis
    by (auto simp: try_receive_locked_def)
next
  case True
  then have "a_take (abs_chan s) = None" by (simp add: a_take_None [OF inv])
  with True stats_follows [OF inv] show ?thesis
    by (auto simp: try_receive_locked_def)
qed

subsection \<open>Batches\<close>

lemma send_loop_follows:
  assumes "chan_inv s" and "\<not> ch_close (chan s)"
    and "a_offer_many vs (abs_chan s) = (q, n, ws, ds)"
  shows "\<exists>s'. send_loop vs sent hs s = (s', Ret (sent + of_nat n, hs @ ws)) \<and> follows s s' q ds"
  using assms
proof (induction vs arbitrary: s sent hs q n ws ds)
  case Nil
  then show ?case by (auto intro: follows_refl)
next
  case (Cons v vs)
  show ?case
  proof (cases "ch_receivers (chan s) = [] \<and> isFull (chan s)")
    case True
    with Cons.prems stats_follows [OF Cons.prems(1)] show ?thesis
      by (auto simp: a_offer_def not_full_abs)
  next
    case False
    obtain q1 ws1 ds1 where o: "a_offer v (abs_chan s) = (q1, Done, ws1, ds1)"
      using Cons.prems False by (auto simp: a_offer_def not_full_abs split: list.splits)
    obtain q2 m ws2 ds2 where r: "a_offer_many vs q1 = (q2, m, ws2, ds2)"
      by (cases "a_offer_many vs q1") auto
    from o r Cons.prems(3) have eqs: "q = q2" "n = Suc m" "ws = ws1 @ ws2" "ds = ds1 @ ds2" by auto
    from try_send_follows [OF Cons.prems(1) o] obtain s1 where
      s1: "try_send_locked v s = (s1, Ret (True, ws1))" "follows s s1 q1 ds1" by auto
    have "\<not> a_closed q1"
      using o Cons.prems by (auto simp: a_offer_def split: list.splits if_splits)
    then have "\<not> ch_close (chan s1)" using follows_abs [OF s1(2)] by (metis abs_sel(1))
    from Cons.IH [OF follows_inv [OF s1(2)] this, of q2 m ws2 ds2 "sent + 1" "hs @ ws1"] r
    obtain s2 where s2: "send_loop vs (sent + 1) (hs @ ws1) s1 =
        (s2, Ret (sent + 1 + of_nat m, hs @ ws1 @ ws2))" "follows s1 s2 q2 ds2"
      using follows_abs [OF s1(2)] by auto
    have "send_loop (v # vs) sent hs s = send_loop vs (sent + 1) (hs @ ws1) s1"
      using s1(1) Cons.prems(2) False
      by (auto simp: try_send_locked_def bind_res_Ret_iff split: list.splits prod.splits res.splits)
    with s2 follows_append [OF s1(2) s2(2)] eqs show ?thesis by (auto simp: add.assoc)
  qed
qed

lemma receive_loop_follows:
  assumes "chan_inv s" and "a_take_many (unat max_items - length vals) (abs_chan s) = (q, vs, ws)"
  shows "\<exists>s'. receive_loop max_items vals hs s = (s', Ret (vals @ vs, hs @ ws)) \<and> follows s s' q []"
  using assms
proof (induction "unat max_items - length vals" arbitrary: s vals hs q vs ws)
  case 0
  from 0(1) [symmetric] 0(2,3) show ?case
    by (subst receive_loop.simps) (auto intro: follows_refl)
next
  case (Suc k)
  then have len: "length vals < unat max_items" by simp
  show ?case
  proof (cases "isEmpty (chan s) \<and> ch_senders (chan s) = []")
    case True
    then have "a_take (abs_chan s) = None" by (simp add: a_take_None [OF Suc.prems(1)])
    with Suc.prems Suc.hyps(2) [symmetric] True len show ?thesis
      by (subst receive_loop.simps) (auto intro: follows_refl)
  next
    case False
    then have "\<not> isEmpty (chan s) \<or> ch_senders (chan s) \<noteq> []" by blast
    from take_follows [OF Suc.prems(1) this] obtain s1 v ws1 q1 where
      t: "(if isEmpty (chan s) then take_handoff s else take_buffered s) = (s1, Ret (v, ws1))"
        "a_take (abs_chan s) = Some (q1, v, ws1)" "follows s s1 q1 []" by blast
    obtain q2 vs2 ws2 where r: "a_take_many k q1 = (q2, vs2, ws2)"
      by (cases "a_take_many k q1") auto
    have k: "k = unat max_items - length (vals @ [v])" using Suc.hyps(2) by simp
    have eqs: "q = q2" "vs = v # vs2" "ws = ws1 @ ws2"
      using Suc.prems(2) Suc.hyps(2) [symmetric] t(2) r by auto
    from Suc.hyps(1) [OF k follows_inv [OF t(3)], of q2 vs2 ws2 "hs @ ws1"] r
    obtain s2 where s2: "receive_loop max_items (vals @ [v]) (hs @ ws1) s1 =
        (s2, Ret ((vals @ [v]) @ vs2, (hs @ ws1) @ ws2))" "follows s1 s2 q2 []"
      by (auto simp: k follows_abs [OF t(3)])
    have "receive_loop max_items vals hs s = receive_loop max_items (vals @ [v]) (hs @ ws1) s1"
      using t(1) False len by (subst receive_loop.simps) (auto split: if_splits)
    with s2 follows_trans [OF t(3) s2(2)] eqs show ?thesis by auto
  qed
qed

subsection \<open>Closed forms of the batches\<close>

text \<open>Well-formed abstract channels: what \<open>chan_inv\<close> means for them.\<close>

definition a_inv :: "'a achan \<Rightarrow> bool" where
  "a_inv q \<longleftrightarrow>
     length (a_items q) \<le> a_cap q \<and>
     (a_parked q \<noteq> [] \<longrightarrow> length (a_items q) = a_cap q \<and> \<not> a_closed q \<and> a_waiting q = []) \<and>
     (a_waiting q \<noteq> [] \<longrightarrow> a_items q = [] \<and> \<not> a_closed q)"

lemma abs_inv: "chan_inv s \<Longrightarrow> a_inv (abs_chan s)"
  using ring.bounded [of "chan s"]
  by (auto simp: a_inv_def abs_chan_def chan_inv_defs Let_def isFull_def)

lemma a_take_pending:
  assumes "a_inv q"
  shows "a_take q = (case pending q of
      [] \<Rightarrow> None
    | v # vs \<Rightarrow> Some (q\<lparr>a_items := take (length (a_items q)) vs, a_parked := tl (a_parked q)\<rparr>, v,
                    map fst (take 1 (a_parked q))))"
proof (cases "a_items q")
  case Nil
  then show ?thesis
    by (cases q; cases "a_parked q") (auto simp: a_take_def pending_def split: prod.splits)
next
  case (Cons v vs)
  then show ?thesis
    by (cases q; cases "a_parked q") (auto simp: a_take_def pending_def split: prod.splits)
qed

lemma a_take_inv: "a_inv q \<Longrightarrow> a_take q = Some (q', v, hs) \<Longrightarrow> a_inv q'"
  by (auto simp: a_take_def a_inv_def split: list.splits)

lemma a_take_Some:
  assumes "a_inv q" and "a_take q = Some (q', v, hs)"
  shows "pending q = v # pending q'" and "a_parked q' = tl (a_parked q)"
    and "hs = map fst (take 1 (a_parked q))"
    and "a_waiting q' = a_waiting q" "a_closed q' = a_closed q" "a_cap q' = a_cap q"
  using assms by (auto simp: a_take_def pending_def split: list.splits)

text \<open>
  A batch of \<open>n\<close> takes returns the \<open>n\<close> oldest values and lets in, and wakes, the first
  \<open>n\<close> parked senders.
\<close>

lemma a_take_many_closed:
  assumes "a_inv q" and "a_take_many n q = (q', vs, hs)"
  shows "vs = take n (pending q) \<and> pending q' = drop n (pending q) \<and>
    a_parked q' = drop n (a_parked q) \<and> hs = map fst (take n (a_parked q)) \<and>
    a_waiting q' = a_waiting q \<and> a_closed q' = a_closed q"
  using assms
proof (induction n arbitrary: q q' vs hs)
  case (Suc n)
  show ?case
  proof (cases "a_take q")
    case None
    then have "pending q = []" by (auto simp: a_take_def pending_def split: list.splits)
    with None Suc.prems show ?thesis by (auto simp: pending_def)
  next
    case (Some p)
    obtain q1 v hs1 where p: "a_take q = Some (q1, v, hs1)" using Some by (cases p) auto
    obtain q2 vs2 hs2 where r: "a_take_many n q1 = (q2, vs2, hs2)" by (cases "a_take_many n q1") auto
    note IH = Suc.IH [OF a_take_inv [OF Suc.prems(1) p] r]
    note first = a_take_Some [OF Suc.prems(1) p]
    have "q' = q2" "vs = v # vs2" "hs = hs1 @ hs2" using Suc.prems(2) p r by auto
    with IH first show ?thesis by (cases "a_parked q") (simp_all)
  qed
qed simp

text \<open>
  A batch of offers serves the waiting receivers in order, then fills the buffer, and
  accepts exactly as many values as there is room for.
\<close>

lemma a_offer_many_closed:
  assumes "a_inv q" and "\<not> a_closed q"
  defines "k \<equiv> length (a_waiting q)" and "room \<equiv> a_cap q - length (a_items q)"
  shows "a_offer_many vs q =
    (q\<lparr>a_waiting := drop (length vs) (a_waiting q), a_items := a_items q @ take room (drop k vs)\<rparr>,
     min (length vs) (k + room),
     map fst (take (length vs) (a_waiting q)),
     zip (map snd (a_waiting q)) (take k vs))"
  using assms(1,2) unfolding k_def room_def
proof (induction vs arbitrary: q)
  case (Cons v vs)
  consider r ws where "a_waiting q = r # ws"
    | "a_waiting q = []" "length (a_items q) < a_cap q"
    | "a_waiting q = []" "length (a_items q) = a_cap q"
    using Cons.prems(1) unfolding a_inv_def by (metis le_neq_implies_less neq_Nil_conv)
  then show ?case
  proof cases
    case 1
    obtain rh ra where r: "r = (rh, ra)" by (cases r)
    have "a_inv (q\<lparr>a_waiting := ws\<rparr>)" using Cons.prems 1 by (auto simp: a_inv_def)
    from Cons.IH [OF this] Cons.prems 1 r show ?thesis by (simp add: a_offer_def)
  next
    case 2
    have "a_inv (q\<lparr>a_items := a_items q @ [v]\<rparr>)" using Cons.prems 2 by (auto simp: a_inv_def)
    from Cons.IH [OF this] Cons.prems 2 show ?thesis
      by (cases q) (auto simp: a_offer_def Suc_diff_Suc take_Cons' min_def)
  next
    case 3
    then show ?thesis using Cons.prems by (simp add: a_offer_def)
  qed
qed simp

subsection \<open>Closing\<close>

definition mark_closed ::
  "addr set \<Rightarrow> (addr \<rightharpoonup> 'a sender_awaiter) \<Rightarrow> (addr \<rightharpoonup> 'a sender_awaiter)" where
  "mark_closed A t a = (if a \<in> A then map_option (sa_close_update (\<lambda>_. True)) (t a) else t a)"

lemma mark_closed_simps [simp]:
  "mark_closed {} t = t" "mark_closed A (mark_closed B t) = mark_closed (A \<union> B) t"
  by (auto simp: mark_closed_def fun_eq_iff option.map_comp intro!: option.map_cong0)

lemma mark_closed_one: "t a = Some sa \<Longrightarrow> t(a \<mapsto> sa\<lparr>sa_close := True\<rparr>) = mark_closed {a} t"
  by (auto simp: mark_closed_def fun_eq_iff)

lemma close_senders_loop_ok:
  assumes "\<forall>(h, a) \<in> set ps. sas s a \<noteq> None"
  shows "close_senders_loop ps hs s =
    (s\<lparr>chan := (chan s)\<lparr>ch_senders := (if ps = [] then ch_senders (chan s) else [])\<rparr>,
       sas := mark_closed (snd ` set ps) (sas s)\<rparr>,
     Ret (hs @ map fst ps))"
  using assms
proof (induction ps arbitrary: s hs)
  case Nil
  then show ?case by simp
next
  case (Cons p ps)
  obtain h a where p: "p = (h, a)" by (cases p)
  obtain sa where sa: "sas s a = Some sa" using Cons.prems(1) p by auto
  let ?s = "on_chan (\<lambda>c. c\<lparr>ch_senders := ps\<rparr>) (s\<lparr>sas := mark_closed {a} (sas s)\<rparr>)"
  have "\<forall>(h, b) \<in> set ps. sas ?s b \<noteq> None"
    using Cons.prems by (auto simp: mark_closed_def)
  from Cons.IH [OF this, of "hs @ [h]"]
  have "close_senders_loop (p # ps) hs s =
    (?s\<lparr>chan := (chan ?s)\<lparr>ch_senders := (if ps = [] then ch_senders (chan ?s) else [])\<rparr>,
       sas := mark_closed (snd ` set ps) (sas ?s)\<rparr>, Ret ((hs @ [h]) @ map fst ps))"
    using sa p by (simp add: mark_closed_one)
  then show ?case using p by (simp add: on_chan_def)
qed

lemma close_receivers_loop_ok:
  "close_receivers_loop rs hs s =
    (s\<lparr>chan := (chan s)\<lparr>ch_receivers := (if rs = [] then ch_receivers (chan s) else [])\<rparr>\<rparr>,
     hs @ map fst rs)"
  by (induction rs arbitrary: hs s) (auto simp: on_chan_def)

lemma close_follows:
  assumes inv: "chan_inv s" and opn: "\<not> ch_close (chan s)"
  shows "\<exists>s'. close_locked s = (s', Ret ((), snd (a_close (abs_chan s)))) \<and>
    chan_inv s' \<and> abs_chan s' = fst (a_close (abs_chan s)) \<and> ras s' = ras s \<and>
    (\<forall>a. map_option sa_close (sas s' a) =
       (if a \<in> snd ` set (ch_senders (chan s)) then Some True else map_option sa_close (sas s a)))"
proof -
  let ?c = "stats_add (close_calls_update (\<lambda>n. n + 1)) ((chan s)\<lparr>ch_close := True\<rparr>)"
  have c: "ch_senders ?c = ch_senders (chan s)" "ch_receivers ?c = ch_receivers (chan s)" by simp_all
  let ?t = "mark_closed (snd ` set (ch_senders (chan s))) (sas s)"
  have ok: "\<forall>(h, a) \<in> set (ch_senders (chan s)). sas s a \<noteq> None"
    using inv by (auto simp: chan_inv_defs list_all_iff sender_ok_def split: option.splits)
  have loop: "close_senders_loop (ch_senders (chan s)) [] (s\<lparr>chan := ?c\<rparr>) =
      (s\<lparr>chan := ?c\<lparr>ch_senders := []\<rparr>, sas := ?t\<rparr>, Ret (map fst (ch_senders (chan s))))"
    using ok by (subst close_senders_loop_ok) auto
  let ?n = "of_nat (length (ch_receivers (chan s))) :: uint64"
  let ?m = "of_nat (length (ch_senders (chan s))) :: uint64"
  let ?d = "stats_add (close_wake_receivers_update (\<lambda>n. n + ?n))
    (stats_add (close_wake_senders_update (\<lambda>n. n + ?m)) (?c\<lparr>ch_senders := [], ch_receivers := []\<rparr>))"
  have eq: "(if ch_receivers (chan s) = [] then ch_receivers (chan s) else []) = []" by simp
  have "close_locked s = (s\<lparr>chan := ?d, sas := ?t\<rparr>,
      Ret ((), map fst (ch_senders (chan s)) @ map fst (ch_receivers (chan s))))"
    using opn loop by (simp add: close_locked_def on_chan_def close_receivers_loop_ok Let_def eq)
  moreover have "\<forall>a. map_option sa_close (?t a) =
       (if a \<in> snd ` set (ch_senders (chan s)) then Some True else map_option sa_close (sas s a))"
    using ok by (force simp: mark_closed_def option.map_comp comp_def split: option.splits)
  moreover have "chan_inv (s\<lparr>chan := ?d, sas := ?t\<rparr>)"
    using inv by (simp add: chan_inv_defs Let_def)
  ultimately show ?thesis
    by (auto simp: a_close_def abs_chan_def case_prod_beta comp_def)
qed

end
