(* ===== verification/Step_System.thy ===== *)
theory Step_System
  imports Prelude
begin

text \<open>
  Reachability in a transition system, and the interface every state machine of the
  development satisfies: an invariant that holds initially and that every step keeps.
  The concurrent parts of the library (threads that interleave at their lock operations)
  are step relations interpreted here.
\<close>

inductive reach :: "('s \<Rightarrow> bool) \<Rightarrow> ('s \<Rightarrow> 's \<Rightarrow> bool) \<Rightarrow> 's \<Rightarrow> bool"
  for init :: "'s \<Rightarrow> bool" and step :: "'s \<Rightarrow> 's \<Rightarrow> bool" where
  reach_init: "init s \<Longrightarrow> reach init step s"
| reach_step: "reach init step s \<Longrightarrow> step s t \<Longrightarrow> reach init step t"

inductive steps :: "('s \<Rightarrow> 's \<Rightarrow> bool) \<Rightarrow> 's \<Rightarrow> 's \<Rightarrow> bool"
  for step :: "'s \<Rightarrow> 's \<Rightarrow> bool" where
  steps_refl: "steps step s s"
| steps_more: "step s t \<Longrightarrow> steps step t u \<Longrightarrow> steps step s u"

lemma reach_steps: "steps step s t \<Longrightarrow> reach init step s \<Longrightarrow> reach init step t"
  by (induction rule: steps.induct) (auto intro: reach_step)

lemma steps_trans: "steps step s t \<Longrightarrow> steps step t u \<Longrightarrow> steps step s u"
  by (induction rule: steps.induct) (auto intro: steps_more)

text \<open>Where no execution is infinite, a state in which none can go on is reached.\<close>

lemma reach_stuck:
  assumes start: "\<exists>s. init s"
    and finite: "\<And>run. reach init step (run 0) \<Longrightarrow> \<exists>i. \<not> step (run i) (run (Suc i))"
  shows "\<exists>s. reach init step s \<and> (\<forall>t. \<not> step s t)"
proof (rule ccontr)
  assume "\<not> ?thesis"
  then have go: "\<exists>t. reach init step t \<and> step s t" if "reach init step s" for s
    using that by (blast intro: reach_step)
  have "\<exists>run. \<forall>i. reach init step (run i) \<and> step (run i) (run (Suc i))"
    by (rule dependent_nat_choice) (use start go in \<open>auto intro: reach_init\<close>)
  with finite show False by blast
qed

locale invariant_system =
  fixes init :: "'s \<Rightarrow> bool"
    and step :: "'s \<Rightarrow> 's \<Rightarrow> bool"
    and inv :: "'s \<Rightarrow> bool"
  assumes inv_init: "init s \<Longrightarrow> inv s"
    and inv_step: "inv s \<Longrightarrow> step s t \<Longrightarrow> inv t"
begin

lemma reach_inv: "reach init step s \<Longrightarrow> inv s"
  by (induction rule: reach.induct) (auto intro: inv_init inv_step)

lemma steps_inv: "steps step s t \<Longrightarrow> inv s \<Longrightarrow> inv t"
  by (induction rule: steps.induct) (auto intro: inv_step)

end

end
