(* ===== verification/Channel_Machine.thy ===== *)
theory Channel_Machine
  imports Channel_Refine Step_System
begin

text \<open>
  A channel under arbitrary use. Threads interleave at the channel's mutex, so an execution
  is a sequence of critical sections in any order; between them awaiter objects are created
  by \<open>send\<close> and \<open>receive\<close> and die with their coroutine's frame. The machine records the
  values accepted from senders, the values handed to receivers and the values that close
  turned away, and its invariant gives the first-in-first-out law of the channel.
\<close>

subsection \<open>Calls\<close>

datatype 'a call =
    CallSend addr 'a
  | SenderSuspend handle addr
  | TrySend 'a
  | TrySendMany "'a list"
  | CallReceive addr
  | ReceiverSuspend handle addr
  | TryReceive
  | TryReceiveMany size_t size_t
  | Close
  | ResetStats
  | DropSender addr
  | DropReceiver addr

datatype 'a outcome =
    Unit
  | Suspend bool
  | Tried bool
  | Count size_t
  | Got "'a option"
  | GotMany "'a list"

definition returning :: "('b \<Rightarrow> 'a outcome) \<Rightarrow> 's \<times> ('b \<times> handle list) res \<Rightarrow> 's \<times> ('a outcome \<times> handle list) res" where
  "returning f p = bind_res p (\<lambda>s (b, hs). (s, Ret (f b, hs)))"

fun exec :: "'a call \<Rightarrow> 'a chan_state \<Rightarrow> 'a chan_state \<times> ('a outcome \<times> handle list) res" where
  "exec (CallSend a v) s =
     bind_res (send v s) (\<lambda>s' sa. (s'\<lparr>sas := (sas s')(a \<mapsto> sa)\<rparr>, Ret (Unit, [])))"
| "exec (SenderSuspend h a) s = returning Suspend (sender_suspend_locked h a s)"
| "exec (TrySend v) s = returning Tried (try_send_locked v s)"
| "exec (TrySendMany vs) s = returning Count (try_send_many_locked vs s)"
| "exec (CallReceive a) s = (s\<lparr>ras := (ras s)(a \<mapsto> receive)\<rparr>, Ret (Unit, []))"
| "exec (ReceiverSuspend h a) s = returning Suspend (receiver_suspend_locked h a s)"
| "exec TryReceive s = returning Got (try_receive_locked s)"
| "exec (TryReceiveMany max_size n) s = returning GotMany (try_receive_many_locked max_size n s)"
| "exec Close s = returning (\<lambda>_. Unit) (close_locked s)"
| "exec ResetStats s = (on_chan reset_stats s, Ret (Unit, []))"
| "exec (DropSender a) s = (s\<lparr>sas := (sas s)(a := None)\<rparr>, Ret (Unit, []))"
| "exec (DropReceiver a) s = (s\<lparr>ras := (ras s)(a := None)\<rparr>, Ret (Unit, []))"

text \<open>
  What the language guarantees of a caller: an awaiter is built at an unused address, a
  fresh one is awaited once, and it outlives its stay in a queue of the channel because the
  frame of a suspended coroutine does. The size of a vector is a \<open>size_t\<close>.
\<close>

definition parked_sender :: "addr \<Rightarrow> 'a chan_state \<Rightarrow> bool" where
  "parked_sender a s \<longleftrightarrow> a \<in> snd ` set (ch_senders (chan s))"

definition parked_receiver :: "addr \<Rightarrow> 'a chan_state \<Rightarrow> bool" where
  "parked_receiver a s \<longleftrightarrow> a \<in> snd ` set (ch_receivers (chan s))"

definition fresh_sender :: "addr \<Rightarrow> 'a chan_state \<Rightarrow> bool" where
  "fresh_sender a s \<longleftrightarrow> sender_ok s a \<and> \<not> parked_sender a s"

definition fresh_receiver :: "addr \<Rightarrow> 'a chan_state \<Rightarrow> bool" where
  "fresh_receiver a s \<longleftrightarrow> receiver_ok s a \<and> \<not> parked_receiver a s"

fun enabled :: "'a call \<Rightarrow> 'a chan_state \<Rightarrow> bool" where
  "enabled (CallSend a v) s = (sas s a = None)"
| "enabled (SenderSuspend h a) s = fresh_sender a s"
| "enabled (TrySendMany vs) s = (length vs < 2 ^ 64)"
| "enabled (CallReceive a) s = (ras s a = None)"
| "enabled (ReceiverSuspend h a) s = fresh_receiver a s"
| "enabled (DropSender a) s = (\<not> parked_sender a s)"
| "enabled (DropReceiver a) s = (\<not> parked_receiver a s)"
| "enabled c s = True"

subsection \<open>Histories\<close>

text \<open>The values a call passed to the channel.\<close>

fun accepted :: "'a call \<Rightarrow> 'a chan_state \<Rightarrow> 'a outcome \<Rightarrow> 'a list" where
  "accepted (SenderSuspend h a) s (Suspend b) = (if ch_close (chan s) then [] else [the (held s a)])"
| "accepted (TrySend v) s (Tried b) = (if b then [v] else [])"
| "accepted (TrySendMany vs) s (Count n) = take (unat n) vs"
| "accepted c s r = []"

text \<open>Those that went straight to receivers parked on the channel.\<close>

definition handed :: "'a chan_state \<Rightarrow> 'a list \<Rightarrow> 'a list" where
  "handed s vs = take (length (ch_receivers (chan s))) vs"

text \<open>The values a call obtained for its own caller.\<close>

fun obtained :: "'a call \<Rightarrow> 'a chan_state \<Rightarrow> 'a outcome \<Rightarrow> 'a list" where
  "obtained (ReceiverSuspend h a) s' (Suspend False) =
     (case ras s' a of
        None \<Rightarrow> []
      | Some ra \<Rightarrow> (case ra_value ra of None \<Rightarrow> [] | Some v \<Rightarrow> [v]))"
| "obtained TryReceive s' (Got (Some v)) = [v]"
| "obtained (TryReceiveMany m n) s' (GotMany vs) = vs"
| "obtained c s' r = []"

text \<open>The values of parked senders that close turned away.\<close>

fun turned_away :: "'a call \<Rightarrow> 'a chan_state \<Rightarrow> 'a list" where
  "turned_away Close s = map (\<lambda>(h, a, v). v) (a_parked (abs_chan s))"
| "turned_away c s = []"

record 'a history =
  cs :: "'a chan_state"
  sent_log :: "'a list"
  got_log :: "'a list"
  away_log :: "'a list"

definition observe :: "'a call \<Rightarrow> 'a history \<Rightarrow> 'a history" where
  "observe c m =
     (case exec c (cs m) of
        (s', Ret (r, hs)) \<Rightarrow>
          \<lparr>cs = s',
           sent_log = sent_log m @ accepted c (cs m) r,
           got_log = got_log m @ handed (cs m) (accepted c (cs m) r) @ obtained c s' r,
           away_log = turned_away c (cs m) @ away_log m\<rparr>
      | (s', _) \<Rightarrow> m\<lparr>cs := s'\<rparr>)"

inductive chan_step :: "'a history \<Rightarrow> 'a history \<Rightarrow> bool" where
  chan_step_call: "enabled c (cs m) \<Longrightarrow> chan_step m (observe c m)"

text \<open>A channel just built, with no awaiter yet.\<close>

definition chan_init :: "'a channel \<Rightarrow> 'a history \<Rightarrow> bool" where
  "chan_init c m \<longleftrightarrow>
     m = \<lparr>cs = \<lparr>chan = c, sas = (\<lambda>_. None), ras = (\<lambda>_. None)\<rparr>, sent_log = [], got_log = [],
          away_log = []\<rparr>"

inductive built :: "'a channel \<Rightarrow> bool" where
  built_default: "built (channel_default stats)"
| built_new: "channel_new stats max_size n = Ret c \<Longrightarrow> built c"

definition fifo_inv :: "'a history \<Rightarrow> bool" where
  "fifo_inv m \<longleftrightarrow>
     chan_inv (cs m) \<and>
     sent_log m = got_log m @ pending (abs_chan (cs m)) @ away_log m \<and>
     (away_log m \<noteq> [] \<longrightarrow> ch_close (chan (cs m)))"

subsection \<open>Every call conserves the values\<close>

text \<open>
  \<open>conserves c s\<close>: the call has a defined result, keeps the representation invariant, and
  the values in the channel and those accepted are, in this order, those handed to parked
  receivers, those obtained by the caller, those left in the channel, those turned away.
\<close>

definition conserves :: "'a call \<Rightarrow> 'a chan_state \<Rightarrow> bool" where
  "conserves c s \<longleftrightarrow>
     (case exec c s of (s', r) \<Rightarrow>
        chan_inv s' \<and> (ch_close (chan s) \<longrightarrow> ch_close (chan s')) \<and>
        (case r of
           Ret (x, hs) \<Rightarrow>
             pending (abs_chan s) @ accepted c s x =
               handed s (accepted c s x) @ obtained c s' x @ pending (abs_chan s') @ turned_away c s \<and>
             (ch_close (chan s) \<longrightarrow> accepted c s x = []) \<and>
             (c = Close \<longrightarrow> \<not> ch_close (chan s) \<and> ch_close (chan s'))
         | Throw e \<Rightarrow> abs_chan s' = abs_chan s
         | Undef \<Rightarrow> False))"

lemma a_offer_pending:
  assumes "a_inv q" and "a_offer v q = (q', vd, hs, ds)"
  shows "vd = Done \<Longrightarrow> pending q @ [v] = take (length (a_waiting q)) [v] @ pending q'"
    and "vd \<noteq> Done \<Longrightarrow> q' = q" and "a_closed q' = a_closed q"
    and "vd = Closed \<longleftrightarrow> a_closed q" and "vd \<noteq> Suspends"
    and "vd = Refused \<Longrightarrow> a_waiting q = []"
  using assms by (auto simp: a_offer_def a_inv_def pending_def split: list.splits if_splits)

lemma a_send_pending:
  assumes "a_inv q" and "a_send h a v q = (q', vd, hs, ds)"
  shows "\<not> a_closed q \<Longrightarrow> pending q @ [v] = take (length (a_waiting q)) [v] @ pending q'"
    and "a_closed q \<Longrightarrow> q' = q" and "a_closed q' = a_closed q"
  using assms by (auto simp: a_send_def a_offer_def a_inv_def pending_def split: list.splits if_splits)

lemma conserves_send: "chan_inv s \<Longrightarrow> sas s a = None \<Longrightarrow> conserves (CallSend a v) s"
proof -
  assume inv: "chan_inv s" and none: "sas s a = None"
  have "a \<notin> snd ` set (ch_senders (chan s))"
    using inv none by (auto simp: chan_inv_defs list_all_iff sender_ok_def)
  from inv sas_frame [OF inv this] stats_follows [OF inv] show ?thesis
    by (simp add: conserves_def send_def handed_def follows_def)
qed

lemma conserves_sender_suspend: "chan_inv s \<Longrightarrow> fresh_sender a s \<Longrightarrow> conserves (SenderSuspend h a) s"
proof -
  assume inv: "chan_inv s" and fresh: "fresh_sender a s"
  then obtain v where sa: "sas s a = Some \<lparr>sa_value = Holds v, sa_close = False\<rparr>" "held s a = Some v"
    by (auto simp: fresh_sender_def elim: sender_okE)
  have np: "a \<notin> snd ` set (ch_senders (chan s))" using fresh by (simp add: fresh_sender_def parked_sender_def)
  obtain q vd hs ds where ans: "a_send h a v (abs_chan s) = (q, vd, hs, ds)" by (metis prod.exhaust)
  from sender_suspend_follows [OF inv sa(1) np ans] obtain s' where
    s': "sender_suspend_locked h a s = (s', Ret (vd = Suspends, hs))" "chan_inv s'" "abs_chan s' = q"
    by blast
  have "ch_close (chan s') = ch_close (chan s)"
    using a_send_pending(3) [OF abs_inv [OF inv] ans] s'(3) by (metis abs_sel(1))
  with s' sa a_send_pending(1,2) [OF abs_inv [OF inv] ans] show ?thesis
    by (simp add: conserves_def returning_def handed_def)
qed

lemma conserves_try_send: "chan_inv s \<Longrightarrow> conserves (TrySend v) s"
proof -
  assume inv: "chan_inv s"
  obtain q vd hs ds where o: "a_offer v (abs_chan s) = (q, vd, hs, ds)" by (metis prod.exhaust)
  note off = a_offer_pending [OF abs_inv [OF inv] o]
  from try_send_follows [OF inv o] obtain s' where
    s': "try_send_locked v s = (s', if vd = Closed then Throw closed_exn else Ret (vd = Done, hs))"
      "follows s s' q ds" by blast
  have "chan_inv s'" "abs_chan s' = q" "ch_close (chan s') = ch_close (chan s)"
    using s'(2) off(3) abs_sel(1) [of s'] by (auto simp: follows_def)
  with s'(1) off show ?thesis
    by (cases vd) (auto simp: conserves_def returning_def handed_def)
qed

lemma take_room: "take (min (length vs) (k + r)) vs = take k vs @ take r (drop k vs)"
  by (simp add: min_def take_add [symmetric])

lemma conserves_try_send_many:
  assumes inv: "chan_inv s" and len: "length vs < 2 ^ 64"
  shows "conserves (TrySendMany vs) s"
proof (cases "vs = [] \<or> ch_close (chan s)")
  case True
  with inv stats_follows [OF inv] show ?thesis
    by (auto simp: conserves_def returning_def try_send_many_locked_def handed_def follows_def)
next
  case False
  let ?q = "abs_chan s" and ?k = "length (ch_receivers (chan s))"
  let ?room = "a_cap ?q - length (a_items ?q)"
  let ?n = "min (length vs) (?k + ?room)"
  let ?q' = "?q\<lparr>a_waiting := drop (length vs) (a_waiting ?q),
    a_items := a_items ?q @ take ?room (drop ?k vs)\<rparr>"
  have closed: "a_offer_many vs ?q = (?q', ?n, map fst (take (length vs) (a_waiting ?q)),
      zip (map snd (a_waiting ?q)) (take ?k vs))"
    using a_offer_many_closed [OF abs_inv [OF inv], of vs] False by simp
  from send_loop_follows [OF inv _ closed, of 0 "[]"] False obtain s' hs where
    s': "try_send_many_locked vs s = (s', Ret (of_nat ?n, hs))" "chan_inv s'" "abs_chan s' = ?q'"
    by (auto simp: try_send_many_locked_def follows_def)
  have un: "unat (of_nat ?n :: size_t) = ?n" using len by (simp add: unat_of_nat)
  have cl: "ch_close (chan s') = ch_close (chan s)" using s'(3) abs_sel(1) [of s'] by simp
  have split: "take ?n vs = take ?k vs @ take ?room (drop ?k vs)" by (rule take_room)
  have "take ?k (take ?n vs) = take ?k vs" by (simp add: min_def)
  moreover have "pending ?q @ take ?n vs = take ?k vs @ pending ?q'"
  proof (cases "ch_receivers (chan s) = []")
    case True
    with abs_inv [OF inv] split show ?thesis
      by (cases "a_parked ?q = []") (auto simp: pending_def a_inv_def)
  next
    case nr: False
    then have "a_items ?q = []" "a_parked ?q = []"
      using abs_inv [OF inv] by (auto simp: a_inv_def)
    with split show ?thesis by (simp add: pending_def)
  qed
  ultimately have "pending ?q @ take ?n vs = take ?k (take ?n vs) @ pending ?q'" by (simp only:)
  then show ?thesis using s' un cl False
    by (simp add: conserves_def returning_def handed_def del: take_take)
qed

lemma conserves_call_receive: "chan_inv s \<Longrightarrow> ras s a = None \<Longrightarrow> conserves (CallReceive a) s"
proof -
  assume inv: "chan_inv s" and none: "ras s a = None"
  have "a \<notin> snd ` set (ch_receivers (chan s))"
    using inv none by (auto simp: chan_inv_defs list_all_iff receiver_ok_def)
  from inv ras_frame [OF inv this] show ?thesis by (simp add: conserves_def handed_def)
qed

lemma conserves_receiver_suspend: "chan_inv s \<Longrightarrow> fresh_receiver a s \<Longrightarrow> conserves (ReceiverSuspend h a) s"
proof -
  assume inv: "chan_inv s" and fresh: "fresh_receiver a s"
  then have ra: "ras s a = Some \<lparr>ra_value = None\<rparr>" and np: "a \<notin> snd ` set (ch_receivers (chan s))"
    by (auto simp: fresh_receiver_def parked_receiver_def elim: receiver_okE)
  obtain q vd hs ds where ans: "a_receive h a (abs_chan s) = (q, vd, hs, ds)" by (metis prod.exhaust)
  from receiver_suspend_follows [OF inv ra np ans] obtain s' where
    s': "receiver_suspend_locked h a s = (s', Ret (vd = Suspends, hs))" "chan_inv s'" "abs_chan s' = q"
      "ras s' = delivered ds (ras s)" by (auto simp: follows_def)
  show ?thesis
  proof (cases "a_take (abs_chan s)")
    case None
    have "pending q = pending (abs_chan s)" "a_closed q = a_closed (abs_chan s)" "ds = []" "vd \<noteq> Done"
      using None ans by (auto simp: a_receive_def pending_def split: if_splits)
    moreover from this have "ch_close (chan s') = ch_close (chan s)" using s'(3) by (metis abs_sel(1))
    ultimately show ?thesis using s' ra
      by (cases vd) (auto simp: conserves_def returning_def handed_def)
  next
    case (Some p)
    obtain v q' ws where p: "a_take (abs_chan s) = Some (q', v, ws)" using Some by (cases p) auto
    have "ch_close (chan s') = ch_close (chan s)"
      using a_take_Some(5) [OF abs_inv [OF inv] p] ans p s'(3) abs_sel(1) [of s'] abs_sel(1) [of s]
      by (simp add: a_receive_def)
    with ans s' p a_take_Some(1) [OF abs_inv [OF inv] p] show ?thesis
      by (auto simp: conserves_def returning_def handed_def a_receive_def)
  qed
qed

lemma conserves_try_receive: "chan_inv s \<Longrightarrow> conserves TryReceive s"
proof -
  assume inv: "chan_inv s"
  show ?thesis
  proof (cases "a_take (abs_chan s)")
    case None
    with try_receive_follows [OF inv] obtain s' where
      s': "try_receive_locked s = (s', if ch_close (chan s) then Throw closed_exn else Ret (None, []))"
        "chan_inv s'" "abs_chan s' = abs_chan s"
      by (auto simp: follows_def)
    have "ch_close (chan s') = ch_close (chan s)" using s'(3) by (metis abs_sel(1))
    with s' show ?thesis by (auto simp: conserves_def returning_def handed_def)
  next
    case (Some p)
    obtain v q' ws where p: "a_take (abs_chan s) = Some (q', v, ws)" using Some by (cases p) auto
    from try_receive_follows [OF inv] p obtain s' where
      s': "try_receive_locked s = (s', Ret (Some v, ws))" "chan_inv s'" "abs_chan s' = q'"
      by (auto simp: follows_def)
    have "ch_close (chan s') = ch_close (chan s)"
      using a_take_Some(5) [OF abs_inv [OF inv] p] s'(3) abs_sel(1) [of s'] abs_sel(1) [of s] by simp
    with s' a_take_Some(1) [OF abs_inv [OF inv] p] show ?thesis
      by (auto simp: conserves_def returning_def handed_def)
  qed
qed

lemma try_receive_many_follows:
  assumes inv: "chan_inv s" and n: "n \<noteq> 0" "n \<le> max_size"
    and tk: "a_take_many (unat n) (abs_chan s) = (q, vs, ws)"
  shows "\<exists>s'. try_receive_many_locked max_size n s =
      (s', if vs = [] \<and> ch_close (chan s) then Throw closed_exn else Ret (vs, ws)) \<and>
    follows s s' q []"
proof -
  from receive_loop_follows [OF inv, of n "[]" q vs ws "[]"] tk obtain s1 where
    s1: "receive_loop n [] [] s = (s1, Ret (vs, ws))" "follows s s1 q []" by auto
  have "ch_close (chan s1) = ch_close (chan s)"
    using a_take_many_closed [OF abs_inv [OF inv] tk] follows_abs [OF s1(2)]
    by (metis abs_sel(1))
  moreover have "follows s (on_chan (stats_add f) s1) q []" for f
    using follows_trans [OF s1(2) stats_follows [OF follows_inv [OF s1(2)]]] follows_abs [OF s1(2)]
    by simp
  ultimately show ?thesis using s1 n by (auto simp: try_receive_many_locked_def not_less)
qed

lemma conserves_try_receive_many: "chan_inv s \<Longrightarrow> conserves (TryReceiveMany max_size n) s"
proof -
  assume inv: "chan_inv s"
  show ?thesis
  proof (cases "n = 0 \<or> n > max_size")
    case True
    with inv show ?thesis
      by (auto simp: conserves_def returning_def handed_def try_receive_many_locked_def)
  next
    case False
    obtain q vs ws where tk: "a_take_many (unat n) (abs_chan s) = (q, vs, ws)" by (metis prod.exhaust)
    note closed = a_take_many_closed [OF abs_inv [OF inv] tk]
    from try_receive_many_follows [OF inv _ _ tk, of max_size] False obtain s' where
      s': "try_receive_many_locked max_size n s =
        (s', if vs = [] \<and> ch_close (chan s) then Throw closed_exn else Ret (vs, ws))"
        "chan_inv s'" "abs_chan s' = q"
      by (auto simp: follows_def not_less)
    have cl: "ch_close (chan s') = ch_close (chan s)" using closed s'(3) by (metis abs_sel(1))
    show ?thesis
    proof (cases "vs = []")
      case True
      have "unat n \<noteq> 0" using False by (simp add: unat_eq_zero)
      with True closed have nil: "pending (abs_chan s) = []" "pending q = []" by auto
      then have "a_take (abs_chan s) = None"
        by (auto simp: a_take_def pending_def split: list.splits)
      with \<open>unat n \<noteq> 0\<close> tk have "q = abs_chan s" by (cases "unat n") auto
      with True s' cl show ?thesis by (auto simp: conserves_def returning_def handed_def)
    next
      case False
      with s' cl closed show ?thesis by (auto simp: conserves_def returning_def handed_def)
    qed
  qed
qed

lemma conserves_close: "chan_inv s \<Longrightarrow> conserves Close s"
proof -
  assume inv: "chan_inv s"
  show ?thesis
  proof (cases "ch_close (chan s)")
    case True
    with inv show ?thesis by (simp add: conserves_def returning_def close_locked_def)
  next
    case False
    from close_follows [OF inv False] obtain s' where
      s': "close_locked s = (s', Ret ((), snd (a_close (abs_chan s))))" "chan_inv s'"
        "abs_chan s' = fst (a_close (abs_chan s))" by blast
    then have "ch_close (chan s')" using abs_sel(1) [of s'] by (simp add: a_close_def)
    with s' False show ?thesis
      by (simp add: conserves_def returning_def handed_def a_close_def pending_def)
  qed
qed

subsection \<open>The invariant of every execution\<close>

lemma reset_stats_frame: "chan_inv s \<Longrightarrow> chan_inv (on_chan reset_stats s) \<and>
    abs_chan (on_chan reset_stats s) = abs_chan s \<and> ch_close (chan (on_chan reset_stats s)) = ch_close (chan s)"
  by (auto simp: on_chan_def reset_stats_eq chan_inv_defs abs_chan_def Let_def ring_inv_def items_def
      slot_def isFull_def isEmpty_def)

lemma exec_conserves:
  assumes inv: "chan_inv s" and en: "enabled c s"
  shows "conserves c s"
proof (cases c)
  case (DropSender a)
  with inv en sas_frame [OF inv, of a None] show ?thesis
    by (simp add: conserves_def handed_def parked_sender_def)
next
  case (DropReceiver a)
  with inv en ras_frame [OF inv, of a None] show ?thesis
    by (simp add: conserves_def handed_def parked_receiver_def)
next
  case ResetStats
  with reset_stats_frame [OF inv] show ?thesis by (simp add: conserves_def handed_def)
qed (use inv en in \<open>simp_all add: conserves_send conserves_sender_suspend conserves_try_send
  conserves_try_send_many conserves_call_receive conserves_receiver_suspend conserves_try_receive
  conserves_try_receive_many conserves_close\<close>)

lemma turned_away_other: "c \<noteq> Close \<Longrightarrow> turned_away c s = []"
  by (cases c) auto

lemma observe_fifo:
  assumes m: "fifo_inv m" and en: "enabled c (cs m)"
  shows "fifo_inv (observe c m)"
proof -
  obtain s' r where e: "exec c (cs m) = (s', r)" by (cases "exec c (cs m)")
  have con: "conserves c (cs m)" using m en by (simp add: fifo_inv_def exec_conserves)
  show ?thesis
  proof (cases r)
    case (Ret p)
    obtain x hs where p: "p = (x, hs)" by (cases p)
    show ?thesis
    proof (cases "ch_close (chan (cs m))")
      case True
      then have "c \<noteq> Close" using con e Ret p by (auto simp: conserves_def)
      with True con e Ret p m turned_away_other [of c "cs m"] show ?thesis
        by (auto simp: observe_def fifo_inv_def conserves_def handed_def)
    next
      case False
      with con e Ret p m turned_away_other [of c "cs m"] show ?thesis
        by (auto simp: observe_def fifo_inv_def conserves_def)
    qed
  qed (use con e m in \<open>auto simp: observe_def fifo_inv_def conserves_def\<close>)
qed

lemma new_queues:
  "channel_new stats max_size n = Ret c \<Longrightarrow> ch_senders c = [] \<and> ch_receivers c = [] \<and> \<not> ch_close c"
  by (auto simp: channel_new_def channel_default_def split: if_splits)

lemma built_ring: "built c \<Longrightarrow> ring_inv c \<and> items c = [] \<and> ch_senders c = [] \<and> ch_receivers c = [] \<and> \<not> ch_close c"
proof (induction rule: built.induct)
  case (built_default stats)
  show ?case using ring_default [of stats] by (simp add: channel_default_def isEmpty_def)
next
  case (built_new stats max_size n c)
  then show ?case using ring_new [OF built_new] new_queues [OF built_new] by blast
qed

lemma init_fifo: "built c \<Longrightarrow> chan_init c m \<Longrightarrow> fifo_inv m"
  using built_ring [of c]
  by (auto simp: chan_init_def fifo_inv_def chan_inv_defs abs_chan_def pending_def Let_def isEmpty_def)

interpretation channel: invariant_system "\<lambda>m. \<exists>c. built c \<and> chan_init c m" chan_step fifo_inv
proof
  show "fifo_inv m" if "\<exists>c. built c \<and> chan_init c m" for m :: "'a history"
    using that init_fifo by blast
  show "fifo_inv m'" if "fifo_inv m" "chan_step m m'" for m m' :: "'a history"
    using that(2,1) by cases (simp add: observe_fifo)
qed

end
