(* ===== verification/Channel_Props.thy ===== *)
theory Channel_Props
  imports Channel_Machine
begin

text \<open>
  The properties of \<open>include/channel.h\<close>: those of every execution (first-in-first-out,
  no undefined behaviour, bounded, nobody parked without need), the contract of each method
  as a refinement of the abstract channel, the contract of \<open>close\<close>, and the accounting of
  the statistics.
\<close>

subsection \<open>A channel to try them on\<close>

definition demo_chan :: "nat channel" where
  "demo_chan = (channel_default True)\<lparr>ch_capacity := 1, ch_buffer := [None]\<rparr>"

definition demo_start :: "nat history" where
  "demo_start = \<lparr>cs = \<lparr>chan = demo_chan, sas = (\<lambda>_. None), ras = (\<lambda>_. None)\<rparr>, sent_log = [],
     got_log = [], away_log = []\<rparr>"

definition demo_run :: "nat history" where
  "demo_run = observe (TrySend 8) (observe TryReceive (observe (TrySend 7) demo_start))"

text \<open>A full channel with the value 8, one sender parked with the value 9.\<close>

definition demo_state :: "nat chan_state" where
  "demo_state = \<lparr>chan = demo_chan\<lparr>ch_buffer := [Some 8], ch_count := 1, ch_senders := [(3, 100)]\<rparr>,
     sas = [100 \<mapsto> \<lparr>sa_value = Holds 9, sa_close = False\<rparr>, 108 \<mapsto> \<lparr>sa_value = Holds 4, sa_close = False\<rparr>],
     ras = [200 \<mapsto> \<lparr>ra_value = None\<rparr>]\<rparr>"

lemma demo_chan_built: "built demo_chan"
  by (rule built_new [of True "2 ^ 60" 1]) (simp add: channel_new_def demo_chan_def)

lemma reach_observe: "reach I chan_step m \<Longrightarrow> enabled c (cs m) \<Longrightarrow> reach I chan_step (observe c m)"
  by (blast intro: reach_step chan_step_call)

lemma demo_run_reach: "reach (\<lambda>m. \<exists>c. built c \<and> chan_init c m) chan_step demo_run"
proof -
  have i: "reach (\<lambda>m. \<exists>c. built c \<and> chan_init c m) chan_step demo_start"
    by (rule reach_init) (use demo_chan_built in \<open>auto simp: chan_init_def demo_start_def\<close>)
  show ?thesis unfolding demo_run_def
    by (intro reach_observe i) simp_all
qed

lemma demo_state_inv: "chan_inv demo_state"
  by (simp add: chan_inv_defs demo_state_def demo_chan_def channel_default_def ring_inv_def slot_def
      isFull_def isEmpty_def sender_ok_def Let_def)

lemmas demo_defs = demo_state_def demo_chan_def channel_default_def abs_chan_def items_def slot_def
  held_def

subsection \<open>Every execution\<close>



text \<open>
  (C3) No execution runs into undefined behaviour: no call reads an empty or moved-from
  slot, indexes outside the buffer, divides by a zero capacity or follows a pointer to a
  dead awaiter, as long as awaiters live while they are parked.
\<close>

theorem channel_no_undefined_behaviour:
  assumes "reach (\<lambda>m. \<exists>c. built c \<and> chan_init c m) chan_step m" and "enabled c (cs m)"
  shows "snd (exec c (cs m)) \<noteq> Undef"
proof -
  have "conserves c (cs m)"
    using channel.reach_inv [OF assms(1)] assms(2) by (simp add: fifo_inv_def exec_conserves)
  then show ?thesis by (cases "exec c (cs m)"; cases "snd (exec c (cs m))") (auto simp: conserves_def)
qed

theorem channel_no_undefined_behaviour_witness:
  "snd (exec (TrySendMany [1, 2]) (cs demo_run)) \<noteq> Undef"
  by (rule channel_no_undefined_behaviour [OF demo_run_reach]) simp

text \<open>
  (C4) In every execution the buffer stays within its capacity, a sender is parked only
  when the channel is open and full and no receiver waits, and a receiver is parked only
  when it is open and empty: nobody sleeps on a channel that could serve it.
\<close>

theorem channel_parks_only_when_needed:
  assumes "reach (\<lambda>m. \<exists>c. built c \<and> chan_init c m) chan_step m"
  defines "c \<equiv> chan (cs m)"
  shows "ch_count c \<le> ch_capacity c \<and>
    (ch_senders c \<noteq> [] \<longrightarrow> isFull c \<and> \<not> ch_close c \<and> ch_receivers c = []) \<and>
    (ch_receivers c \<noteq> [] \<longrightarrow> isEmpty c \<and> \<not> ch_close c \<and> ch_senders c = [])"
  using channel.reach_inv [OF assms(1)] ring.bounded [of c]
  by (auto simp: c_def fifo_inv_def chan_inv_defs Let_def word_le_nat_alt)

theorem channel_parks_only_when_needed_witness:
  "ch_count (chan (cs demo_run)) \<le> ch_capacity (chan (cs demo_run))"
  using channel_parks_only_when_needed [OF demo_run_reach] by simp

lemma slot_of_index:
  assumes "i < unat (ch_capacity c)" and "ch_header c < ch_capacity c"
  shows "slot c ((i + unat (ch_capacity c) - unat (ch_header c)) mod unat (ch_capacity c)) = i"
proof -
  have "unat (ch_header c) < unat (ch_capacity c)" using assms(2) by (simp add: word_less_nat_alt)
  then show ?thesis using assms(1) by (simp add: slot_def mod_add_right_eq)
qed

text \<open>
  (C6) The representation is well formed in every execution: the buffer has as many slots as
  the capacity; the indices are in range, and the tail is \<open>count_\<close> slots after the header,
  around the ring; a slot holds a value exactly if it is one of those \<open>count_\<close> slots; and the
  pointer of each parked coroutine leads to its own awaiter, alive, with its value in it and not
  marked closed if it sends, empty if it receives.
\<close>

theorem channel_is_well_formed:
  assumes "reach (\<lambda>m. \<exists>c. built c \<and> chan_init c m) chan_step m"
  defines "s \<equiv> cs m"
  defines "c \<equiv> chan s" and "n \<equiv> unat (ch_capacity (chan s))"
  shows "length (ch_buffer c) = n \<and> unat (ch_count c) \<le> n \<and>
    (0 < n \<longrightarrow> unat (ch_header c) < n \<and> unat (ch_tail c) = (unat (ch_header c) + unat (ch_count c)) mod n) \<and>
    (\<forall>i < n. ch_buffer c ! i \<noteq> None \<longleftrightarrow> (i + n - unat (ch_header c)) mod n < unat (ch_count c)) \<and>
    (\<forall>(h, a) \<in> set (ch_senders c). \<exists>v. sas s a = Some \<lparr>sa_value = Holds v, sa_close = False\<rparr>) \<and>
    (\<forall>(h, a) \<in> set (ch_receivers c). ras s a = Some \<lparr>ra_value = None\<rparr>) \<and>
    distinct (map snd (ch_senders c)) \<and> distinct (map snd (ch_receivers c))"
proof -
  have inv: "chan_inv s" using channel.reach_inv [OF assms(1)] by (simp add: fifo_inv_def s_def)
  then have r: "ring_inv c" by (simp add: chan_inv_def c_def)
  have "ch_buffer c ! i \<noteq> None \<longleftrightarrow> (i + n - unat (ch_header c)) mod n < unat (ch_count c)" if i: "i < n" for i
  proof -
    have "ch_capacity c \<noteq> 0" using i by (auto simp: n_def c_def)
    then have h: "ch_header c < ch_capacity c" using r by (simp add: ring_inv_def)
    have "(i + n - unat (ch_header c)) mod n < n" using i by simp
    with r have "ch_buffer c ! slot c ((i + n - unat (ch_header c)) mod n) \<noteq> None \<longleftrightarrow>
        (i + n - unat (ch_header c)) mod n < unat (ch_count c)" unfolding ring_inv_def n_def c_def by blast
    then show ?thesis using slot_of_index [OF _ h] i by (simp add: n_def c_def)
  qed
  moreover have "\<forall>(h, a) \<in> set (ch_senders c). \<exists>v. sas s a = Some \<lparr>sa_value = Holds v, sa_close = False\<rparr>"
    using inv by (fastforce simp: chan_inv_defs list_all_iff c_def elim: sender_okE)
  moreover have "\<forall>(h, a) \<in> set (ch_receivers c). ras s a = Some \<lparr>ra_value = None\<rparr>"
    using inv by (fastforce simp: chan_inv_defs list_all_iff c_def elim: receiver_okE)
  ultimately show ?thesis
    using inv r by (auto simp: chan_inv_defs ring_inv_def slot_def c_def n_def word_less_nat_alt)
qed

theorem channel_is_well_formed_witness:
  "length (ch_buffer (chan (cs demo_run))) = unat (ch_capacity (chan (cs demo_run)))"
  using channel_is_well_formed [OF demo_run_reach] by simp

subsection \<open>Each method against the abstract channel\<close>

fun flag_result :: "bool option \<Rightarrow> unit res" where
  "flag_result None = Undef"
| "flag_result (Some b) = (if b then Throw closed_exn else Ret ())"

lemma sender_await_resume_alt: "sender_await_resume a s = flag_result (map_option sa_close (sas s a))"
  by (cases "sas s a") (simp_all add: sender_await_resume_def)

text \<open>
  (C7) \<open>SenderAwaiter::await_suspend\<close> refines the abstract send. On a closed channel the
  coroutine goes on and its \<open>await_resume\<close> throws; with a receiver parked the value is
  handed to the first one, which is woken; with room in the ring it is appended; otherwise
  the coroutine suspends at the end of the sender queue with its value. No other awaiter is
  affected.
\<close>

theorem sender_await_suspend_refines:
  assumes "chan_inv s" and "sas s this = Some \<lparr>sa_value = Holds v, sa_close = False\<rparr>"
    and "\<not> parked_sender this s" and "a_send h this v (abs_chan s) = (q, vd, hs, ds)"
  shows "\<exists>s'. sender_suspend_locked h this s = (s', Ret (vd = Suspends, hs)) \<and>
    chan_inv s' \<and> abs_chan s' = q \<and> ras s' = delivered ds (ras s) \<and>
    sender_await_resume this s' = (if vd = Closed then Throw closed_exn else Ret ()) \<and>
    (\<forall>a. a \<noteq> this \<longrightarrow> sender_await_resume a s' = sender_await_resume a s)"
  using sender_suspend_follows [OF assms(1,2) _ assms(4)] assms(3)
  by (auto simp: parked_sender_def sender_await_resume_alt)

theorem sender_await_suspend_refines_witness:
  "\<exists>s'. sender_suspend_locked 5 108 demo_state = (s', Ret (True, [])) \<and>
    abs_chan s' = \<lparr>a_items = [8], a_cap = 1, a_parked = [(3, 100, 9), (5, 108, 4)], a_waiting = [],
      a_closed = False\<rparr>"
  using sender_await_suspend_refines [OF demo_state_inv, of 108 4 5]
  by (auto simp: parked_sender_def demo_defs a_send_def a_offer_def)

text \<open>
  (C8) \<open>ReceiverAwaiter::await_suspend\<close> refines the abstract receive: the oldest value is
  delivered to this awaiter, and the first parked sender's value takes the free slot (or,
  on a rendezvous channel, is the one delivered) and that sender is woken; an empty open
  channel parks the receiver at the end of its queue; an empty closed one lets it go on to
  an \<open>await_resume\<close> that throws.
\<close>

theorem receiver_await_suspend_refines:
  assumes "chan_inv s" and "ras s this = Some receive" and "\<not> parked_receiver this s"
    and "a_receive h this (abs_chan s) = (q, vd, hs, ds)"
  shows "\<exists>s'. receiver_suspend_locked h this s = (s', Ret (vd = Suspends, hs)) \<and>
    chan_inv s' \<and> abs_chan s' = q \<and> ras s' = delivered ds (ras s) \<and>
    receiver_await_resume this s' =
      (case a_take (abs_chan s) of Some (q', v, hs) \<Rightarrow> Ret v | None \<Rightarrow> Throw closed_exn) \<and>
    (\<forall>a. sender_await_resume a s' = sender_await_resume a s)"
proof -
  from receiver_suspend_follows [OF assms(1) _ _ assms(4)] assms(2,3) obtain s' where
    s': "receiver_suspend_locked h this s = (s', Ret (vd = Suspends, hs))" "follows s s' q ds"
    by (auto simp: parked_receiver_def receive_def)
  then have "receiver_await_resume this s' =
      (case a_take (abs_chan s) of Some (q', v, hs) \<Rightarrow> Ret v | None \<Rightarrow> Throw closed_exn)"
    using assms(2,4)
    by (auto simp: follows_def receiver_await_resume_def a_receive_def receive_def
        split: option.splits if_splits)
  with s' show ?thesis by (auto simp: follows_def sender_await_resume_alt)
qed

theorem receiver_await_suspend_refines_witness:
  "\<exists>s'. receiver_suspend_locked 6 200 demo_state = (s', Ret (False, [3])) \<and>
    receiver_await_resume 200 s' = Ret 8 \<and>
    abs_chan s' = \<lparr>a_items = [9], a_cap = 1, a_parked = [], a_waiting = [], a_closed = False\<rparr>"
  using receiver_await_suspend_refines [OF demo_state_inv, of 200 6]
  by (auto simp: parked_receiver_def demo_defs receive_def a_receive_def a_take_def)

text \<open>
  \<open>try_send_many\<close> on an open channel: the first values go, one each, to the parked
  receivers in the order they parked, the following ones fill the ring, and the count
  returned is exactly the number of values taken; the receivers served are woken in order.
\<close>

lemma try_send_many_takes_what_fits:
  fixes s :: "'a chan_state"
  assumes "chan_inv s" and "\<not> ch_close (chan s)" and "length vs < 2 ^ 64"
  defines "q \<equiv> abs_chan s"
  defines "k \<equiv> length (a_waiting q)" and "room \<equiv> a_cap q - length (a_items q)"
  shows "\<exists>s' n. try_send_many_locked vs s = (s', Ret (n, map fst (take (length vs) (a_waiting q)))) \<and>
    unat n = min (length vs) (k + room) \<and> chan_inv s' \<and>
    abs_chan s' = q\<lparr>a_waiting := drop (length vs) (a_waiting q),
                    a_items := a_items q @ take room (drop k vs)\<rparr> \<and>
    ras s' = delivered (zip (map snd (a_waiting q)) (take k vs)) (ras s)"
proof (cases "vs = []")
  case True
  then show ?thesis using assms(1) by (cases q) (simp add: try_send_many_locked_def q_def)
next
  case False
  have closed: "a_offer_many vs q =
    (q\<lparr>a_waiting := drop (length vs) (a_waiting q), a_items := a_items q @ take room (drop k vs)\<rparr>,
     min (length vs) (k + room), map fst (take (length vs) (a_waiting q)),
     zip (map snd (a_waiting q)) (take k vs))"
    unfolding k_def room_def
    by (rule a_offer_many_closed) (use assms(1,2) in \<open>simp_all add: q_def abs_inv\<close>)
  have "unat (of_nat (min (length vs) (k + room)) :: size_t) = min (length vs) (k + room)"
    using assms(3) by (simp add: unat_of_nat)
  with send_loop_follows [OF assms(1,2) closed [unfolded q_def], of 0 "[]"] False assms(2) show ?thesis
    by (auto simp: try_send_many_locked_def follows_def q_def)
qed

text \<open>
  \<open>try_receive_many\<close> returns the \<open>max_items\<close> oldest values of the channel (all of
  them if there are fewer), in order, lets in and wakes as many parked senders, first come
  first served, and throws exactly when there is nothing to return and the channel is closed.
\<close>

lemma try_receive_many_takes_the_oldest:
  assumes "chan_inv s" and "0 < n" and "n \<le> max_size"
  defines "q \<equiv> abs_chan s"
  shows "\<exists>s'. try_receive_many_locked max_size n s =
      (s', if pending q = [] \<and> ch_close (chan s) then Throw closed_exn
           else Ret (take (unat n) (pending q), map fst (take (unat n) (a_parked q)))) \<and>
    chan_inv s' \<and> pending (abs_chan s') = drop (unat n) (pending q) \<and>
    a_parked (abs_chan s') = drop (unat n) (a_parked q) \<and>
    ras s' = ras s \<and> ch_close (chan s') = ch_close (chan s)"
proof -
  obtain q' vs ws where tk: "a_take_many (unat n) q = (q', vs, ws)" by (metis prod.exhaust)
  note closed = a_take_many_closed [OF abs_inv [OF assms(1)] tk [unfolded q_def]]
  have "vs = [] \<longleftrightarrow> pending q = []" using closed assms(2) by (auto simp: q_def word_less_nat_alt)
  with try_receive_many_follows [OF assms(1) _ assms(3) tk [unfolded q_def]] assms(2) closed
  obtain s' where s': "try_receive_many_locked max_size n s =
      (s', if pending q = [] \<and> ch_close (chan s) then Throw closed_exn else Ret (vs, ws))"
    "chan_inv s'" "abs_chan s' = q'" "ras s' = ras s" by (auto simp: follows_def)
  have "ch_close (chan s') = ch_close (chan s)" using closed s'(3) by (metis abs_sel(1))
  with s' closed show ?thesis by (simp add: q_def)
qed

text \<open>
  (C9) The batch operations. \<open>try_send_many\<close> on an open channel: the first values go, one
  each, to the parked receivers in the order they parked, the following ones fill the ring, and
  the count returned is exactly the number of values taken; the receivers served are woken
  in order. \<open>try_receive_many\<close> returns the oldest values of the channel, as many as asked for
  (all of them if there are fewer), in order, lets in and wakes as many parked senders, first
  come first served, and throws exactly when there is nothing to return and the channel is
  closed.
\<close>

theorem batches_take_what_they_can:
  fixes s :: "'a chan_state"
  assumes "chan_inv s"
  defines "q \<equiv> abs_chan s"
  defines "k \<equiv> length (a_waiting q)" and "room \<equiv> a_cap q - length (a_items q)"
  shows "(\<not> ch_close (chan s) \<longrightarrow> length vs < 2 ^ 64 \<longrightarrow>
      (\<exists>s' n. try_send_many_locked vs s = (s', Ret (n, map fst (take (length vs) (a_waiting q)))) \<and>
        unat n = min (length vs) (k + room) \<and> chan_inv s' \<and>
        abs_chan s' = q\<lparr>a_waiting := drop (length vs) (a_waiting q),
                        a_items := a_items q @ take room (drop k vs)\<rparr> \<and>
        ras s' = delivered (zip (map snd (a_waiting q)) (take k vs)) (ras s))) \<and>
    (0 < n \<longrightarrow> n \<le> max_size \<longrightarrow>
      (\<exists>s'. try_receive_many_locked max_size n s =
          (s', if pending q = [] \<and> ch_close (chan s) then Throw closed_exn
               else Ret (take (unat n) (pending q), map fst (take (unat n) (a_parked q)))) \<and>
        chan_inv s' \<and> pending (abs_chan s') = drop (unat n) (pending q) \<and>
        a_parked (abs_chan s') = drop (unat n) (a_parked q) \<and>
        ras s' = ras s \<and> ch_close (chan s') = ch_close (chan s)))"
  using try_send_many_takes_what_fits [OF assms(1)] try_receive_many_takes_the_oldest [OF assms(1)]
  unfolding q_def k_def room_def by blast

theorem batches_take_what_they_can_witness:
  "(\<exists>s' n. try_send_many_locked [1, 2] demo_state = (s', Ret (n, [])) \<and> unat n = 0) \<and>
   (\<exists>s'. try_receive_many_locked (2 ^ 60) 5 demo_state = (s', Ret ([8, 9], [3])))"
  using batches_take_what_they_can [OF demo_state_inv, of "[1, 2]" 5 "2 ^ 60"]
  by (auto simp: demo_defs pending_def)

subsection \<open>Closing\<close>

text \<open>A closed channel suspends nobody: receivers drain it, senders leave it alone.\<close>

lemma closed_receiver_drains:
  assumes "chan_inv s" and "ch_close (chan s)" and "ras s ra = Some receive"
  shows "\<exists>s1. receiver_suspend_locked h ra s = (s1, Ret (False, [])) \<and> chan_inv s1 \<and> ch_close (chan s1) \<and>
    receiver_await_resume ra s1 = (case items (chan s) of x # xs \<Rightarrow> Ret x | [] \<Rightarrow> Throw closed_exn) \<and>
    items (chan s1) = tl (items (chan s))"
proof -
  have qs: "ch_senders (chan s) = []" "ch_receivers (chan s) = []"
    using assms(1,2) by (auto simp: chan_inv_defs Let_def)
  obtain q vd hs ds where ans: "a_receive h ra (abs_chan s) = (q, vd, hs, ds)" by (metis prod.exhaust)
  have q: "a_items q = tl (items (chan s))" "a_closed q" "hs = []" "vd \<noteq> Suspends"
    "ds = (case items (chan s) of [] \<Rightarrow> [] | x # xs \<Rightarrow> [(ra, x)])"
    using ans qs assms(2)
    by (auto simp: a_receive_def a_take_def abs_chan_def simp del: items_Nil_iff items_Nil_iff'
        split: list.splits)
  from receiver_suspend_follows [OF assms(1) _ _ ans] assms(3) qs obtain s1 where
    s1: "receiver_suspend_locked h ra s = (s1, Ret (False, []))" "follows s s1 q ds"
    using q by (auto simp: receive_def)
  then have "items (chan s1) = tl (items (chan s))" "ch_close (chan s1)" "chan_inv s1"
    using q by (auto simp: follows_def abs_chan_def)
  moreover have "receiver_await_resume ra s1 =
      (case items (chan s) of x # xs \<Rightarrow> Ret x | [] \<Rightarrow> Throw closed_exn)"
    using s1(2) q(5) assms(3)
    by (auto simp: follows_def receiver_await_resume_def receive_def simp del: items_Nil_iff items_Nil_iff'
        split: list.splits)
  ultimately show ?thesis using s1(1) by blast
qed

lemma closed_sender_throws:
  assumes "chan_inv s" and "ch_close (chan s)" and "sas s sa = Some \<lparr>sa_value = Holds v, sa_close = False\<rparr>"
  shows "\<exists>s1. sender_suspend_locked h sa s = (s1, Ret (False, [])) \<and>
    sender_await_resume sa s1 = Throw closed_exn \<and> items (chan s1) = items (chan s)"
proof -
  have "ch_senders (chan s) = []" using assms(1,2) by (auto simp: chan_inv_defs Let_def)
  with sender_suspend_follows [OF assms(1,3), of h] assms(2) obtain s1 where
    "sender_suspend_locked h sa s = (s1, Ret (False, []))" "abs_chan s1 = abs_chan s" "sender_await_resume sa s1 = Throw closed_exn"
    by (auto simp: a_send_def a_offer_def sender_await_resume_alt)
  then show ?thesis by (auto simp: abs_chan_def)
qed

text \<open>
  (C11) \<open>close\<close> marks the channel closed, empties both queues and wakes every parked
  coroutine, the senders before the receivers, each group in the order it parked; all of
  them then throw. The buffered values stay, and a second \<open>close\<close> throws. A receiver that
  comes later does not suspend: it gets the oldest buffered value, or throws if there is none;
  a sender that comes later throws and leaves the contents alone.
\<close>

theorem close_wakes_everyone:
  assumes "chan_inv s" and "\<not> ch_close (chan s)"
  shows "\<exists>s'. close_locked s =
      (s', Ret ((), map fst (ch_senders (chan s)) @ map fst (ch_receivers (chan s)))) \<and>
    chan_inv s' \<and> ch_close (chan s') \<and> ch_senders (chan s') = [] \<and> ch_receivers (chan s') = [] \<and>
    items (chan s') = items (chan s) \<and>
    (\<forall>a. parked_sender a s \<longrightarrow> sender_await_resume a s' = Throw closed_exn) \<and>
    (\<forall>a. parked_receiver a s \<longrightarrow> receiver_await_resume a s' = Throw closed_exn) \<and>
    close_locked s' = (s', Throw (RuntimeError ''channel is already closed'')) \<and>
    (\<forall>h a. ras s' a = Some receive \<longrightarrow>
       (\<exists>s1. receiver_suspend_locked h a s' = (s1, Ret (False, [])) \<and>
          receiver_await_resume a s1 = (case items (chan s) of x # xs \<Rightarrow> Ret x | [] \<Rightarrow> Throw closed_exn) \<and>
          items (chan s1) = tl (items (chan s)))) \<and>
    (\<forall>h a v. sas s' a = Some \<lparr>sa_value = Holds v, sa_close = False\<rparr> \<longrightarrow>
       (\<exists>s1. sender_suspend_locked h a s' = (s1, Ret (False, [])) \<and>
          sender_await_resume a s1 = Throw closed_exn \<and> items (chan s1) = items (chan s)))"
proof -
  from close_follows [OF assms] obtain s' where
    s': "close_locked s = (s', Ret ((), snd (a_close (abs_chan s))))" "chan_inv s'"
      "abs_chan s' = fst (a_close (abs_chan s))" "ras s' = ras s"
      "\<forall>a. map_option sa_close (sas s' a) =
       (if a \<in> snd ` set (ch_senders (chan s)) then Some True else map_option sa_close (sas s a))"
    by blast
  from s'(3) have q: "ch_close (chan s')" "ch_senders (chan s') = []" "ch_receivers (chan s') = []"
    "items (chan s') = items (chan s)" by (simp_all add: abs_chan_def a_close_def)
  have w: "snd (a_close (abs_chan s)) = map fst (ch_senders (chan s)) @ map fst (ch_receivers (chan s))"
    by (auto simp: a_close_def abs_chan_def)
  have "receiver_await_resume a s' = Throw closed_exn" if "parked_receiver a s" for a
    using assms(1) that s'(4)
    by (force simp: parked_receiver_def chan_inv_defs list_all_iff receiver_ok_def
        receiver_await_resume_def split: option.splits)
  moreover have "\<forall>a. parked_sender a s \<longrightarrow> sender_await_resume a s' = Throw closed_exn"
    using s'(5) by (simp add: sender_await_resume_alt parked_sender_def)
  moreover have "close_locked s' = (s', Throw (RuntimeError ''channel is already closed''))"
    using q(1) by (simp add: close_locked_def)
  moreover have "\<exists>s1. receiver_suspend_locked h a s' = (s1, Ret (False, [])) \<and>
          receiver_await_resume a s1 = (case items (chan s) of x # xs \<Rightarrow> Ret x | [] \<Rightarrow> Throw closed_exn) \<and>
          items (chan s1) = tl (items (chan s))" if "ras s' a = Some receive" for h a
    using closed_receiver_drains [OF s'(2) q(1) that, of h] unfolding q(4) by blast
  moreover have "\<exists>s1. sender_suspend_locked h a s' = (s1, Ret (False, [])) \<and>
          sender_await_resume a s1 = Throw closed_exn \<and> items (chan s1) = items (chan s)"
    if "sas s' a = Some \<lparr>sa_value = Holds v, sa_close = False\<rparr>" for h a v
    using closed_sender_throws [OF s'(2) q(1) that, of h] unfolding q(4) .
  ultimately show ?thesis using s'(1,2) q unfolding w
    by - (rule exI [of _ s'], intro conjI allI impI, (assumption | blast)+)
qed

theorem close_wakes_everyone_witness:
  "\<exists>s'. close_locked demo_state = (s', Ret ((), [3])) \<and>
    sender_await_resume 100 s' = Throw closed_exn \<and> items (chan s') = [8]"
  using close_wakes_everyone [OF demo_state_inv]
  by (auto simp: demo_defs parked_sender_def)

subsection \<open>Statistics\<close>

text \<open>Buffer pushes minus pops minus the number of buffered values, in 64-bit arithmetic.\<close>

definition balance :: "'a channel \<Rightarrow> uint64" where
  "balance c = buffer_pushes (ch_stats c) - buffer_pops (ch_stats c) - ch_count c"

definition keeps_balance :: "'a chan_state \<Rightarrow> 'a chan_state \<times> 'r res \<Rightarrow> bool" where
  "keeps_balance s p \<longleftrightarrow>
     ch_stats_enabled (chan (fst p)) = ch_stats_enabled (chan s) \<and>
     (ch_stats_enabled (chan s) \<longrightarrow> balance (chan (fst p)) = balance (chan s))"

lemma keeps_same: "chan s' = chan s \<Longrightarrow> keeps_balance s (s', r)"
  by (simp add: keeps_balance_def)

lemma keeps_bind:
  "keeps_balance s p \<Longrightarrow> (\<And>s1 a. p = (s1, Ret a) \<Longrightarrow> keeps_balance s1 (f s1 a)) \<Longrightarrow>
   keeps_balance s (bind_res p f)"
  by (cases p; cases "snd p") (auto simp: keeps_balance_def)

lemma keeps_move: "keeps_balance s (move_sender_value a s)"
  and keeps_deliver: "keeps_balance s (deliver a v s)"
  by (auto simp: keeps_balance_def move_sender_value_def deliver_def split: option.splits slot.splits)

lemma keeps_push: "keeps_balance s (push_value v s)"
  and keeps_pop: "keeps_balance s (pop_value s)"
  by (auto simp: keeps_balance_def push_value_def pop_value_def buf_write_def buf_take_def stats_add_def
      balance_def split: option.splits)

lemma keeps_queues:
  "keeps_balance (on_chan (\<lambda>c. c\<lparr>ch_senders := q\<rparr>) s) p \<longleftrightarrow> keeps_balance s p"
  "keeps_balance (on_chan (\<lambda>c. c\<lparr>ch_receivers := q\<rparr>) s) p \<longleftrightarrow> keeps_balance s p"
  by (simp_all add: keeps_balance_def balance_def)

lemma keeps_other:
  assumes "\<And>c. buffer_pushes (f c) = buffer_pushes c \<and> buffer_pops (f c) = buffer_pops c"
  shows "keeps_balance s (on_chan (stats_add f) s, r)"
  using assms by (auto simp: keeps_balance_def on_chan_def stats_add_def balance_def)

lemma keeps_refill: "keeps_balance s (refill s)"
  and keeps_handoff: "keeps_balance s (take_handoff s)"
proof -
  show "keeps_balance s (refill s)"
    by (auto simp: refill_def keeps_same intro!: keeps_bind keeps_push split: list.splits)
       (use keeps_move keeps_queues in blast)
  show "keeps_balance s (take_handoff s)"
    by (auto simp: take_handoff_def keeps_same intro!: keeps_bind keeps_other split: list.splits)
       (use keeps_move keeps_queues in blast)
qed

lemma keeps_take: "keeps_balance s (take_buffered s)"
  unfolding take_buffered_def by (intro keeps_bind keeps_pop keeps_refill keeps_same refl)

lemma keeps_give: "keeps_balance s (give_receiver rh ra q v s)"
  unfolding give_receiver_def
  by (rule keeps_bind, use keeps_deliver [of "on_chan (\<lambda>c. c\<lparr>ch_receivers := q\<rparr>) s" ra v] in
      \<open>simp add: keeps_queues\<close>) (simp add: keeps_other)

lemma keeps_trans: "keeps_balance s p \<Longrightarrow> keeps_balance (fst p) q \<Longrightarrow> keeps_balance s q"
  by (auto simp: keeps_balance_def)

lemma keeps_send_loop: "keeps_balance s (send_loop vs n hs s)"
proof (induction vs arbitrary: n hs s)
  case (Cons v vs)
  have g: "keeps_balance s (case p of
             (s1, Ret r) \<Rightarrow> send_loop vs (n + 1) (k r) s1
           | (s1, Throw x) \<Rightarrow> (s1, Throw x)
           | (s1, Undef) \<Rightarrow> (s1, Undef))" if "keeps_balance s p" for k and p :: "'a chan_state \<times> 'r res"
    using that Cons.IH by (cases p; cases "snd p") (auto simp: keeps_balance_def)
  show ?case
    using g [OF keeps_give] g [OF keeps_push] by (auto simp: keeps_other split: list.splits)
qed (simp add: keeps_same)

lemma keeps_receive_loop: "keeps_balance s (receive_loop m vs hs s)"
proof (induction m vs hs s rule: receive_loop.induct)
  case (1 m vs hs s)
  show ?case
  proof (cases "length vs < unat m \<and> (\<not> isEmpty (chan s) \<or> ch_senders (chan s) \<noteq> [])")
    case False
    then show ?thesis by (subst receive_loop.simps) (auto simp: keeps_same)
  next
    case True
    let ?p = "if isEmpty (chan s) then take_handoff s else take_buffered s"
    have "keeps_balance s ?p" by (simp add: keeps_handoff keeps_take)
    moreover have "receive_loop m vs hs s = (case ?p of
         (s1, Ret (v, ws)) \<Rightarrow> receive_loop m (vs @ [v]) (hs @ ws) s1
       | (s1, Throw x) \<Rightarrow> (s1, Throw x)
       | (s1, Undef) \<Rightarrow> (s1, Undef))"
      using True by (subst receive_loop.simps) auto
    ultimately show ?thesis using 1 True
      by (cases ?p; cases "snd ?p") (auto simp: keeps_balance_def split: if_splits)
  qed
qed

lemma keeps_close: "keeps_balance s (close_senders_loop q hs s)"
proof (induction q hs s rule: close_senders_loop.induct)
  case (2 h a q hs s)
  then show ?case by (auto simp: keeps_balance_def balance_def split: option.splits)
qed (simp add: keeps_same)

lemma keeps_returning: "keeps_balance s p \<Longrightarrow> keeps_balance s (returning f p)"
  unfolding returning_def by (rule keeps_bind) (auto simp: keeps_same)

lemma keeps_suspends:
  "keeps_balance s (sender_suspend_locked h a s)" "keeps_balance s (receiver_suspend_locked h a s)"
proof -
  have p: "keeps_balance s (on_chan (\<lambda>c. stats_add f (c\<lparr>ch_senders := x c\<rparr>)) s, r)"
    "keeps_balance s (on_chan (\<lambda>c. stats_add f (c\<lparr>ch_receivers := y c\<rparr>)) s, r)"
    if "\<And>c. buffer_pushes (f c) = buffer_pushes c \<and> buffer_pops (f c) = buffer_pops c"
    for f x y and r :: "'r res"
    using that by (auto simp: keeps_balance_def on_chan_def stats_add_def balance_def)
  have m: "keeps_balance s (move_sender_value b s)" "keeps_balance s (take_buffered s)"
    "keeps_balance s (take_handoff s)" for s :: "'b chan_state" and b
    by (simp_all add: keeps_move keeps_take keeps_handoff)
  have q: "keeps_balance s (on_chan (stats_add f) (s\<lparr>sas := t\<rparr>), r)"
    "keeps_balance s (on_chan (stats_add f) (s\<lparr>ras := u\<rparr>), r)"
    if "\<And>c. buffer_pushes (f c) = buffer_pushes c \<and> buffer_pops (f c) = buffer_pops c"
    for f t u and r :: "'r res"
    using that by (auto simp: keeps_balance_def on_chan_def stats_add_def balance_def)
  show "keeps_balance s (sender_suspend_locked h a s)"
    by (auto simp: sender_suspend_locked_def keeps_same p q
        intro!: keeps_bind m keeps_give keeps_push split: option.splits list.splits)
  show "keeps_balance s (receiver_suspend_locked h a s)"
    by (auto simp: receiver_suspend_locked_def keeps_same p q
        intro!: keeps_bind m keeps_deliver split: option.splits list.splits)
qed

lemma keeps_try:
  "keeps_balance s (try_send_locked v s)" "keeps_balance s (try_receive_locked s)"
  "keeps_balance s (try_send_many_locked vs s)" "keeps_balance s (try_receive_many_locked ms n s)"
  by (auto simp: try_send_locked_def try_receive_locked_def try_send_many_locked_def
      try_receive_many_locked_def keeps_same keeps_other keeps_send_loop
      intro!: keeps_bind keeps_give keeps_push keeps_take keeps_handoff keeps_receive_loop
      split: list.splits)

lemma keeps_close_locked: "keeps_balance s (close_locked s)"
proof -
  let ?s = "on_chan (\<lambda>c. stats_add (close_calls_update (\<lambda>n. n + 1)) (c\<lparr>ch_close := True\<rparr>)) s"
  have "keeps_balance s (?s, Ret ())"
    by (auto simp: keeps_balance_def on_chan_def stats_add_def balance_def)
  then have "keeps_balance s (close_senders_loop q [] ?s)" for q
    using keeps_trans keeps_close by fastforce
  then show ?thesis
    by (auto simp: close_locked_def Let_def keeps_same close_receivers_loop_ok intro!: keeps_bind)
       (auto simp: keeps_balance_def on_chan_def stats_add_def balance_def)
qed

text \<open>
  (C12) The statistics of the buffer balance: in a channel that keeps statistics, every
  call but \<open>reset_stats\<close>, in any state and whatever its outcome, changes pushes minus pops
  by exactly the change of \<open>count_\<close>, so that pushes minus pops is the number of buffered
  values of a channel whose counters were not reset.
\<close>

theorem stats_balance:
  assumes "c \<noteq> ResetStats" and "ch_stats_enabled (chan s)" and "exec c s = (s', r)"
  shows "balance (chan s') = balance (chan s)"
proof -
  have snd: "keeps_balance s (send v s)" for v by (simp add: send_def keeps_same keeps_other)
  have "keeps_balance s (exec c s)"
    using assms(1)
    by (cases c) (auto simp: keeps_returning keeps_suspends keeps_try keeps_close_locked keeps_same
        intro!: keeps_bind snd)
  then show ?thesis using assms(2,3) by (simp add: keeps_balance_def)
qed

theorem stats_balance_witness:
  "balance (chan (fst (exec (TrySendMany [1, 2]) demo_state))) = balance (chan demo_state)"
  by (rule stats_balance [where c = "TrySendMany [1, 2]" and r = "snd (exec (TrySendMany [1, 2]) demo_state)"])
     (simp_all add: demo_defs)

subsection \<open>On a worker thread\<close>

text \<open>
  \<open>close\<close> called by a coroutine on a worker thread puts all the coroutines it wakes at
  the end of that worker's task queue, senders before receivers, in the order they parked,
  and touches nothing of the channel after its critical section.
\<close>

lemma close_on_worker:
  assumes "is_worker w" and "chan_inv (obj w)" and "\<not> ch_close (chan (obj w))"
    and "\<forall>(h, a) \<in> set (ch_senders (chan (obj w)) @ ch_receivers (chan (obj w))). h \<noteq> null_handle"
  shows "snd (channel_close resume w) = Ret () \<and>
    obj (fst (channel_close resume w)) = fst (close_locked (obj w)) \<and>
    local_queue (fst (channel_close resume w)) =
      local_queue w @ map fst (ch_senders (chan (obj w))) @ map fst (ch_receivers (chan (obj w)))"
proof -
  let ?hs = "map fst (ch_senders (chan (obj w))) @ map fst (ch_receivers (chan (obj w)))"
  obtain s' where s': "close_locked (obj w) = (s', Ret ((), ?hs))"
    using close_follows [OF assms(2,3)] by (auto simp: a_close_def abs_chan_def case_prod_beta comp_def)
  have "filter (\<lambda>h. h \<noteq> null_handle) ?hs = ?hs" using assms(4) by (intro filter_True) auto
  with call_locked_worker [of w close_locked, OF assms(1) s', of resume] s' show ?thesis
    by (simp add: channel_close_def)
qed

end
