(* ===== verification/Channel_Batch.thy ===== *)
theory Channel_Batch
  imports Channel_Props
begin

text \<open>
  The batch methods of \<open>include/channel.h\<close> against the single ones: \<open>try_send_many\<close> is a loop
  of \<open>try_send\<close> under one lock, \<open>try_receive_many\<close> a loop of \<open>try_receive\<close> that stops when the
  channel has nothing to give. The statements are equations on the whole state, the
  statistics included, for any state whatever.
\<close>

subsection \<open>The loops of single calls\<close>

fun try_send_each :: "'a list \<Rightarrow> 'a chan_state \<Rightarrow> 'a chan_state \<times> (size_t \<times> handle list) res" where
  "try_send_each [] s = (s, Ret (0, []))"
| "try_send_each (v # vs) s =
     bind_res (try_send_locked v s)
       (\<lambda>s1 (sent, hs).
          if sent then bind_res (try_send_each vs s1) (\<lambda>s2 (n, ws). (s2, Ret (1 + n, hs @ ws)))
          else (s1, Ret (0, [])))"

definition nothing_there :: "'a chan_state \<Rightarrow> bool" where
  "nothing_there s \<longleftrightarrow> isEmpty (chan s) \<and> ch_senders (chan s) = []"

fun try_receive_each :: "nat \<Rightarrow> 'a chan_state \<Rightarrow> 'a chan_state \<times> ('a list \<times> handle list) res" where
  "try_receive_each 0 s = (s, Ret ([], []))"
| "try_receive_each (Suc k) s =
     (if nothing_there s then (s, Ret ([], []))
      else bind_res (try_receive_locked s)
        (\<lambda>s1 (v, hs).
           bind_res (try_receive_each k s1) (\<lambda>s2 (vs, ws). (s2, Ret (the v # vs, hs @ ws)))))"

subsection \<open>Sending\<close>

lemma ch_close_stats [simp]: "ch_close (stats_add f c) = ch_close c"
  by (simp add: stats_add_def)

lemma give_receiver_close:
  "give_receiver rh ra q v s = (s1, r) \<Longrightarrow> ch_close (chan s1) = ch_close (chan s)"
  by (auto simp: give_receiver_def deliver_def on_chan_def split: option.splits)

lemma push_value_close: "push_value v s = (s1, r) \<Longrightarrow> ch_close (chan s1) = ch_close (chan s)"
  by (auto simp: push_value_def buf_write_def split: if_splits res.splits)

lemma send_loop_each:
  "\<not> ch_close (chan s) \<Longrightarrow>
   send_loop vs sent hs s = bind_res (try_send_each vs s) (\<lambda>s1 (n, ws). (s1, Ret (sent + n, hs @ ws)))"
proof (induction vs arbitrary: sent hs s)
  case (Cons v vs)
  show ?case
  proof (cases "ch_receivers (chan s)")
    case Nil
    obtain s1 r where p: "push_value v s = (s1, r)" by (cases "push_value v s")
    note c = push_value_close [OF p]
    show ?thesis
      using Cons.prems Nil p Cons.IH [of s1] c
      by (cases r) (auto simp: try_send_locked_def bind_res_assoc case_prod_beta' add.assoc)
  next
    case (Cons w q)
    obtain rh ra where w: "w = (rh, ra)" by (cases w)
    obtain s1 r where p: "give_receiver rh ra q v s = (s1, r)" by (cases "give_receiver rh ra q v s")
    note c = give_receiver_close [OF p]
    show ?thesis
      using Cons.prems Cons w p Cons.IH [of s1] c
      by (cases r) (auto simp: try_send_locked_def bind_res_assoc case_prod_beta' add.assoc)
  qed
qed simp

lemma try_send_many_each: "try_send_many_locked xs s = try_send_each xs s"
proof (cases xs)
  case (Cons v vs)
  show ?thesis
  proof (cases "ch_close (chan s)")
    case True
    with Cons show ?thesis by (simp add: try_send_many_locked_def try_send_locked_def)
  next
    case False
    obtain s1 r where e: "try_send_each xs s = (s1, r)" by (cases "try_send_each xs s")
    have "send_loop xs 0 [] s = try_send_each xs s"
      using send_loop_each [OF False, of xs 0 "[]"] e by (cases r) (auto simp: case_prod_beta')
    with Cons False show ?thesis by (simp add: try_send_many_locked_def)
  qed
qed (simp add: try_send_many_locked_def)

subsection \<open>Receiving\<close>

lemma receive_loop_each:
  "receive_loop max_items values hs s =
     bind_res (try_receive_each (unat max_items - length values) s)
       (\<lambda>s1 (vs, ws). (s1, Ret (values @ vs, hs @ ws)))"
proof (induction "unat max_items - length values" arbitrary: "values" hs s)
  case 0
  then have "\<not> length values < unat max_items" by simp
  then show ?case by (simp add: receive_loop.simps 0 [symmetric])
next
  case (Suc k)
  then have l: "length values < unat max_items" by simp
  have k: "unat max_items - length (values @ [v]) = k" for v using Suc(2) by simp
  have IH: "receive_loop max_items (values @ [v]) (hs @ ws) t =
      bind_res (try_receive_each k t) (\<lambda>s1 (vs, us). (s1, Ret (values @ v # vs, hs @ ws @ us)))" for v ws t
    using Suc(1) [of "values @ [v]" "hs @ ws" t] k [of v] by simp
  show ?case
  proof (cases "nothing_there s")
    case True
    then show ?thesis using l by (simp add: receive_loop.simps nothing_there_def flip: Suc(2))
  next
    case False
    show ?thesis
    proof (cases "isEmpty (chan s)")
      case True
      obtain s1 r where p: "take_handoff s = (s1, r)" by (cases "take_handoff s")
      show ?thesis using l True False p IH unfolding Suc(2) [symmetric]
        by (cases r; subst receive_loop.simps)
          (auto simp: try_receive_locked_def nothing_there_def bind_res_assoc case_prod_beta')
    next
      case False
      obtain s1 r where p: "take_buffered s = (s1, r)" by (cases "take_buffered s")
      show ?thesis using l False p IH unfolding Suc(2) [symmetric]
        by (cases r; subst receive_loop.simps)
          (auto simp: try_receive_locked_def nothing_there_def bind_res_assoc case_prod_beta')
    qed
  qed
qed

lemma try_receive_each_some:
  "\<not> nothing_there s \<Longrightarrow> 0 < k \<Longrightarrow> try_receive_each k s = (s1, Ret (vs, ws)) \<Longrightarrow> vs \<noteq> []"
  by (cases k) (auto simp: bind_res_Ret_iff split: prod.splits)

lemma try_receive_many_each:
  assumes "max_items \<noteq> 0" and "max_items \<le> max_size"
  shows "try_receive_many_locked max_size max_items s =
    (if nothing_there s
     then bind_res (try_receive_locked s) (\<lambda>s1 (v, hs). (s1, Ret ([], hs)))
     else try_receive_each (unat max_items) s)"
proof -
  obtain s1 r where e: "try_receive_each (unat max_items) s = (s1, r)" by (cases "try_receive_each (unat max_items) s")
  have l: "receive_loop max_items [] [] s = try_receive_each (unat max_items) s"
    using receive_loop_each [of max_items "[]" "[]" s] e by (cases r) (auto simp: case_prod_beta')
  have p: "0 < unat max_items" using assms(1) by (simp add: unat_gt_0)
  show ?thesis
  proof (cases "nothing_there s")
    case True
    have "try_receive_each (unat max_items) s = (s, Ret ([], []))" using True p by (cases "unat max_items") simp_all
    with True assms l show ?thesis
      by (auto simp: try_receive_many_locked_def try_receive_locked_def nothing_there_def)
  next
    case False
    with assms l e p try_receive_each_some [OF False p, of s1] show ?thesis
      by (cases r) (auto simp: try_receive_many_locked_def)
  qed
qed

subsection \<open>Property\<close>

text \<open>
  (C10) A batch is its single calls: \<open>try_send_many\<close> has exactly the effect, the answer and
  the wakes of \<open>try_send\<close> on one value after the other until one is refused; an exception of
  the first call is its exception. \<open>try_receive_many\<close>, asked for a positive number the vector
  can hold, is \<open>try_receive\<close> while there is something to take, and on a channel with nothing
  to take a single \<open>try_receive\<close>, with its exception if the channel is closed.
\<close>

theorem batches_are_single_calls:
  assumes "max_items \<noteq> 0" and "max_items \<le> max_size"
  shows "try_send_many_locked xs s = try_send_each xs s \<and>
    try_receive_many_locked max_size max_items s =
      (if nothing_there s
       then bind_res (try_receive_locked s) (\<lambda>s1 (v, hs). (s1, Ret ([], hs)))
       else try_receive_each (unat max_items) s)"
  using try_send_many_each try_receive_many_each [OF assms] by blast

theorem batches_are_single_calls_witness:
  "try_send_many_locked [4, 5] demo_state = try_send_each [4, 5] demo_state \<and>
   try_receive_many_locked 100 3 demo_state = try_receive_each 3 demo_state"
  using batches_are_single_calls [of 3 100 "[4, 5]" demo_state]
  by (simp add: nothing_there_def demo_state_def)

end
