(* ===== verification/Channel_Waiters.thy ===== *)
theory Channel_Waiters
  imports Channel_Props
begin

text \<open>
  The coroutines that sleep in a channel (\<open>include/channel.h\<close>): over every execution they are
  woken once each, in the order in which they went to sleep.
\<close>

subsection \<open>Waiters\<close>

text \<open>Senders and receivers are never parked at the same time, so this is one queue.\<close>

definition waiters :: "'a achan \<Rightarrow> handle list" where
  "waiters q = map fst (a_parked q) @ map fst (a_waiting q)"

lemma waiters_abs: "waiters (abs_chan s) = map fst (ch_senders (chan s)) @ map fst (ch_receivers (chan s))"
  by (simp add: waiters_def abs_chan_def case_prod_beta' comp_def)

text \<open>The coroutine that a call put to sleep.\<close>

fun sleeps :: "'a call \<Rightarrow> 'a outcome \<Rightarrow> handle list" where
  "sleeps (SenderSuspend h a) (Suspend b) = (if b then [h] else [])"
| "sleeps (ReceiverSuspend h a) (Suspend b) = (if b then [h] else [])"
| "sleeps c x = []"

subsection \<open>Every call\<close>

lemma a_offer_waiters:
  assumes "a_inv q" and "a_offer v q = (q', vd, hs, ds)"
  shows "waiters q = hs @ waiters q'"
  using assms by (cases "a_parked q = []") (auto simp: a_offer_def waiters_def a_inv_def split: list.splits if_splits)

lemma a_send_waiters:
  assumes "a_inv q" and "a_send h a v q = (q', vd, hs, ds)"
  shows "waiters q @ (if vd = Suspends then [h] else []) = hs @ waiters q'"
proof -
  obtain q1 vd1 hs1 ds1 where o: "a_offer v q = (q1, vd1, hs1, ds1)" by (metis prod.exhaust)
  show ?thesis
  proof (cases "vd1 = Refused")
    case True
    with assms o show ?thesis using a_offer_pending(2,6) [OF assms(1) o] by (auto simp: a_send_def waiters_def)
  next
    case False
    then have "q' = q1" "vd = vd1" "hs = hs1" using assms(2) o by (cases vd1; simp add: a_send_def)+
    with a_offer_waiters [OF assms(1) o] a_offer_pending(5) [OF assms(1) o] show ?thesis by simp
  qed
qed

lemma a_take_waiters:
  assumes "a_inv q" and "a_take q = Some (q', v, hs)"
  shows "waiters q = hs @ waiters q'"
  using a_take_Some(2-4) [OF assms] by (cases "a_parked q") (simp_all add: waiters_def)

lemma a_receive_waiters:
  assumes "a_inv q" and "a_receive h a q = (q', vd, hs, ds)"
  shows "waiters q @ (if vd = Suspends then [h] else []) = hs @ waiters q'"
  using assms a_take_waiters [OF assms(1)]
  by (cases "a_take q") (auto simp: a_receive_def waiters_def split: if_splits)

lemma a_take_many_waiters:
  assumes "a_inv q" and "a_take_many n q = (q', vs, hs)"
  shows "waiters q = hs @ waiters q'"
proof -
  have "a_parked q = take n (a_parked q) @ drop n (a_parked q)" by simp
  then have "map fst (a_parked q) = map fst (take n (a_parked q)) @ map fst (drop n (a_parked q))" by (metis map_append)
  with a_take_many_closed [OF assms] show ?thesis by (simp add: waiters_def)
qed

lemma try_send_many_waiters:
  assumes inv: "chan_inv s" and e: "try_send_many_locked vs s = (s', Ret (n, hs))"
  shows "waiters (abs_chan s) = hs @ waiters (abs_chan s')"
proof (cases "vs = [] \<or> ch_close (chan s)")
  case True
  with e show ?thesis by (auto simp: try_send_many_locked_def split: if_splits)
next
  case False
  let ?q = "abs_chan s"
  have a: "a_inv ?q" by (rule abs_inv [OF inv])
  obtain q n' ws ds where o: "a_offer_many vs ?q = (q, n', ws, ds)" by (metis prod.exhaust)
  have "map fst (a_waiting ?q) = map fst (take (length vs) (a_waiting ?q)) @ map fst (drop (length vs) (a_waiting ?q))"
    by (metis append_take_drop_id map_append)
  moreover have "a_parked ?q = [] \<or> a_waiting ?q = []" using a by (auto simp: a_inv_def)
  ultimately have "waiters ?q = ws @ waiters q"
    using a_offer_many_closed [OF a, of vs] o False by (auto simp: waiters_def)
  with send_loop_follows [OF inv _ o, of 0 "[]"] False e show ?thesis
    by (auto simp: try_send_many_locked_def follows_def)
qed

lemma exec_waiters:
  assumes inv: "chan_inv s" and en: "enabled c s" and e: "exec c s = (s', Ret (x, hs))"
  shows "waiters (abs_chan s) @ sleeps c x = hs @ waiters (abs_chan s')"
proof -
  note a = abs_inv [OF inv]
  show ?thesis
  proof (cases c)
    case (SenderSuspend h b)
    then obtain v where sa: "sas s b = Some \<lparr>sa_value = Holds v, sa_close = False\<rparr>"
      using en by (auto simp: fresh_sender_def elim: sender_okE)
    have np: "b \<notin> snd ` set (ch_senders (chan s))" using SenderSuspend en by (simp add: fresh_sender_def parked_sender_def)
    obtain q vd ws ds where o: "a_send h b v (abs_chan s) = (q, vd, ws, ds)" by (metis prod.exhaust)
    from sender_suspend_follows [OF inv sa np o] a_send_waiters [OF a o] e SenderSuspend show ?thesis
      by (auto simp: returning_def)
  next
    case (ReceiverSuspend h b)
    then have ra: "ras s b = Some \<lparr>ra_value = None\<rparr>" and np: "b \<notin> snd ` set (ch_receivers (chan s))"
      using en by (auto simp: fresh_receiver_def parked_receiver_def elim: receiver_okE)
    obtain q vd ws ds where o: "a_receive h b (abs_chan s) = (q, vd, ws, ds)" by (metis prod.exhaust)
    from receiver_suspend_follows [OF inv ra np o] a_receive_waiters [OF a o] e ReceiverSuspend show ?thesis
      by (auto simp: returning_def follows_def)
  next
    case (TrySend v)
    obtain q vd ws ds where o: "a_offer v (abs_chan s) = (q, vd, ws, ds)" by (metis prod.exhaust)
    from try_send_follows [OF inv o] a_offer_waiters [OF a o] e TrySend show ?thesis
      by (auto simp: returning_def follows_def split: if_splits)
  next
    case (TrySendMany vs)
    with e show ?thesis by (auto simp: returning_def bind_res_Ret_iff dest: try_send_many_waiters [OF inv])
  next
    case TryReceive
    with try_receive_follows [OF inv] a_take_waiters [OF a] e show ?thesis
      by (auto simp: returning_def follows_def split: option.splits if_splits)
  next
    case (TryReceiveMany m n)
    show ?thesis
    proof (cases "n = 0 \<or> n > m")
      case True
      with e TryReceiveMany show ?thesis by (auto simp: returning_def try_receive_many_locked_def split: if_splits)
    next
      case False
      obtain q vs ws where o: "a_take_many (unat n) (abs_chan s) = (q, vs, ws)" by (metis prod.exhaust)
      from try_receive_many_follows [OF inv _ _ o, of m] a_take_many_waiters [OF a o] False e TryReceiveMany show ?thesis
        by (auto simp: returning_def follows_def not_less split: if_splits)
    qed
  next
    case Close
    then have "\<not> ch_close (chan s)" using e by (auto simp: returning_def close_locked_def)
    from close_follows [OF inv this] Close e
    have "abs_chan s' = fst (a_close (abs_chan s))" "hs = snd (a_close (abs_chan s))" "sleeps c x = []"
      by (auto simp: returning_def)
    then show ?thesis by (simp only:) (simp add: a_close_def waiters_def)
  qed (use e in \<open>auto simp: waiters_abs send_def on_chan_def reset_stats_eq split: if_splits\<close>)
qed

subsection \<open>Executions\<close>

record 'a sleepers =
  sl_chan :: "'a chan_state"
  slept_log :: "handle list"
  woken_log :: "handle list"

inductive sleep_step :: "'a sleepers \<Rightarrow> 'a sleepers \<Rightarrow> bool" where
  sl_return: "enabled c (sl_chan s) \<Longrightarrow> exec c (sl_chan s) = (t, Ret (x, hs)) \<Longrightarrow>
    sleep_step s \<lparr>sl_chan = t, slept_log = slept_log s @ sleeps c x, woken_log = woken_log s @ hs\<rparr>"
| sl_throw: "enabled c (sl_chan s) \<Longrightarrow> exec c (sl_chan s) = (t, Throw e) \<Longrightarrow> sleep_step s (s\<lparr>sl_chan := t\<rparr>)"

definition sleep_init :: "'a sleepers \<Rightarrow> bool" where
  "sleep_init s \<longleftrightarrow>
     (\<exists>c. built c \<and> s = \<lparr>sl_chan = \<lparr>chan = c, sas = (\<lambda>_. None), ras = (\<lambda>_. None)\<rparr>, slept_log = [], woken_log = []\<rparr>)"

definition sleep_inv :: "'a sleepers \<Rightarrow> bool" where
  "sleep_inv s \<longleftrightarrow> chan_inv (sl_chan s) \<and> slept_log s = woken_log s @ waiters (abs_chan (sl_chan s))"

interpretation sleeping: invariant_system sleep_init sleep_step sleep_inv
proof
  show "sleep_inv s" if i: "sleep_init s" for s :: "'a sleepers"
  proof -
    from i obtain c where c: "built c" "s = \<lparr>sl_chan = \<lparr>chan = c, sas = (\<lambda>_. None), ras = (\<lambda>_. None)\<rparr>, slept_log = [], woken_log = []\<rparr>"
      by (auto simp: sleep_init_def)
    have "fifo_inv \<lparr>cs = \<lparr>chan = c, sas = (\<lambda>_. None), ras = (\<lambda>_. None)\<rparr>, sent_log = [], got_log = [], away_log = []\<rparr>"
      by (rule init_fifo [OF c(1)]) (simp add: chan_init_def)
    with c built_ring [OF c(1)] show ?thesis by (simp add: sleep_inv_def fifo_inv_def waiters_abs)
  qed
  show "sleep_inv t" if s: "sleep_inv s" and st: "sleep_step s t" for s t :: "'a sleepers"
    using st
  proof cases
    case (sl_return c t' x hs)
    have "conserves c (sl_chan s)" using s sl_return(2) by (simp add: sleep_inv_def exec_conserves)
    then have "chan_inv t'" using sl_return(3) by (simp add: conserves_def)
    with s sl_return exec_waiters [OF _ sl_return(2,3)] show ?thesis by (simp add: sleep_inv_def)
  next
    case (sl_throw c t' e)
    have "conserves c (sl_chan s)" using s sl_throw(2) by (simp add: sleep_inv_def exec_conserves)
    with s sl_throw show ?thesis by (simp add: sleep_inv_def conserves_def)
  qed
qed

subsection \<open>Property\<close>

text \<open>
  (C5) In every execution of any number of threads over a channel, the coroutines that went
  to sleep in it, in that order, are those it has woken, in that order, and then those that
  still sleep: none is lost, none is woken twice, none overtakes another, and after
  \<open>close\<close> none sleeps.
\<close>

theorem channel_wakes_in_order:
  assumes "reach sleep_init sleep_step s"
  shows "slept_log s = woken_log s @ map fst (ch_senders (chan (sl_chan s))) @ map fst (ch_receivers (chan (sl_chan s))) \<and>
    (ch_close (chan (sl_chan s)) \<longrightarrow> slept_log s = woken_log s)"
  using sleeping.reach_inv [OF assms] by (auto simp: sleep_inv_def waiters_abs chan_inv_defs Let_def)

theorem channel_wakes_in_order_witness:
  "\<exists>s :: nat sleepers. reach sleep_init sleep_step s \<and> slept_log s = [4] \<and> woken_log s = [4]"
proof -
  let ?c = "channel_default False :: nat channel"
  let ?s0 = "\<lparr>sl_chan = \<lparr>chan = ?c, sas = (\<lambda>_. None), ras = (\<lambda>_. None)\<rparr>, slept_log = [], woken_log = []\<rparr>"
  let ?s1 = "?s0\<lparr>sl_chan := \<lparr>chan = ?c, sas = (\<lambda>_. None), ras = [8 \<mapsto> receive]\<rparr>\<rparr>"
  let ?s2 = "\<lparr>sl_chan = \<lparr>chan = ?c\<lparr>ch_receivers := [(4, 8)]\<rparr>, sas = (\<lambda>_. None), ras = [8 \<mapsto> receive]\<rparr>, slept_log = [4], woken_log = []\<rparr>"
  let ?s3 = "\<lparr>sl_chan = \<lparr>chan = ?c, sas = (\<lambda>_. None), ras = [8 \<mapsto> \<lparr>ra_value = Some 3\<rparr>]\<rparr>, slept_log = [4], woken_log = [4]\<rparr>"
  have "reach sleep_init sleep_step ?s0" by (rule reach_init) (auto simp: sleep_init_def intro: built_default)
  moreover have "sleep_step ?s0 ?s1" using sl_return [of "CallReceive 8" ?s0] by simp
  moreover have "sleep_step ?s1 ?s2"
    using sl_return [of "ReceiverSuspend 4 8" ?s1]
    by (simp add: fresh_receiver_def receiver_ok_def parked_receiver_def receive_def channel_default_def returning_def
        receiver_suspend_locked_def isEmpty_def isFull_def on_chan_def stats_add_def)
  moreover have "sleep_step ?s2 ?s3"
    using sl_return [of "TrySend 3" ?s2]
    by (simp add: channel_default_def returning_def try_send_locked_def give_receiver_def deliver_def receive_def
        isEmpty_def isFull_def on_chan_def stats_add_def)
  ultimately have r: "reach sleep_init sleep_step ?s3" by (blast intro: reach_step)
  from channel_wakes_in_order [OF r] r show ?thesis by (intro exI [of _ ?s3]) simp
qed

end
