(* ===== verification/Engine_Props.thy ===== *)
theory Engine_Props
  imports Engine
begin

text \<open>
  What the engine guarantees. Taking a batch splits the task queue at its front; a poll
  moves every operation forward exactly once and keeps the in-flight counter equal to the
  number of operations the engine still owes a resumption; a worker may stop only when
  nothing is left, and never sleeps while there is something to do.

  Documented behaviour of liburing that the poll relies on is the hypothesis
  \<open>uring_ok\<close>. It speaks about two observations of a ring: \<open>sq\<close>, the user data of the
  entries acquired and not yet submitted, and \<open>outst\<close>, the user data of the entries
  submitted and not yet reaped.
\<close>

subsection \<open>Batches\<close>

lemma pop_loop_eq:
  "pop_loop n out e =
     (e\<lparr>task_queue := drop (unat n - length out) (task_queue e)\<rparr>,
      out @ take (unat n - length out) (task_queue e))"
proof (induction n out e rule: pop_loop.induct)
  case (1 n out e)
  show ?case
  proof (cases "task_queue e")
    case Nil
    then show ?thesis by (simp add: pop_loop.simps [of n out e])
  next
    case (Cons h hs)
    show ?thesis
    proof (cases "length out < unat n")
      case True
      then have "unat n - length out = Suc (unat n - Suc (length out))" by simp
      with 1 [OF Cons True] Cons True show ?thesis
        by (simp add: pop_loop.simps [of n out e])
    qed (simp add: pop_loop.simps [of n out e] Cons)
  qed
qed

lemma pop_batch_eq:
  assumes "task_queue e \<noteq> []" and "n \<noteq> 0"
  shows "pop_batch out n e =
     (e\<lparr>task_queue := drop (unat n) (task_queue e)\<rparr>, take (unat n) (task_queue e),
      of_nat (min (length (task_queue e)) (unat n)))"
  using assms by (simp add: pop_batch_def pop_loop_eq)

subsection \<open>The phases of a poll\<close>

definition get_sqe_ok ::
  "'u liburing \<Rightarrow> ('u \<Rightarrow> uint64 list) \<Rightarrow> ('u \<Rightarrow> uint64 multiset) \<Rightarrow> nat \<Rightarrow> 'u \<Rightarrow> bool" where
  "get_sqe_ok L sq outst entries u \<longleftrightarrow>
     (length (sq u) < entries \<longrightarrow>
        (\<exists>u1 sqe. io_uring_get_sqe L u = (u1, Some sqe) \<and>
          (\<forall>fd buf n off ud.
             (let ur = sqe_set_user_data L sqe ud (io_uring_prep_read L sqe fd buf n off u1)
              in sq ur = sq u @ [ud] \<and> outst ur = outst u) \<and>
             (let uw = sqe_set_user_data L sqe ud (io_uring_prep_write L sqe fd buf n off u1)
              in sq uw = sq u @ [ud] \<and> outst uw = outst u))))"

definition submit_ok ::
  "'u liburing \<Rightarrow> ('u \<Rightarrow> uint64 list) \<Rightarrow> ('u \<Rightarrow> uint64 multiset) \<Rightarrow> 'u \<Rightarrow> bool" where
  "submit_ok L sq outst u \<longleftrightarrow>
     (sq u \<noteq> [] \<longrightarrow>
        (\<exists>u1 n. io_uring_submit L u = (u1, n) \<and> 0 < sint n \<and> nat (sint n) \<le> length (sq u) \<and>
          sq u1 = drop (nat (sint n)) (sq u) \<and>
          outst u1 = outst u + mset (take (nat (sint n)) (sq u))))"

definition peek_ok ::
  "'u liburing \<Rightarrow> ('u \<Rightarrow> uint64 list) \<Rightarrow> ('u \<Rightarrow> uint64 multiset) \<Rightarrow> 'u \<Rightarrow> bool" where
  "peek_ok L sq outst u \<longleftrightarrow>
     (\<exists>u1 ret p. io_uring_peek_cqe L u = (u1, ret, p) \<and> sq u1 = sq u \<and> outst u1 = outst u \<and>
        (sint ret < 0 \<longrightarrow> ret = - EAGAIN) \<and>
        (\<forall>c. 0 \<le> sint ret \<longrightarrow> p = Some c \<longrightarrow>
           cqe_user_data c \<in># outst u \<and> sq (io_uring_cqe_seen L c u1) = sq u \<and>
           outst (io_uring_cqe_seen L c u1) = outst u - {#cqe_user_data c#}))"

definition uring_ok ::
  "'u liburing \<Rightarrow> ('u \<Rightarrow> uint64 list) \<Rightarrow> ('u \<Rightarrow> uint64 multiset) \<Rightarrow> nat \<Rightarrow> bool" where
  "uring_ok L sq outst entries \<longleftrightarrow>
     (\<forall>u. get_sqe_ok L sq outst entries u \<and> submit_ok L sq outst u \<and> peek_ok L sq outst u)"

lemma uring_okD_read:
  assumes "uring_ok L sq outst entries" and "length (sq u) < entries"
  obtains u' where "submit_read L fd buf len off ud u = (u', Ret ())"
    and "sq u' = sq u @ [ud]" and "outst u' = outst u"
proof -
  from assms(1) have "get_sqe_ok L sq outst entries u" by (simp add: uring_ok_def)
  with assms(2) obtain u1 sqe where g: "io_uring_get_sqe L u = (u1, Some sqe)"
    and p: "\<forall>fd buf n off ud.
       sq (sqe_set_user_data L sqe ud (io_uring_prep_read L sqe fd buf n off u1)) = sq u @ [ud] \<and>
       outst (sqe_set_user_data L sqe ud (io_uring_prep_read L sqe fd buf n off u1)) = outst u"
    unfolding get_sqe_ok_def Let_def by blast
  show thesis
    by (rule that [of "sqe_set_user_data L sqe ud (io_uring_prep_read L sqe fd buf (ucast len) off u1)"])
       (simp_all add: submit_read_def g p)
qed

lemma uring_okD_write:
  assumes "uring_ok L sq outst entries" and "length (sq u) < entries"
  obtains u' where "submit_write L fd buf len off ud u = (u', Ret ())"
    and "sq u' = sq u @ [ud]" and "outst u' = outst u"
proof -
  from assms(1) have "get_sqe_ok L sq outst entries u" by (simp add: uring_ok_def)
  with assms(2) obtain u1 sqe where g: "io_uring_get_sqe L u = (u1, Some sqe)"
    and p: "\<forall>fd buf n off ud.
       sq (sqe_set_user_data L sqe ud (io_uring_prep_write L sqe fd buf n off u1)) = sq u @ [ud] \<and>
       outst (sqe_set_user_data L sqe ud (io_uring_prep_write L sqe fd buf n off u1)) = outst u"
    unfolding get_sqe_ok_def Let_def by blast
  show thesis
    by (rule that [of "sqe_set_user_data L sqe ud (io_uring_prep_write L sqe fd buf (ucast len) off u1)"])
       (simp_all add: submit_write_def g p)
qed

lemma uring_okD_submit:
  assumes "uring_ok L sq outst entries" and "sq u \<noteq> []"
  obtains u' n where "submit L u = (u', n)" and "0 < sint n"
    and "nat (sint n) \<le> length (sq u)" and "sq u' = drop (nat (sint n)) (sq u)"
    and "outst u' = outst u + mset (take (nat (sint n)) (sq u))"
  using assms unfolding uring_ok_def submit_ok_def submit_def by meson

lemma uring_okD_peek:
  assumes "uring_ok L sq outst entries"
  obtains (none) u' where "try_wait_one L u = (u', Ret None)"
      and "sq u' = sq u" and "outst u' = outst u"
  | (some) u' info where "try_wait_one L u = (u', Ret (Some info))"
      and "sq u' = sq u" and "user_data info \<in># outst u"
      and "outst u' = outst u - {#user_data info#}"
proof -
  obtain u1 ret p where pk: "io_uring_peek_cqe L u = (u1, ret, p)" "sq u1 = sq u" "outst u1 = outst u"
    and neg: "sint ret < 0 \<Longrightarrow> ret = - EAGAIN"
    and pos: "\<And>c. 0 \<le> sint ret \<Longrightarrow> p = Some c \<Longrightarrow>
           cqe_user_data c \<in># outst u \<and> sq (io_uring_cqe_seen L c u1) = sq u \<and>
           outst (io_uring_cqe_seen L c u1) = outst u - {#cqe_user_data c#}"
    using assms unfolding uring_ok_def peek_ok_def by metis
  show thesis
  proof (cases "sint ret < 0 \<or> p = None")
    case True
    with pk neg have "try_wait_one L u = (u1, Ret None)"
      by (auto simp: try_wait_one_def)
    with pk show thesis by (blast intro: none)
  next
    case False
    then obtain c where "p = Some c" "0 \<le> sint ret" by auto
    with pk pos show thesis
      by (intro some [of "io_uring_cqe_seen L c u1"
            "\<lparr>user_data = cqe_user_data c, result = cqe_res c\<rparr>"])
         (auto simp: try_wait_one_def)
  qed
qed

lemma poll_waiting_eq:
  assumes "progressed \<le> max_n"
    and "k = min (unat max_n - unat progressed) (length (io_waiting_queue e))"
  shows "poll_waiting max_n progressed e =
     (e\<lparr>task_queue := task_queue e @ take k (io_waiting_queue e),
        io_waiting_queue := drop k (io_waiting_queue e),
        inflight_io := inflight_io e - of_nat k\<rparr>, progressed + of_nat k)"
  using assms
proof (induction max_n progressed e arbitrary: k rule: poll_waiting.induct)
  case (1 max_n progressed e)
  show ?case
  proof (cases "io_waiting_queue e")
    case Nil
    with 1 show ?thesis by (simp add: poll_waiting.simps [of max_n progressed e])
  next
    case (Cons h hs)
    show ?thesis
    proof (cases "progressed < max_n")
      case True
      then have "progressed + 1 \<le> max_n" and "unat (progressed + 1) = Suc (unat progressed)"
        by (simp_all add: inc_le unat_inc)
      moreover have "k = Suc (min (unat max_n - Suc (unat progressed)) (length hs))"
        using 1(3) Cons True by (simp add: word_less_nat_alt)
      ultimately show ?thesis
        using 1(1) [OF Cons True, of "k - 1"] Cons True
        by (simp add: poll_waiting.simps [of max_n progressed e] on_io_inflight_end_def
            algebra_simps)
    next
      case False
      with 1(2) have "progressed = max_n" by simp
      with 1(3) Cons show ?thesis
        by (cases e) (simp add: poll_waiting.simps)
    qed
  qed
qed

lemma poll_reads_eq:
  assumes ok: "uring_ok L sq outst entries"
    and "prepared \<le> max_n"
    and "k = min (unat max_n - unat prepared) (length (io_read_submit_queue e))"
    and "length (sq (uring e)) + k \<le> entries"
    and "set (io_read_submit_queue e) \<subseteq> dom m"
  shows "\<exists>u'. poll_reads L m max_n prepared e =
       (e\<lparr>io_read_submit_queue := drop k (io_read_submit_queue e), uring := u',
          pending_submit_count := pending_submit_count e + of_nat k\<rparr>, Ret (prepared + of_nat k)) \<and>
     sq u' = sq (uring e) @ take k (io_read_submit_queue e) \<and> outst u' = outst (uring e)"
  using assms(2-)
proof (induction k arbitrary: e prepared)
  case 0
  then have "io_read_submit_queue e = [] \<or> \<not> prepared < max_n"
    by (auto simp: word_less_nat_alt min_def split: if_splits)
  then show ?case
    by (intro exI [of _ "uring e"]) (cases e; auto simp: poll_reads.simps split: list.splits)
next
  case (Suc k)
  then obtain a as where q: "io_read_submit_queue e = a # as"
    by (cases "io_read_submit_queue e") auto
  from Suc.prems have lt: "prepared < max_n" by (auto simp: word_less_nat_alt)
  from Suc.prems q obtain aw where aw: "m a = Some aw" by auto
  from Suc.prems have "length (sq (uring e)) < entries" by simp
  from uring_okD_read [OF ok this] obtain u1
    where u1: "submit_read L (aw_fd aw) (aw_buf aw) (aw_len aw) (aw_offset aw) a (uring e) = (u1, Ret ())"
      "sq u1 = sq (uring e) @ [a]" "outst u1 = outst (uring e)" by blast
  let ?e = "e\<lparr>io_read_submit_queue := as, uring := u1,
               pending_submit_count := pending_submit_count e + 1\<rparr>"
  have step: "poll_reads L m max_n prepared e = poll_reads L m max_n (prepared + 1) ?e"
    by (subst poll_reads.simps) (simp add: q lt aw prep_read_step_def u1)
  have "prepared + 1 \<le> max_n" and inc: "unat (prepared + 1) = Suc (unat prepared)"
    using lt by (simp_all add: inc_le unat_inc)
  moreover have "k = min (unat max_n - unat (prepared + 1)) (length as)"
    using Suc.prems(2) unfolding q inc by simp
  ultimately obtain u' where "poll_reads L m max_n (prepared + 1) ?e =
       (?e\<lparr>io_read_submit_queue := drop k as, uring := u',
           pending_submit_count := pending_submit_count ?e + of_nat k\<rparr>,
        Ret (prepared + 1 + of_nat k))"
    "sq u' = sq u1 @ take k as" "outst u' = outst u1"
    using Suc.IH [of "prepared + 1" ?e] Suc.prems(3,4) q u1 by auto
  then show ?case
    by (intro exI [of _ u']) (simp add: step q u1 algebra_simps)
qed

lemma poll_writes_eq:
  assumes ok: "uring_ok L sq outst entries"
    and "prepared \<le> max_n"
    and "k = min (unat max_n - unat prepared) (length (io_write_submit_queue e))"
    and "length (sq (uring e)) + k \<le> entries"
    and "set (io_write_submit_queue e) \<subseteq> dom m"
  shows "\<exists>u'. poll_writes L m max_n prepared e =
       (e\<lparr>io_write_submit_queue := drop k (io_write_submit_queue e), uring := u',
          pending_submit_count := pending_submit_count e + of_nat k\<rparr>, Ret (prepared + of_nat k)) \<and>
     sq u' = sq (uring e) @ take k (io_write_submit_queue e) \<and> outst u' = outst (uring e)"
  using assms(2-)
proof (induction k arbitrary: e prepared)
  case 0
  then have "io_write_submit_queue e = [] \<or> \<not> prepared < max_n"
    by (auto simp: word_less_nat_alt min_def split: if_splits)
  then show ?case
    by (intro exI [of _ "uring e"]) (cases e; auto simp: poll_writes.simps split: list.splits)
next
  case (Suc k)
  then obtain a as where q: "io_write_submit_queue e = a # as"
    by (cases "io_write_submit_queue e") auto
  from Suc.prems have lt: "prepared < max_n" by (auto simp: word_less_nat_alt)
  from Suc.prems q obtain aw where aw: "m a = Some aw" by auto
  from Suc.prems have "length (sq (uring e)) < entries" by simp
  from uring_okD_write [OF ok this] obtain u1
    where u1: "submit_write L (aw_fd aw) (aw_buf aw) (aw_len aw) (aw_offset aw) a (uring e) = (u1, Ret ())"
      "sq u1 = sq (uring e) @ [a]" "outst u1 = outst (uring e)" by blast
  let ?e = "e\<lparr>io_write_submit_queue := as, uring := u1,
               pending_submit_count := pending_submit_count e + 1\<rparr>"
  have step: "poll_writes L m max_n prepared e = poll_writes L m max_n (prepared + 1) ?e"
    by (subst poll_writes.simps) (simp add: q lt aw prep_write_step_def u1)
  have "prepared + 1 \<le> max_n" and inc: "unat (prepared + 1) = Suc (unat prepared)"
    using lt by (simp_all add: inc_le unat_inc)
  moreover have "k = min (unat max_n - unat (prepared + 1)) (length as)"
    using Suc.prems(2) unfolding q inc by simp
  ultimately obtain u' where "poll_writes L m max_n (prepared + 1) ?e =
       (?e\<lparr>io_write_submit_queue := drop k as, uring := u',
           pending_submit_count := pending_submit_count ?e + of_nat k\<rparr>,
        Ret (prepared + 1 + of_nat k))"
    "sq u' = sq u1 @ take k as" "outst u' = outst u1"
    using Suc.IH [of "prepared + 1" ?e] Suc.prems(3,4) q u1 by auto
  then show ?case
    by (intro exI [of _ u']) (simp add: step q u1 algebra_simps)
qed

lemma poll_submit_eq:
  assumes ok: "uring_ok L sq outst entries" and "entries < 2 ^ 31"
    and "length (sq (uring e)) \<le> entries"
    and "pending_submit_count e = of_nat (length (sq (uring e)))"
  shows "\<exists>u'. poll_submit L progressed e =
       (e\<lparr>uring := u', pending_submit_count := 0\<rparr>, Ret (progressed + pending_submit_count e)) \<and>
     sq u' = [] \<and> outst u' = outst (uring e) + mset (sq (uring e))"
  using assms(2-)
proof (induction "length (sq (uring e))" arbitrary: e progressed rule: less_induct)
  case less
  let ?q = "sq (uring e)"
  have pend: "unat (pending_submit_count e) = length ?q"
    using less.prems by (simp add: unat_of_nat)
  show ?case
  proof (cases "?q = []")
    case True
    with less.prems show ?thesis
      by (intro exI [of _ "uring e"]) (cases e; simp add: poll_submit.simps)
  next
    case False
    from uring_okD_submit [OF ok this] obtain u1 n where n: "submit L (uring e) = (u1, n)"
      "0 < sint n" "nat (sint n) \<le> length ?q" "sq u1 = drop (nat (sint n)) ?q"
      "outst u1 = outst (uring e) + mset (take (nat (sint n)) ?q)" by blast
    let ?n = "size_of_int n"
    have un: "unat ?n = nat (sint n)" using n by (simp add: unat_size_of_int)
    let ?e = "e\<lparr>uring := u1, pending_submit_count := pending_submit_count e - ?n\<rparr>"
    have le: "?n \<le> pending_submit_count e" using n un pend by (simp add: word_le_nat_alt)
    have step: "poll_submit L progressed e = poll_submit L (progressed + ?n) ?e"
      using n le False pend
      by (subst poll_submit.simps) (auto simp: Let_def word_less_nat_alt word_le_nat_alt)
    have "unat (pending_submit_count e - ?n) = length (sq u1)"
      using un pend n by (simp add: unat_sub [OF le])
    then have pe: "pending_submit_count ?e = of_nat (length (sq (uring ?e)))"
      by (simp del: of_nat_diff) (metis of_nat_unat ucast_id)
    have "length (sq (uring ?e)) < length ?q" "length (sq (uring ?e)) \<le> entries"
      using n False less.prems by auto
    from less.hyps [OF this(1) less.prems(1) this(2) pe, of "progressed + ?n"]
    obtain u' where "poll_submit L (progressed + ?n) ?e =
         (?e\<lparr>uring := u', pending_submit_count := 0\<rparr>,
          Ret (progressed + ?n + pending_submit_count ?e))"
      "sq u' = []" "outst u' = outst u1 + mset (sq u1)" by auto
    moreover have "mset (take (nat (sint n)) ?q) + mset (drop (nat (sint n)) ?q) = mset ?q"
      by (metis append_take_drop_id mset_append)
    ultimately show ?thesis using n by (auto simp: step)
  qed
qed

definition complete_all :: "IoInfo list \<Rightarrow> io_mem \<Rightarrow> io_mem" where
  "complete_all infos m = fold (\<lambda>i. set_result (user_data i) (result i)) infos m"

lemma set_result_dom [simp]: "dom (set_result a r m) = dom m"
  by (auto simp: set_result_def split: option.splits)

lemma set_result_handle:
  "map_option aw_handle (set_result a r m b) = map_option aw_handle (m b)"
  by (auto simp: set_result_def split: option.splits)

text \<open>What the ring hands out to a worker that asks up to \<open>k\<close> times, until it has nothing.\<close>

fun reap :: "'u liburing \<Rightarrow> nat \<Rightarrow> 'u \<Rightarrow> IoInfo list" where
  "reap L 0 u = []"
| "reap L (Suc k) u =
     (case try_wait_one L u of (u1, Ret (Some info)) \<Rightarrow> info # reap L k u1 | _ \<Rightarrow> [])"

lemma poll_complete_eq:
  assumes ok: "uring_ok L sq outst entries"
    and "set_mset (outst (uring e)) \<subseteq> dom m" and "completed \<le> max_n"
  shows "\<exists>infos u'. poll_complete L max_n completed (e, m) =
       ((e\<lparr>uring := u',
           task_queue := task_queue e @ map (\<lambda>i. the (map_option aw_handle (m (user_data i)))) infos,
           inflight_io := inflight_io e - of_nat (length infos)\<rparr>, complete_all infos m),
        Ret (completed + of_nat (length infos))) \<and>
     length infos \<le> unat max_n - unat completed \<and> sq u' = sq (uring e) \<and>
     outst (uring e) = mset (map user_data infos) + outst u' \<and>
     reap L (unat max_n - unat completed) (uring e) = infos"
  using assms(2-)
proof (induction "unat max_n - unat completed" arbitrary: e m completed)
  case 0
  then have "\<not> completed < max_n" by (simp add: word_less_nat_alt)
  then show ?case
    by (intro exI [of _ "[]"] exI [of _ "uring e"])
       (use 0(1) in \<open>cases e; simp add: poll_complete.simps complete_all_def\<close>)
next
  case (Suc d)
  then have lt: "completed < max_n" by (simp add: word_less_nat_alt)
  then have inc: "completed + 1 \<le> max_n" "unat (completed + 1) = Suc (unat completed)"
    by (simp_all add: inc_le unat_inc)
  from ok show ?case
  proof (cases rule: uring_okD_peek [where u = "uring e"])
    case (none u')
    then show ?thesis
      by (intro exI [of _ "[]"] exI [of _ u'])
         (cases e; simp add: poll_complete.simps lt complete_all_def flip: Suc.hyps(2))
  next
    case (some u' info)
    with Suc.prems obtain aw where aw: "m (user_data info) = Some aw" by auto
    let ?e = "on_io_inflight_end 1 (e\<lparr>uring := u', task_queue := task_queue e @ [aw_handle aw]\<rparr>)"
    let ?m = "set_result (user_data info) (result info) m"
    have step: "poll_complete L max_n completed (e, m) = poll_complete L max_n (completed + 1) (?e, ?m)"
      by (subst poll_complete.simps) (simp add: lt some aw)
    have "set_mset (outst (uring ?e)) \<subseteq> dom ?m"
      using Suc.prems some by (auto simp: on_io_inflight_end_def dest: in_diffD)
    moreover have "d = unat max_n - unat (completed + 1)" using Suc.hyps(2) inc by simp
    ultimately obtain infos u'' where IH:
      "poll_complete L max_n (completed + 1) (?e, ?m) =
         ((?e\<lparr>uring := u'', task_queue := task_queue ?e @
              map (\<lambda>i. the (map_option aw_handle (m (user_data i)))) infos,
             inflight_io := inflight_io ?e - of_nat (length infos)\<rparr>, complete_all infos ?m),
          Ret (completed + 1 + of_nat (length infos)))"
      "length infos \<le> unat max_n - unat (completed + 1)" "sq u'' = sq (uring ?e)"
      "outst (uring ?e) = mset (map user_data infos) + outst u''"
      "reap L (unat max_n - unat (completed + 1)) (uring ?e) = infos"
      using Suc.hyps(1) [of "completed + 1" ?e ?m] inc
      by (auto simp: set_result_handle)
    have "outst (uring e) = mset (map user_data (info # infos)) + outst u''"
      using IH(4) insert_DiffM [OF some(3)] some(4) by (simp add: on_io_inflight_end_def)
    moreover have "unat max_n - Suc (unat completed) = d" using Suc.hyps(2) by simp
    then have "reap L (unat max_n - unat completed) (uring e) = info # infos"
      using IH(5) some(1) inc(2) by (simp add: on_io_inflight_end_def flip: Suc.hyps(2))
    ultimately show ?thesis
      using IH(1-3) inc some aw Suc.hyps(2)
      by (intro exI [of _ "info # infos"] exI [of _ u''])
         (auto simp: step on_io_inflight_end_def complete_all_def algebra_simps)
  qed
qed

subsection \<open>A whole poll\<close>

text \<open>
  The operations the engine still owes: their addresses, from submission to the moment
  their completion is reaped.
\<close>

definition io_addrs :: "('u \<Rightarrow> uint64 list) \<Rightarrow> ('u \<Rightarrow> uint64 multiset) \<Rightarrow> 'u engine \<Rightarrow> addr multiset" where
  "io_addrs sq outst e =
     mset (io_read_submit_queue e) + mset (io_write_submit_queue e) +
     mset (sq (uring e)) + outst (uring e)"

definition io_inv ::
  "('u \<Rightarrow> uint64 list) \<Rightarrow> ('u \<Rightarrow> uint64 multiset) \<Rightarrow> 'u engine \<times> io_mem \<Rightarrow> bool" where
  "io_inv sq outst em \<longleftrightarrow>
     (let (e, m) = em in
      inflight_io e = of_nat (length (io_waiting_queue e) + size (io_addrs sq outst e)) \<and>
      pending_submit_count e = 0 \<and> sq (uring e) = [] \<and>
      set_mset (io_addrs sq outst e) \<subseteq> dom m)"

lemma io_inv_new: "sq u = [] \<Longrightarrow> outst u = {#} \<Longrightarrow> io_inv sq outst (new_engine u, m)"
  by (simp add: io_inv_def new_engine_def io_addrs_def)

lemma io_inv_submit_task: "io_inv sq outst (e, m) \<Longrightarrow> io_inv sq outst (engine_submit_task h e, m)"
  by (simp add: io_inv_def io_addrs_def engine_submit_task_def notify_cv_def)

lemma io_inv_submit_io_waiting:
  "io_inv sq outst (e, m) \<Longrightarrow> io_inv sq outst (engine_submit_io_waiting h e, m)"
  by (simp add: io_inv_def io_addrs_def engine_submit_io_waiting_def notify_cv_def
      on_io_inflight_begin_def)

lemma io_inv_submit_io_read:
  "io_inv sq outst (e, m) \<Longrightarrow> a \<in> dom m \<Longrightarrow> io_inv sq outst (engine_submit_io_read a e, m)"
  by (auto simp: io_inv_def io_addrs_def engine_submit_io_read_def notify_cv_def
      on_io_inflight_begin_def)

lemma io_inv_submit_io_write:
  "io_inv sq outst (e, m) \<Longrightarrow> a \<in> dom m \<Longrightarrow> io_inv sq outst (engine_submit_io_write a e, m)"
  by (auto simp: io_inv_def io_addrs_def engine_submit_io_write_def notify_cv_def
      on_io_inflight_begin_def)

lemmas io_inv_ops =
  io_inv_submit_task io_inv_submit_io_waiting io_inv_submit_io_read io_inv_submit_io_write

lemma complete_all_dom [simp]: "dom (complete_all infos m) = dom m"
  unfolding complete_all_def by (induction infos arbitrary: m) auto

definition reads_taken :: "size_t \<Rightarrow> 'u engine \<Rightarrow> nat" where
  "reads_taken max_n e = min (unat max_n) (length (io_read_submit_queue e))"

definition writes_taken :: "size_t \<Rightarrow> 'u engine \<Rightarrow> nat" where
  "writes_taken max_n e =
     min (unat max_n - reads_taken max_n e) (length (io_write_submit_queue e))"

lemma prepare_and_submit_eq:
  assumes ok: "uring_ok L sq outst entries" and ent: "entries < 2 ^ 31"
    and mx: "unat max_n \<le> entries"
    and sub: "set (io_read_submit_queue e) \<subseteq> dom m" "set (io_write_submit_queue e) \<subseteq> dom m"
    and sq0: "sq (uring e) = []" and p0: "pending_submit_count e = 0"
    and kr: "kr = reads_taken max_n e" and kw: "kw = writes_taken max_n e"
  shows "\<exists>u'. bind_res (poll_reads L m max_n 0 e)
        (\<lambda>e2 prepared. bind_res (poll_writes L m max_n prepared e2) (\<lambda>e3 _. poll_submit L p e3)) =
      (e\<lparr>io_read_submit_queue := drop kr (io_read_submit_queue e),
         io_write_submit_queue := drop kw (io_write_submit_queue e), uring := u'\<rparr>,
       Ret (p + of_nat (kr + kw))) \<and>
     sq u' = [] \<and>
     outst u' = outst (uring e) + mset (take kr (io_read_submit_queue e)) +
       mset (take kw (io_write_submit_queue e))"
proof -
  have le: "kr \<le> unat max_n" "kr \<le> length (io_read_submit_queue e)" "kr + kw \<le> entries"
    using mx by (auto simp: kr kw reads_taken_def writes_taken_def)
  then have ukr: "unat (of_nat kr :: size_t) = kr" using ent by (simp add: unat_of_nat)
  obtain u2 where r: "poll_reads L m max_n 0 e =
       (e\<lparr>io_read_submit_queue := drop kr (io_read_submit_queue e), uring := u2,
            pending_submit_count := of_nat kr\<rparr>, Ret (of_nat kr))" (is "_ = (?e2, _)")
    and u2: "sq u2 = take kr (io_read_submit_queue e)" "outst u2 = outst (uring e)"
    using poll_reads_eq [OF ok, of 0 max_n kr e m] sub sq0 p0 le kr
    by (auto simp: reads_taken_def)
  have "kw = min (unat max_n - unat (of_nat kr :: size_t)) (length (io_write_submit_queue ?e2))"
    unfolding ukr by (simp add: kw kr writes_taken_def)
  from poll_writes_eq [OF ok _ this, of m] obtain u3 where wr: "poll_writes L m max_n (of_nat kr) ?e2 =
       (?e2\<lparr>io_write_submit_queue := drop kw (io_write_submit_queue e), uring := u3,
            pending_submit_count := of_nat (kr + kw)\<rparr>, Ret (of_nat kr + of_nat kw))"
      (is "_ = (?e3, _)")
    and u3: "sq u3 = take kr (io_read_submit_queue e) @ take kw (io_write_submit_queue e)"
      "outst u3 = outst (uring e)"
    using sub u2 le ukr by (auto simp: word_le_nat_alt min_absorb2)
  have l3: "length (sq u3) = kr + kw"
    using u3 by (auto simp: kr kw reads_taken_def writes_taken_def)
  obtain u4 where su: "poll_submit L p ?e3 =
       (?e3\<lparr>uring := u4, pending_submit_count := 0\<rparr>, Ret (p + of_nat (kr + kw)))"
    and u4: "sq u4 = []" "outst u4 = outst (uring e) +
       mset (take kr (io_read_submit_queue e) @ take kw (io_write_submit_queue e))"
    using poll_submit_eq [OF ok ent, of ?e3 p] l3 le u3 by auto
  have "?e3\<lparr>uring := u4, pending_submit_count := 0\<rparr> =
      e\<lparr>io_read_submit_queue := drop kr (io_read_submit_queue e),
         io_write_submit_queue := drop kw (io_write_submit_queue e), uring := u4\<rparr>"
    using p0 by (cases e) simp
  with r wr su u4 show ?thesis by (intro exI [of _ u4]) simp
qed

lemma io_addrs_split:
  assumes "sq (uring e) = []" and "sq u4 = []" and "sq u5 = []"
    and "outst u4 = outst (uring e) + mset (take kr (io_read_submit_queue e)) +
           mset (take kw (io_write_submit_queue e))"
    and "outst u4 = mset (map user_data infos) + outst u5"
    and "uring e' = u5" "io_read_submit_queue e' = drop kr (io_read_submit_queue e)"
      "io_write_submit_queue e' = drop kw (io_write_submit_queue e)"
  shows "io_addrs sq outst e = mset (map user_data infos) + io_addrs sq outst e'"
proof -
  have "mset (io_read_submit_queue e) = mset (take kr (io_read_submit_queue e)) +
          mset (drop kr (io_read_submit_queue e))"
    and "mset (io_write_submit_queue e) = mset (take kw (io_write_submit_queue e)) +
          mset (drop kw (io_write_submit_queue e))"
    by (metis append_take_drop_id mset_append)+
  with assms show ?thesis by (simp add: io_addrs_def)
qed

text \<open>
  One poll of an engine whose invariant holds returns normally, keeps the invariant,
  resumes the handles that waited on the poll phase and those of the completed
  operations, and loses no operation: what was owed is what was completed together with
  what is still owed.
\<close>

lemma io_inv_after:
  assumes inv: "io_inv sq outst (e, m)" and addrs: "io_addrs sq outst e = mset (map user_data infos) + io_addrs sq outst e'"
    and "length (io_waiting_queue e) = k + length (io_waiting_queue e')"
    and "inflight_io e' = inflight_io e - of_nat k - of_nat (length infos)"
    and "pending_submit_count e' = 0" and "sq (uring e') = []"
  shows "io_inv sq outst (e', complete_all infos m)"
proof -
  have "size (io_addrs sq outst e) = length infos + size (io_addrs sq outst e')" by (simp add: addrs)
  moreover have "inflight_io e = of_nat (length (io_waiting_queue e) + size (io_addrs sq outst e))"
    using inv by (simp add: io_inv_def)
  ultimately have "inflight_io e' = of_nat (length (io_waiting_queue e') + size (io_addrs sq outst e'))"
    using assms(3,4) by simp
  then show ?thesis using inv addrs assms(5,6) by (simp add: io_inv_def)
qed

lemma poll_io_run:
  assumes ok: "uring_ok L sq outst entries" and ent: "entries < 2 ^ 31"
    and mx: "max_n \<noteq> 0" "unat max_n \<le> entries"
    and inv: "io_inv sq outst (e, m)"
  shows "\<exists>e' infos n. poll_io L max_n (e, m) = ((e', complete_all infos m), Ret n) \<and>
     io_inv sq outst (e', complete_all infos m) \<and> length infos \<le> unat max_n \<and>
     task_queue e' = task_queue e @ take (unat max_n) (io_waiting_queue e) @
       map (\<lambda>i. the (map_option aw_handle (m (user_data i)))) infos \<and>
     io_waiting_queue e' = drop (unat max_n) (io_waiting_queue e) \<and>
     io_addrs sq outst e = mset (map user_data infos) + io_addrs sq outst e' \<and>
     (\<exists>u. reap L (unat max_n) u = infos \<and> sq u = [])"
proof -
  define k where "k = min (unat max_n) (length (io_waiting_queue e))"
  have q: "take k (io_waiting_queue e) = take (unat max_n) (io_waiting_queue e)"
    "drop k (io_waiting_queue e) = drop (unat max_n) (io_waiting_queue e)"
    by (auto simp: k_def min_def)
  let ?e1 = "e\<lparr>task_queue := task_queue e @ take (unat max_n) (io_waiting_queue e),
        io_waiting_queue := drop (unat max_n) (io_waiting_queue e),
        inflight_io := inflight_io e - of_nat k\<rparr>"
  have w: "poll_waiting max_n 0 e = (?e1, of_nat k)"
    using poll_waiting_eq [of 0 max_n k e] q by (simp add: k_def)
  let ?kr = "reads_taken max_n ?e1" and ?kw = "writes_taken max_n ?e1"
  have pre: "set (io_read_submit_queue ?e1) \<subseteq> dom m" "set (io_write_submit_queue ?e1) \<subseteq> dom m"
      "sq (uring ?e1) = []" "pending_submit_count ?e1 = 0"
    and outm: "set_mset (outst (uring e)) \<subseteq> dom m" and sq0: "sq (uring e) = []"
    using inv by (auto simp: io_inv_def io_addrs_def)
  from prepare_and_submit_eq [OF ok ent mx(2) pre refl refl, of "of_nat k"]
  obtain u4 e4 n4 where ps: "bind_res (poll_reads L m max_n 0 ?e1)
        (\<lambda>e2 prepared. bind_res (poll_writes L m max_n prepared e2)
           (\<lambda>e3 _. poll_submit L (of_nat k) e3)) = (e4, Ret n4)"
    and e4: "e4 = ?e1\<lparr>io_read_submit_queue := drop ?kr (io_read_submit_queue e),
         io_write_submit_queue := drop ?kw (io_write_submit_queue e), uring := u4\<rparr>"
    and u4: "sq u4 = []" "outst u4 = outst (uring e) + mset (take ?kr (io_read_submit_queue e)) +
       mset (take ?kw (io_write_submit_queue e))" by auto
  have "set_mset (outst (uring e4)) \<subseteq> dom m"
    using u4 outm pre by (auto simp: e4 dest: in_set_takeD)
  from poll_complete_eq [OF ok this, of 0 max_n]
  obtain infos u5 e5 where c: "poll_complete L max_n 0 (e4, m) =
       ((e5, complete_all infos m), Ret (of_nat (length infos)))"
    and e5: "e5 = e4\<lparr>uring := u5,
           task_queue := task_queue e4 @ map (\<lambda>i. the (map_option aw_handle (m (user_data i)))) infos,
           inflight_io := inflight_io e4 - of_nat (length infos)\<rparr>"
    and u5: "length infos \<le> unat max_n" "sq u5 = []"
      "outst u4 = mset (map user_data infos) + outst u5" "reap L (unat max_n) u4 = infos"
    using u4 by (auto simp: e4)
  have addrs: "io_addrs sq outst e = mset (map user_data infos) + io_addrs sq outst e5"
    by (rule io_addrs_split [where sq = sq and outst = outst, OF sq0 u4(1) u5(2) u4(2) u5(3)])
       (simp_all add: e4 e5)
  have "io_inv sq outst (e5, complete_all infos m)"
    by (rule io_inv_after [OF inv addrs, of k]) (use pre(4) u5(2) in \<open>simp_all add: e4 e5 k_def\<close>)
  moreover have "\<exists>n. poll_io L max_n (e, m) = ((e5, complete_all infos m), Ret n)"
    using mx w ps c by (simp add: poll_io_def)
  moreover have "\<exists>u. reap L (unat max_n) u = infos \<and> sq u = []" using u5(4) u4(1) by blast
  moreover have "task_queue e5 = task_queue e @ take (unat max_n) (io_waiting_queue e) @
       map (\<lambda>i. the (map_option aw_handle (m (user_data i)))) infos"
    "io_waiting_queue e5 = drop (unat max_n) (io_waiting_queue e)" by (simp_all add: e4 e5)
  ultimately show ?thesis using addrs u5(1) by blast
qed

end
