(* ===== verification/Engine_Machine.thy ===== *)
theory Engine_Machine
  imports Engine_Props Step_System
begin

text \<open>
  An engine under arbitrary use by its worker and by the threads that submit to it, with
  the awaiters of pending operations alive until their completion is reaped, and the
  properties of the engine. The batch sizes are those of \<open>include/runtime/context.h\<close>; the
  ring has at least as many entries as a poll prepares (the constructor asks for 256).
\<close>

definition kProcessBatchSize :: size_t where
  "kProcessBatchSize = 64"

definition kIoPollBatchSize :: size_t where
  "kIoPollBatchSize = 64"

subsection \<open>Executions of an engine\<close>

inductive eng_step ::
  "'u liburing \<Rightarrow> ('u \<Rightarrow> uint64 list) \<Rightarrow> ('u \<Rightarrow> uint64 multiset) \<Rightarrow>
   'u engine \<times> io_mem \<Rightarrow> 'u engine \<times> io_mem \<Rightarrow> bool"
  for L sq outst where
  eng_task: "eng_step L sq outst (e, m) (engine_submit_task h e, m)"
| eng_waiting: "eng_step L sq outst (e, m) (engine_submit_io_waiting h e, m)"
| eng_read: "m a \<noteq> None \<Longrightarrow> eng_step L sq outst (e, m) (engine_submit_io_read a e, m)"
| eng_write: "m a \<noteq> None \<Longrightarrow> eng_step L sq outst (e, m) (engine_submit_io_write a e, m)"
| eng_poll: "eng_step L sq outst (e, m) (fst (poll_io L kIoPollBatchSize (e, m)))"
| eng_pop: "eng_step L sq outst (e, m) (fst (pop_batch out kProcessBatchSize e), m)"
| eng_pop_one: "eng_step L sq outst (e, m) (fst (try_pop_task e), m)"
| eng_begin: "eng_step L sq outst (e, m) (on_task_resume_begin e, m)"
| eng_end: "eng_step L sq outst (e, m) (on_task_resume_end e, m)"
| eng_wait: "eng_step L sq outst (e, m) (wait_for_work_or_stop b e, m)"
| eng_notify: "eng_step L sq outst (e, m) (engine_notify_all e, m)"
| eng_awaiter: "m a = None \<Longrightarrow> eng_step L sq outst (e, m) (e, m(a \<mapsto> aw))"
| eng_drop: "a \<notin># io_addrs sq outst e \<Longrightarrow> eng_step L sq outst (e, m) (e, m(a := None))"

definition eng_init ::
  "('u \<Rightarrow> uint64 list) \<Rightarrow> ('u \<Rightarrow> uint64 multiset) \<Rightarrow> 'u engine \<times> io_mem \<Rightarrow> bool" where
  "eng_init sq outst em \<longleftrightarrow>
     (\<exists>u. sq u = [] \<and> outst u = {#} \<and> em = (new_engine u, \<lambda>_. None))"

lemma io_inv_same:
  assumes "io_inv sq outst (e, m)" and "io_waiting_queue e' = io_waiting_queue e"
    "io_read_submit_queue e' = io_read_submit_queue e" "io_write_submit_queue e' = io_write_submit_queue e"
    "uring e' = uring e" "pending_submit_count e' = pending_submit_count e" "inflight_io e' = inflight_io e"
  shows "io_inv sq outst (e', m)"
  using assms by (simp add: io_inv_def io_addrs_def)

lemma pop_batch_frame:
  "\<exists>q. fst (pop_batch out n e) = e\<lparr>task_queue := q\<rparr>"
proof (cases "task_queue e = [] \<or> n = 0")
  case True
  then have "fst (pop_batch out n e) = e\<lparr>task_queue := task_queue e\<rparr>"
    by (auto simp: pop_batch_def)
  then show ?thesis by blast
qed (use pop_batch_eq in fastforce)

lemma eng_step_inv:
  assumes ok: "uring_ok L sq outst entries" "64 \<le> entries" "entries < 2 ^ 31"
    and step: "eng_step L sq outst em em'" and inv: "io_inv sq outst em"
  shows "io_inv sq outst em'"
  using step inv
proof cases
  case (eng_poll e m)
  have n: "kIoPollBatchSize \<noteq> 0" "unat kIoPollBatchSize \<le> entries"
    using ok(2) by (simp_all add: kIoPollBatchSize_def)
  from poll_io_run [OF ok(1,3) n] inv eng_poll show ?thesis by force
next
  case (eng_pop e m out)
  obtain q where "fst (pop_batch out kProcessBatchSize e) = e\<lparr>task_queue := q\<rparr>"
    using pop_batch_frame by blast
  with inv eng_pop show ?thesis by (auto intro: io_inv_same)
next
  case (eng_pop_one e m)
  with inv show ?thesis
    by (auto simp: try_pop_task_def intro: io_inv_same split: list.splits)
next
  case (eng_awaiter m a e aw)
  with inv show ?thesis by (auto simp: io_inv_def)
next
  case (eng_drop a e m)
  with inv show ?thesis by (auto simp: io_inv_def)
qed (use inv in \<open>auto simp: on_task_resume_begin_def on_task_resume_end_def wait_for_work_or_stop_def
  engine_notify_all_def notify_cv_def intro: io_inv_ops io_inv_same\<close>)

text \<open>The ring the engine was given: large enough and behaving as documented.\<close>

definition ring_fits ::
  "'u liburing \<Rightarrow> ('u \<Rightarrow> uint64 list) \<Rightarrow> ('u \<Rightarrow> uint64 multiset) \<Rightarrow> nat \<Rightarrow> bool" where
  "ring_fits L sq outst entries \<longleftrightarrow>
     uring_ok L sq outst entries \<and> 64 \<le> entries \<and> entries < 2 ^ 31"

interpretation engine: invariant_system "eng_init sq outst" "eng_step L sq outst"
    "\<lambda>em. ring_fits L sq outst entries \<longrightarrow> io_inv sq outst em"
  by unfold_locales (auto simp: eng_init_def ring_fits_def intro: io_inv_new eng_step_inv)

subsection \<open>A ring to try them on\<close>

text \<open>Entries are submitted one at a time and complete in order with the result 5.\<close>

definition demo_uring :: "(uint64 list \<times> uint64 list) liburing" where
  "demo_uring =
     \<lparr>io_uring_queue_init = (\<lambda>_. (0, ([], []))),
      io_uring_get_sqe = (\<lambda>u. (u, Some 0)),
      io_uring_prep_read = (\<lambda>_ _ _ _ _ u. u),
      io_uring_prep_write = (\<lambda>_ _ _ _ _ u. u),
      sqe_set_user_data = (\<lambda>_ ud (s, c). (s @ [ud], c)),
      io_uring_submit = (\<lambda>(s, c). case s of [] \<Rightarrow> ((s, c), 0) | x # xs \<Rightarrow> ((xs, c @ [x]), 1)),
      io_uring_wait_cqe = (\<lambda>u. (u, 0, \<lparr>cqe_user_data = hd (snd u), cqe_res = 5\<rparr>)),
      io_uring_peek_cqe = (\<lambda>(s, c). case c of [] \<Rightarrow> ((s, c), - 11, None)
         | x # xs \<Rightarrow> ((s, c), 0, Some \<lparr>cqe_user_data = x, cqe_res = 5\<rparr>)),
      io_uring_cqe_seen = (\<lambda>_ (s, c). (s, tl c))\<rparr>"

lemma demo_uring_ok: "uring_ok demo_uring fst (mset \<circ> snd) 256"
  by (auto simp: uring_ok_def get_sqe_ok_def submit_ok_def peek_ok_def demo_uring_def EAGAIN_def
      Let_def split: list.splits)

lemma demo_ring_fits: "ring_fits demo_uring fst (mset \<circ> snd) 256"
  using demo_uring_ok by (simp add: ring_fits_def)

subsection \<open>Properties\<close>

definition demo_awaiter :: io_awaiter where
  "demo_awaiter = \<lparr>aw_fd = 3, aw_buf = 4096, aw_len = 16, aw_offset = 0, aw_result = 0, aw_handle = 42\<rparr>"

definition demo_engine :: "(uint64 list \<times> uint64 list) engine" where
  "demo_engine = engine_submit_io_waiting 9 (engine_submit_io_read 8 (engine_submit_task 7 (new_engine ([], []))))"

lemma demo_engine_reach:
  "reach (eng_init fst (mset \<circ> snd)) (eng_step demo_uring fst (mset \<circ> snd)) (demo_engine, [8 \<mapsto> demo_awaiter])"
proof -
  have "reach (eng_init fst (mset \<circ> snd)) (eng_step demo_uring fst (mset \<circ> snd))
      (new_engine ([], []), \<lambda>_. None)"
    by (rule reach_init) (simp add: eng_init_def)
  then have "reach (eng_init fst (mset \<circ> snd)) (eng_step demo_uring fst (mset \<circ> snd))
      (new_engine ([], []), [8 \<mapsto> demo_awaiter])"
    by (rule reach_step) (rule eng_awaiter, simp)
  then have "reach (eng_init fst (mset \<circ> snd)) (eng_step demo_uring fst (mset \<circ> snd))
      (engine_submit_task 7 (new_engine ([], [])), [8 \<mapsto> demo_awaiter])"
    by (rule reach_step) (rule eng_task)
  then have "reach (eng_init fst (mset \<circ> snd)) (eng_step demo_uring fst (mset \<circ> snd))
      (engine_submit_io_read 8 (engine_submit_task 7 (new_engine ([], []))), [8 \<mapsto> demo_awaiter])"
    by (rule reach_step) (rule eng_read, simp)
  then show ?thesis unfolding demo_engine_def by (rule reach_step) (rule eng_waiting)
qed

lemma owed_zero:
  assumes "io_inv sq outst (e, m)" and "length (io_waiting_queue e) + size (io_addrs sq outst e) < 2 ^ 64"
    and "inflight_io e = 0"
  shows "io_waiting_queue e = []" and "io_addrs sq outst e = {#}"
proof -
  have "(of_nat (length (io_waiting_queue e) + size (io_addrs sq outst e)) :: size_t) = 0"
    using assms(1,3) by (simp add: io_inv_def del: of_nat_add)
  then have "length (io_waiting_queue e) + size (io_addrs sq outst e) = 0"
    using assms(2) of_nat_eq_0_size_t by blast
  then show "io_waiting_queue e = []" and "io_addrs sq outst e = {#}" by simp_all
qed



text \<open>
  (C15) Stopping loses nothing: in any reachable state in which \<open>can_stop\<close> allows the
  worker to leave, stop was requested, no task is queued or running, and no operation is
  queued, prepared or in flight.
\<close>

theorem can_stop_leaves_nothing_behind:
  assumes "ring_fits L sq outst entries" and "reach (eng_init sq outst) (eng_step L sq outst) (e, m)"
    and "length (io_waiting_queue e) + size (io_addrs sq outst e) < 2 ^ 64"
    and "can_stop stop_requested e"
  shows "stop_requested \<and> engine_empty e \<and> inflight_tasks e = 0 \<and> io_addrs sq outst e = {#}"
proof -
  have inv: "io_inv sq outst (e, m)" using engine.reach_inv [OF assms(2)] assms(1) by blast
  have "inflight_io e = 0" and "stop_requested \<and> engine_empty e \<and> inflight_tasks e = 0"
    using assms(4) by (auto simp: can_stop_def engine_empty_def split: if_splits)
  with owed_zero [OF inv assms(3)] show ?thesis by blast
qed

theorem can_stop_leaves_nothing_behind_witness:
  "io_addrs fst (mset \<circ> snd) (new_engine ([], [])) = {#}"
proof -
  have "reach (eng_init fst (mset \<circ> snd)) (eng_step demo_uring fst (mset \<circ> snd))
      (new_engine ([], []), \<lambda>_. None)"
    by (rule reach_init) (simp add: eng_init_def)
  from can_stop_leaves_nothing_behind [OF demo_ring_fits this, of True] show ?thesis
    by (simp add: new_engine_def io_addrs_def can_stop_def)
qed

text \<open>
  (C16) A worker goes to sleep only when there is nothing for it to do: in any reachable
  state in which the wait blocks, stop was not requested, every queue is empty and no
  operation is owed; and each way of giving it work ends the wait.
\<close>

theorem worker_sleeps_only_when_idle:
  assumes "ring_fits L sq outst entries" and "reach (eng_init sq outst) (eng_step L sq outst) (e, m)"
    and "length (io_waiting_queue e) + size (io_addrs sq outst e) < 2 ^ 64"
    and "cv_waiting (wait_for_work_or_stop stop_requested e)" and "a \<noteq> 0"
  shows "\<not> stop_requested \<and> engine_empty e \<and> io_addrs sq outst e = {#} \<and>
    (\<forall>f \<in> {engine_submit_task h, engine_submit_io_waiting h, engine_submit_io_read a,
            engine_submit_io_write a, engine_notify_all}.
       \<not> cv_waiting (f (wait_for_work_or_stop stop_requested e)))"
proof -
  have inv: "io_inv sq outst (e, m)" using engine.reach_inv [OF assms(2)] assms(1) by blast
  have "inflight_io e = 0" and "\<not> stop_requested \<and> engine_empty e"
    using assms(4) by (auto simp: wait_for_work_or_stop_def wait_pred_def engine_empty_def)
  with owed_zero [OF inv assms(3)] assms(5) show ?thesis
    by (auto simp: engine_submit_task_def engine_submit_io_waiting_def engine_submit_io_read_def
        engine_submit_io_write_def engine_notify_all_def notify_cv_def Let_def)
qed

theorem worker_sleeps_only_when_idle_witness:
  "cv_waiting (wait_for_work_or_stop False (new_engine ([], []))) \<and>
   \<not> cv_waiting (engine_submit_task 7 (wait_for_work_or_stop False (new_engine ([] :: uint64 list, [] :: uint64 list))))"
proof -
  have "reach (eng_init fst (mset \<circ> snd)) (eng_step demo_uring fst (mset \<circ> snd))
      (new_engine ([], []), \<lambda>_. None)"
    by (rule reach_init) (simp add: eng_init_def)
  from worker_sleeps_only_when_idle [OF demo_ring_fits this, of False 1 7] show ?thesis
    by (simp add: new_engine_def io_addrs_def wait_for_work_or_stop_def wait_pred_def)
qed

text \<open>
  \<open>pop_batch\<close> splits the task queue at its front: what it puts in the caller's
  vector followed by what stays is the old queue, at most \<open>max_n\<close> handles are taken and
  all of them if they fit, the count returned is theirs; an empty queue or a zero bound
  leaves queue and vector alone.
\<close>

lemma pop_batch_takes_the_front:
  "(case pop_batch out max_n e of (e', out', n) \<Rightarrow>
     if task_queue e = [] \<or> max_n = 0 then e' = e \<and> out' = out \<and> n = 0
     else out' @ task_queue e' = task_queue e \<and>
       length out' = min (length (task_queue e)) (unat max_n) \<and> unat n = length out' \<and>
       e' = e\<lparr>task_queue := task_queue e'\<rparr>)"
proof (cases "task_queue e = [] \<or> max_n = 0")
  case False
  have "min (length (task_queue e)) (unat max_n) < 2 ^ 64"
    using unsigned_less [where ?'a = nat, of max_n] by (simp add: min_less_iff_disj)
  then have "unat (of_nat (min (length (task_queue e)) (unat max_n)) :: size_t) =
      min (length (task_queue e)) (unat max_n)"
    by (simp add: unat_of_nat)
  with False show ?thesis by (simp add: pop_batch_eq)
qed (auto simp: pop_batch_def)

end
