(* ===== verification/Context.thy ===== *)
theory Context
  imports Runtime Engine_Machine
begin

text \<open>
  The worker of \<open>Context\<close> (\<open>include/runtime/context.h\<close>, \<open>src/runtime/context.cpp\<close>): its
  batches of tasks, its polls, and one round of its loop. The callback
  \<open>on_task_completed\<close> is the constructor's argument, as in the source; \<open>resume\<close> is
  \<open>handle.resume()\<close>, which may not come back (\<open>None\<close>) and may end in undefined behaviour.
  Positions in the loop are the values of \<open>round\<close>.
\<close>

subsection \<open>Operations\<close>

type_synonym ('u, 'v, 's) resumption =
  "handle \<Rightarrow> ('u, 'v, 's) world \<Rightarrow> (('u, 'v, 's) world \<times> unit res) option"

text \<open>One handle of the batch.\<close>

definition process_handle ::
  "('u, 'v, 's) resumption \<Rightarrow> (('u, 'v, 's) world \<Rightarrow> ('u, 'v, 's) world) \<Rightarrow> nat \<Rightarrow> handle \<Rightarrow>
   ('u, 'v, 's) world \<Rightarrow> (('u, 'v, 's) world \<times> unit res) option" where
  "process_handle resume on_task_completed c h w =
     (case resume h (on_engine c on_task_resume_begin w) of
        None \<Rightarrow> None
      | Some p \<Rightarrow> Some
          (bind_res p (\<lambda>w1 _.
             let w2 = on_engine c on_task_resume_end w1 in
             case handle_done h (frames w2) of
               Ret True \<Rightarrow> bind_res (world_destroy h w2) (\<lambda>w3 _. (on_task_completed w3, Ret ()))
             | Ret False \<Rightarrow> (w2, Ret ())
             | Throw x \<Rightarrow> (w2, Throw x)
             | Undef \<Rightarrow> (w2, Undef))))"

fun process_batch ::
  "('u, 'v, 's) resumption \<Rightarrow> (('u, 'v, 's) world \<Rightarrow> ('u, 'v, 's) world) \<Rightarrow> nat \<Rightarrow> handle list \<Rightarrow>
   ('u, 'v, 's) world \<Rightarrow> (('u, 'v, 's) world \<times> unit res) option" where
  "process_batch resume completed c [] w = Some (w, Ret ())"
| "process_batch resume completed c (h # hs) w =
     (case process_handle resume completed c h w of
        None \<Rightarrow> None
      | Some (w1, Ret _) \<Rightarrow> process_batch resume completed c hs w1
      | Some (w1, Throw x) \<Rightarrow> Some (w1, Throw x)
      | Some (w1, Undef) \<Rightarrow> Some (w1, Undef))"

definition process_work_once ::
  "('u, 'v, 's) resumption \<Rightarrow> (('u, 'v, 's) world \<Rightarrow> ('u, 'v, 's) world) \<Rightarrow> nat \<Rightarrow>
   ('u, 'v, 's) world \<Rightarrow> (('u, 'v, 's) world \<times> bool res) option" where
  "process_work_once resume completed c w =
     (let (e, work_batch, popped) = pop_batch [] kProcessBatchSize (engines w c);
          w1 = on_engine c (\<lambda>_. e) w in
      if popped = 0 then Some (w1, Ret False)
      else map_option (\<lambda>p. bind_res p (\<lambda>w2 _. (w2, Ret True))) (process_batch resume completed c work_batch w1))"

definition poll_io_once ::
  "'u liburing \<Rightarrow> nat \<Rightarrow> ('u, 'v, 's) world \<Rightarrow> ('u, 'v, 's) world \<times> bool res" where
  "poll_io_once L c w =
     (case poll_io L kIoPollBatchSize (engines w c, io_store w) of
        ((e, m), r) \<Rightarrow>
          bind_res (on_engine c (\<lambda>_. e) (w\<lparr>io_store := m\<rparr>), r) (\<lambda>w1 n. (w1, Ret (0 < n))))"

definition wait_or_idle :: "bool \<Rightarrow> nat \<Rightarrow> ('u, 'v, 's) world \<Rightarrow> ('u, 'v, 's) world" where
  "wait_or_idle stop_requested c w = on_engine c (wait_for_work_or_stop stop_requested) w"

text \<open>
  One round of \<open>run\<close>: \<open>Again\<close> after work or a poll that made progress, \<open>Leave\<close> when the
  worker may stop, \<open>Idle\<close> after the wait. The two ends of \<open>run\<close> set and clear the
  thread-local pointer.
\<close>

datatype round = Again | Leave | Idle

definition run_round ::
  "'u liburing \<Rightarrow> ('u, 'v, 's) resumption \<Rightarrow> (('u, 'v, 's) world \<Rightarrow> ('u, 'v, 's) world) \<Rightarrow> bool \<Rightarrow> nat \<Rightarrow>
   ('u, 'v, 's) world \<Rightarrow> (('u, 'v, 's) world \<times> round res) option" where
  "run_round L resume completed stop_requested c w =
     (case process_work_once resume completed c w of
        None \<Rightarrow> None
      | Some p \<Rightarrow> Some
          (bind_res p (\<lambda>w1 worked.
             if worked then (w1, Ret Again)
             else bind_res (poll_io_once L c w1) (\<lambda>w2 polled.
               if polled then (w2, Ret Again)
               else if can_stop stop_requested (engines w2 c) then (w2, Ret Leave)
               else (wait_or_idle stop_requested c w2, Ret Idle)))))"

definition run_begin :: "nat \<Rightarrow> ('u, 'v, 's) world \<Rightarrow> ('u, 'v, 's) world" where
  "run_begin c w = w\<lparr>local_context_ptr := Some c\<rparr>"

definition run_finish :: "('u, 'v, 's) world \<Rightarrow> ('u, 'v, 's) world" where
  "run_finish w = w\<lparr>local_context_ptr := None\<rparr>"

text \<open>
  \<open>run\<close> as a whole, with the stop token as it stands: rounds until one leaves. \<open>None\<close> stands
  for a run that has not come back within the given number of rounds; an idle round goes on
  as soon as its wait ends.
\<close>

fun run_rounds ::
  "'u liburing \<Rightarrow> ('u, 'v, 's) resumption \<Rightarrow> (('u, 'v, 's) world \<Rightarrow> ('u, 'v, 's) world) \<Rightarrow> bool \<Rightarrow> nat \<Rightarrow>
   nat \<Rightarrow> ('u, 'v, 's) world \<Rightarrow> (('u, 'v, 's) world \<times> unit res) option" where
  "run_rounds L resume completed stop_requested c 0 w = None"
| "run_rounds L resume completed stop_requested c (Suc k) w =
     (case run_round L resume completed stop_requested c w of
        None \<Rightarrow> None
      | Some (w1, Ret Leave) \<Rightarrow> Some (w1, Ret ())
      | Some (w1, Ret Again) \<Rightarrow> run_rounds L resume completed stop_requested c k w1
      | Some (w1, Ret Idle) \<Rightarrow>
          if cv_waiting (engines w1 c) then None
          else run_rounds L resume completed stop_requested c k w1
      | Some (w1, Throw x) \<Rightarrow> Some (w1, Throw x)
      | Some (w1, Undef) \<Rightarrow> Some (w1, Undef))"

definition context_run ::
  "'u liburing \<Rightarrow> ('u, 'v, 's) resumption \<Rightarrow> (('u, 'v, 's) world \<Rightarrow> ('u, 'v, 's) world) \<Rightarrow> bool \<Rightarrow> nat \<Rightarrow>
   nat \<Rightarrow> ('u, 'v, 's) world \<Rightarrow> (('u, 'v, 's) world \<times> unit res) option" where
  "context_run L resume completed stop_requested c k w =
     map_option (\<lambda>p. bind_res p (\<lambda>w1 _. (run_finish w1, Ret ())))
       (run_rounds L resume completed stop_requested c k (run_begin c w))"

end
