(* ===== verification/Io_Round_Trip.thy ===== *)
theory Io_Round_Trip
  imports Context
begin

text \<open>
  An awaited read or write from \<open>co_await\<close> to its result: the awaiter
  (\<open>include/runtime/io_awaiter.h\<close>) registers with the worker's engine, the engine submits it
  and reaps its completion, the coroutine is queued and reads the result.
\<close>

subsection \<open>An operation on its way\<close>

definition awaited ::
  "('u \<Rightarrow> uint64 list) \<Rightarrow> ('u \<Rightarrow> uint64 multiset) \<Rightarrow> addr \<Rightarrow> handle \<Rightarrow> 'u engine \<times> io_mem \<Rightarrow> bool" where
  "awaited sq outst a h em \<longleftrightarrow>
     count (io_addrs sq outst (fst em)) a = 1 \<and> map_option aw_handle (snd em a) = Some h"

text \<open>
  Anything the engine may do meanwhile: other submissions, polls and pops, as long as the
  operation is owed and its awaiter is not submitted a second time.
\<close>

definition meanwhile ::
  "'u liburing \<Rightarrow> ('u \<Rightarrow> uint64 list) \<Rightarrow> ('u \<Rightarrow> uint64 multiset) \<Rightarrow> addr \<Rightarrow>
   'u engine \<times> io_mem \<Rightarrow> 'u engine \<times> io_mem \<Rightarrow> bool" where
  "meanwhile L sq outst a s t \<longleftrightarrow> eng_step L sq outst s t \<and> count (io_addrs sq outst (fst t)) a = 1"

lemma complete_all_handle: "map_option aw_handle (complete_all infos m a) = map_option aw_handle (m a)"
  by (induction infos arbitrary: m) (simp_all add: complete_all_def set_result_handle)

lemma complete_all_other: "a \<notin> user_data ` set infos \<Longrightarrow> complete_all infos m a = m a"
  by (induction infos arbitrary: m) (auto simp: complete_all_def set_result_def split: option.splits)

lemma complete_all_append: "complete_all (is @ js) m = complete_all js (complete_all is m)"
  by (simp add: complete_all_def)

text \<open>A completed awaiter holds the result of its completion.\<close>

lemma complete_all_result:
  assumes "infos = pre @ i # post" and "user_data i \<notin> user_data ` set post" and "m (user_data i) \<noteq> None"
  shows "map_option aw_result (complete_all infos m (user_data i)) = Some (result i)"
proof -
  have "complete_all pre m (user_data i) \<noteq> None" using complete_all_handle [of pre m "user_data i"] assms(3) by auto
  moreover have "complete_all infos m (user_data i) =
      set_result (user_data i) (result i) (complete_all pre m) (user_data i)"
    using complete_all_other [OF assms(2)] by (simp add: assms(1) complete_all_append) (simp add: complete_all_def)
  ultimately show ?thesis by (auto simp: set_result_def)
qed

lemma meanwhile_awaited:
  assumes fits: "ring_fits L sq outst entries" and inv: "io_inv sq outst s"
    and step: "meanwhile L sq outst a s t" and aw: "awaited sq outst a h s"
  shows "awaited sq outst a h t" and "io_inv sq outst t"
proof -
  have e: "eng_step L sq outst s t" and c: "count (io_addrs sq outst (fst t)) a = 1"
    using step by (simp_all add: meanwhile_def)
  show i: "io_inv sq outst t" using eng_step_inv [OF _ _ _ e inv] fits by (auto simp: ring_fits_def)
  have "map_option aw_handle (snd t a) = map_option aw_handle (snd s a)"
    using e
  proof cases
    case (eng_poll e m)
    have n: "kIoPollBatchSize \<noteq> 0" "unat kIoPollBatchSize \<le> entries"
      using fits by (simp_all add: kIoPollBatchSize_def ring_fits_def)
    from poll_io_run [OF _ _ n, of L sq outst e m] fits inv eng_poll show ?thesis
      by (auto simp: ring_fits_def complete_all_handle)
  next
    case (eng_awaiter m b e x)
    then show ?thesis using aw by (auto simp: awaited_def)
  next
    case (eng_drop b e m)
    then show ?thesis using c by (auto simp: not_in_iff)
  qed simp_all
  with c aw show "awaited sq outst a h t" by (simp add: awaited_def)
qed

lemma steps_awaited:
  assumes "ring_fits L sq outst entries"
  shows "steps (meanwhile L sq outst a) s t \<Longrightarrow> io_inv sq outst s \<Longrightarrow> awaited sq outst a h s \<Longrightarrow>
    awaited sq outst a h t \<and> io_inv sq outst t"
  by (induction rule: steps.induct) (use meanwhile_awaited [OF assms] in blast)+

text \<open>Registering: the awaiter stores the handle and joins the queue of its engine.\<close>

lemma suspend_awaited:
  assumes "suspend = io_read_await_suspend \<or> suspend = io_write_await_suspend"
    and "local_context_ptr w = Some c" and "a \<noteq> 0" and "io_store w a \<noteq> None"
    and "a \<notin># io_addrs sq outst (engines w c)" and "io_inv sq outst (engines w c, io_store w)"
    and "suspend a h w = (w1, b)"
  shows "b" and "awaited sq outst a h (engines w1 c, io_store w1)"
    and "io_inv sq outst (engines w1 c, io_store w1)"
proof -
  let ?m = "set_handle a h (io_store w)"
  have d: "dom ?m = dom (io_store w)" by (auto simp: set_handle_def split: if_splits)
  have i: "io_inv sq outst (engines w c, ?m)" using assms(6) by (simp add: io_inv_def d)
  have f: "b \<and> io_store w1 = ?m \<and>
      engines w1 c \<in> {engine_submit_io_read a (engines w c), engine_submit_io_write a (engines w c)}"
    using assms(1,2,7)
    by (auto simp: io_read_await_suspend_def io_write_await_suspend_def try_local_context_def
        context_submit_io_read_def context_submit_io_write_def on_engine_def)
  then show "b" by simp
  have "?m a \<noteq> None" using assms(4) d by auto
  with i have "io_inv sq outst (engine_submit_io_read a (engines w c), ?m)"
    "io_inv sq outst (engine_submit_io_write a (engines w c), ?m)" by (blast intro: io_inv_ops)+
  with f show "io_inv sq outst (engines w1 c, io_store w1)" by auto
  show "awaited sq outst a h (engines w1 c, io_store w1)"
    using f assms(3,4,5)
    by (auto simp: awaited_def io_addrs_def engine_submit_io_read_def engine_submit_io_write_def notify_cv_def
        on_io_inflight_begin_def not_in_iff set_handle_def)
qed

text \<open>A poll leaves an awaited operation owed, or takes its one completion.\<close>

lemma poll_awaited:
  assumes fits: "ring_fits L sq outst entries" and i: "io_inv sq outst (e, m)" and aw: "awaited sq outst a h (e, m)"
  shows "\<exists>e' m' n infos u. poll_io L kIoPollBatchSize (e, m) = ((e', m'), Ret n) \<and> reap L 64 u = infos \<and>
          (awaited sq outst a h (e', m') \<and> a \<notin> user_data ` set infos \<or>
           (\<exists>pre i post. infos = pre @ i # post \<and> user_data i = a \<and> a \<notin> user_data ` set (pre @ post) \<and>
              h \<in> set (drop (length (task_queue e)) (task_queue e')) \<and> a \<notin># io_addrs sq outst e' \<and>
              io_await_resume a (w1\<lparr>io_store := m'\<rparr>) = Ret (result i)))"
proof -
  have k: "kIoPollBatchSize \<noteq> 0" "unat kIoPollBatchSize \<le> entries" and u: "unat kIoPollBatchSize = 64"
    and ok: "uring_ok L sq outst entries" "entries < 2 ^ 31"
    using fits by (simp_all add: kIoPollBatchSize_def ring_fits_def)
  from poll_io_run [OF ok k i] u obtain e' infos n ring where
    p: "poll_io L kIoPollBatchSize (e, m) = ((e', complete_all infos m), Ret n)"
    and q: "task_queue e' = task_queue e @ take 64 (io_waiting_queue e) @
       map (\<lambda>i. the (map_option aw_handle (m (user_data i)))) infos"
    and o: "io_addrs sq outst e = mset (map user_data infos) + io_addrs sq outst e'"
    and r: "reap L 64 ring = infos" by auto
  from o aw have one: "count (mset (map user_data infos)) a + count (io_addrs sq outst e') a = 1"
    by (simp add: awaited_def)
  have h: "map_option aw_handle (m a) = Some h" using aw by (simp add: awaited_def)
  show ?thesis
  proof (cases "a \<in> user_data ` set infos")
    case False
    then have "count (mset (map user_data infos)) a = 0" by (simp add: count_eq_zero_iff)
    with one h have "awaited sq outst a h (e', complete_all infos m)"
      by (simp add: awaited_def complete_all_handle)
    with p r False show ?thesis by blast
  next
    case True
    then obtain i where "i \<in> set infos" "user_data i = a" by auto
    then obtain pre post where s: "infos = pre @ i # post" "user_data i = a" by (auto dest: split_list)
    with one have "count (mset (map user_data (pre @ post))) a = 0" "count (io_addrs sq outst e') a = 0" by auto
    then have z: "a \<notin> user_data ` set (pre @ post)" "a \<notin># io_addrs sq outst e'" by (auto simp: count_eq_zero_iff)
    have "user_data i \<notin> user_data ` set post" "m (user_data i) \<noteq> None" using z(1) s(2) h by auto
    from complete_all_result [where m = m, OF s(1) this] s(2)
    have "io_await_resume a (w1\<lparr>io_store := complete_all infos m\<rparr>) = Ret (result i)"
      by (auto simp: io_await_resume_def split: option.splits)
    moreover have "h \<in> set (drop (length (task_queue e)) (task_queue e'))" using q s h by auto
    ultimately show ?thesis using p r s z by blast
  qed
qed

subsection \<open>The round trip\<close>

text \<open>
  (C14) An awaited read or write comes back: on a worker the coroutine suspends, and whatever
  the engine does meanwhile, with any other operations, the next poll either leaves the
  operation owed with its coroutine registered, or has taken from the ring exactly one
  completion for it; then its coroutine is queued after what was queued, the operation is
  owed no more, and \<open>await_resume\<close> returns the result of that completion. Outside a
  worker the coroutine does not suspend and gets \<open>-1\<close>.
\<close>

theorem awaited_io_round_trip:
  assumes fits: "ring_fits L sq outst entries"
    and reach: "reach (eng_init sq outst) (eng_step L sq outst) (engines w c, io_store w)"
    and free: "a \<noteq> 0" "io_store w a \<noteq> None" "a \<notin># io_addrs sq outst (engines w c)"
    and op: "suspend = io_read_await_suspend \<or> suspend = io_write_await_suspend"
    and susp: "suspend a h w = (w1, b)"
  shows "(local_context_ptr w = Some c \<longrightarrow> b \<and>
      (\<forall>e m. steps (meanwhile L sq outst a) (engines w1 c, io_store w1) (e, m) \<longrightarrow>
        (\<exists>e' m' n infos u. poll_io L kIoPollBatchSize (e, m) = ((e', m'), Ret n) \<and> reap L 64 u = infos \<and>
          (awaited sq outst a h (e', m') \<and> a \<notin> user_data ` set infos \<or>
           (\<exists>pre i post. infos = pre @ i # post \<and> user_data i = a \<and> a \<notin> user_data ` set (pre @ post) \<and>
              h \<in> set (drop (length (task_queue e)) (task_queue e')) \<and> a \<notin># io_addrs sq outst e' \<and>
              io_await_resume a (w1\<lparr>io_store := m'\<rparr>) = Ret (result i)))))) \<and>
    (local_context_ptr w = None \<longrightarrow> \<not> b \<and> io_await_resume a w1 = Ret (- 1))"
proof (intro conjI impI allI)
  assume n: "local_context_ptr w = None"
  then show "\<not> b" "io_await_resume a w1 = Ret (- 1)" using op susp free(2)
    by (auto simp: io_read_await_suspend_def io_write_await_suspend_def try_local_context_def io_await_resume_def
        set_result_def set_handle_def)
next
  assume c: "local_context_ptr w = Some c"
  have inv: "io_inv sq outst (engines w c, io_store w)" using engine.reach_inv [OF reach] fits by blast
  note s = suspend_awaited [OF op c free inv susp]
  show "b" by (rule s(1))
  fix e m assume go: "steps (meanwhile L sq outst a) (engines w1 c, io_store w1) (e, m)"
  have aw: "awaited sq outst a h (e, m)" and i: "io_inv sq outst (e, m)"
    using steps_awaited [OF fits go s(3,2)] by blast+
  show "\<exists>e' m' n infos u. poll_io L kIoPollBatchSize (e, m) = ((e', m'), Ret n) \<and> reap L 64 u = infos \<and>
          (awaited sq outst a h (e', m') \<and> a \<notin> user_data ` set infos \<or>
           (\<exists>pre i post. infos = pre @ i # post \<and> user_data i = a \<and> a \<notin> user_data ` set (pre @ post) \<and>
              h \<in> set (drop (length (task_queue e)) (task_queue e')) \<and> a \<notin># io_addrs sq outst e' \<and>
              io_await_resume a (w1\<lparr>io_store := m'\<rparr>) = Ret (result i)))"
    by (rule poll_awaited [OF fits i aw])
qed

definition demo_io_world :: "(uint64 list \<times> uint64 list, unit, unit) world" where
  "demo_io_world = \<lparr>engines = (\<lambda>_. new_engine ([], [])), local_context_ptr = Some 0, pending_tasks = 1,
     io_store = [8 \<mapsto> demo_awaiter], frames = (\<lambda>_. None), obj = ()\<rparr>"

theorem awaited_io_round_trip_witness:
  "snd (io_read_await_suspend 8 7 demo_io_world) \<and>
   (\<exists>e' m' n. poll_io demo_uring kIoPollBatchSize
      (engine_submit_io_read 8 (new_engine ([], [])), [8 \<mapsto> demo_awaiter\<lparr>aw_handle := 7\<rparr>]) = ((e', m'), Ret n) \<and>
    (awaited fst (mset \<circ> snd) 8 7 (e', m') \<or> 7 \<in> set (task_queue e') \<and> 8 \<notin># io_addrs fst (mset \<circ> snd) e'))"
proof -
  let ?I = "eng_init fst (mset \<circ> snd)" and ?R = "eng_step demo_uring fst (mset \<circ> snd)"
  let ?e = "engine_submit_io_read 8 (new_engine ([], []))" and ?m = "[8 \<mapsto> demo_awaiter\<lparr>aw_handle := 7\<rparr>]"
  have 0: "reach ?I ?R (new_engine ([], []), \<lambda>_. None)" by (rule reach_init) (simp add: eng_init_def)
  have 1: "?R (new_engine ([], []), \<lambda>_. None) (new_engine ([], []), [8 \<mapsto> demo_awaiter])" by (rule eng_awaiter) simp
  have r: "reach ?I ?R (engines demo_io_world 0, io_store demo_io_world)"
    using reach_step [where step = ?R, OF 0 1] by (simp add: demo_io_world_def)
  obtain w1 b where s: "io_read_await_suspend 8 7 demo_io_world = (w1, b)" by (cases "io_read_await_suspend 8 7 demo_io_world")
  then have w1: "engines w1 0 = ?e" "io_store w1 = ?m"
    by (auto simp: io_read_await_suspend_def demo_io_world_def try_local_context_def context_submit_io_read_def
        on_engine_def set_handle_def)
  have q: "task_queue ?e = []" by (simp add: engine_submit_io_read_def new_engine_def notify_cv_def on_io_inflight_begin_def)
  have f: "(8 :: addr) \<noteq> 0" "io_store demo_io_world 8 \<noteq> None" "8 \<notin># io_addrs fst (mset \<circ> snd) (engines demo_io_world 0)"
    "local_context_ptr demo_io_world = Some 0"
    by (simp_all add: demo_io_world_def new_engine_def io_addrs_def)
  have st: "steps (meanwhile demo_uring fst (mset \<circ> snd) 8) (engines w1 0, io_store w1) (?e, ?m)"
    unfolding w1 by (rule steps_refl)
  from awaited_io_round_trip [where suspend = io_read_await_suspend, OF demo_ring_fits r f(1-3) _ s] f(4) st
  show ?thesis unfolding s by (fastforce simp: q)
qed

subsection \<open>Errors of the ring\<close>

lemma poll_throws:
  assumes q: "task_queue (engines w c) = []"
    and p: "poll_io L kIoPollBatchSize (engines w c, io_store w) = ((e, m), Throw x)"
  shows "\<exists>w1. context_run L resume completed stop c (Suc k) w = Some (w1, Throw x) \<and>
    engines w1 c = e \<and> local_context_ptr w1 = Some c"
proof -
  let ?w = "on_engine c (\<lambda>_. engines w c) (run_begin c w)"
  have e: "engines (run_begin c w) = engines w" "io_store (run_begin c w) = io_store w"
    by (simp_all add: run_begin_def)
  have "process_work_once resume completed c (run_begin c w) = Some (?w, Ret False)"
    using q by (simp add: process_work_once_def pop_batch_def e)
  moreover have "poll_io_once L c ?w = (on_engine c (\<lambda>_. e) (?w\<lparr>io_store := m\<rparr>), Throw x)"
    using p by (simp add: poll_io_once_def on_engine_def e)
  ultimately show ?thesis
    by (simp add: context_run_def run_round_def) (simp add: on_engine_def run_begin_def)
qed

text \<open>
  (C29) Errors of the ring end the worker: with a read to submit and nothing else to do, if
  the ring has no free entry, or if the kernel accepts nothing, \<open>run\<close> ends with the exception
  of the failed call, in its first round, and the thread's context pointer is still set. In
  the first case the read is in no queue any more, although it is still counted as in flight;
  in the second it is prepared and counted.
\<close>

theorem ring_errors_end_the_worker:
  assumes "task_queue e = []" "io_waiting_queue e = []" "io_read_submit_queue e = [a]" "io_write_submit_queue e = []"
    "pending_submit_count e = 0" and "engines w c = e" and "io_store w a = Some aw"
  shows "(\<forall>u1. io_uring_get_sqe L (uring e) = (u1, None) \<longrightarrow>
      (\<exists>w1. context_run L resume completed stop c (Suc k) w =
          Some (w1, Throw (RuntimeError ''io_uring_get_sqe failed'')) \<and>
        engines w1 c = e\<lparr>io_read_submit_queue := [], uring := u1\<rparr> \<and> local_context_ptr w1 = Some c)) \<and>
    (\<forall>u1 u2 n. submit_read L (aw_fd aw) (aw_buf aw) (aw_len aw) (aw_offset aw) a (uring e) = (u1, Ret ()) \<longrightarrow>
      io_uring_submit L u1 = (u2, n) \<longrightarrow> sint n \<le> 0 \<longrightarrow>
      (\<exists>w1. context_run L resume completed stop c (Suc k) w =
          Some (w1, Throw (RuntimeError ''io_uring_submit failed in runtime::Engine'')) \<and>
        engines w1 c = e\<lparr>io_read_submit_queue := [], uring := u2, pending_submit_count := 1\<rparr> \<and>
        local_context_ptr w1 = Some c))"
proof -
  note s = poll_io_def kIoPollBatchSize_def poll_waiting.simps [of _ _ e] prep_read_step_def assms(7)
  have q: "task_queue (engines w c) = []" using assms(1,6) by simp
  have 1: "poll_io L kIoPollBatchSize (engines w c, io_store w) =
      ((e\<lparr>io_read_submit_queue := [], uring := u1\<rparr>, io_store w), Throw (RuntimeError ''io_uring_get_sqe failed''))"
    if "io_uring_get_sqe L (uring e) = (u1, None)" for u1
    using assms(1-6) that by (simp add: s poll_reads.simps [of _ _ _ _ e] submit_read_def)
  have 2: "poll_io L kIoPollBatchSize (engines w c, io_store w) =
      ((e\<lparr>io_read_submit_queue := [], uring := u2, pending_submit_count := 1\<rparr>, io_store w),
       Throw (RuntimeError ''io_uring_submit failed in runtime::Engine''))"
    if "submit_read L (aw_fd aw) (aw_buf aw) (aw_len aw) (aw_offset aw) a (uring e) = (u1, Ret ())"
      "io_uring_submit L u1 = (u2, n)" "sint n \<le> 0" for u1 u2 n
  proof -
    let ?e = "e\<lparr>io_read_submit_queue := [], uring := u1, pending_submit_count := 1\<rparr>"
    have "poll_reads L (io_store w) kIoPollBatchSize 0 e = (?e, Ret 1)"
      using assms(3,5) that(1)
      by (simp add: s poll_reads.simps [of _ _ _ _ e] poll_reads.simps [of _ _ _ _ ?e])
    moreover have "poll_writes L (io_store w) kIoPollBatchSize 1 ?e = (?e, Ret 1)"
      using assms(4) by (simp add: poll_writes.simps [of _ _ _ _ ?e])
    moreover have "poll_submit L 0 ?e = (?e\<lparr>uring := u2\<rparr>, Throw (RuntimeError ''io_uring_submit failed in runtime::Engine''))"
      using that(2,3) by (simp add: poll_submit.simps [of _ _ ?e] submit_def)
    ultimately show ?thesis using assms(2,6)
      by (simp add: poll_io_def poll_waiting.simps [of _ _ e]) (simp add: kIoPollBatchSize_def)
  qed
  show ?thesis using poll_throws [OF q 1] poll_throws [OF q 2] by blast
qed

theorem ring_errors_end_the_worker_witness:
  "\<exists>w1. context_run (demo_uring\<lparr>io_uring_get_sqe := \<lambda>u. (u, None)\<rparr>) (\<lambda>_ w. Some (w, Ret ())) id False 0 1
      (demo_io_world\<lparr>engines := (\<lambda>_. (new_engine ([], []))\<lparr>io_read_submit_queue := [8]\<rparr>)\<rparr>) =
    Some (w1, Throw (RuntimeError ''io_uring_get_sqe failed''))"
  using ring_errors_end_the_worker [of "(new_engine ([], []))\<lparr>io_read_submit_queue := [8]\<rparr>" 8
      "demo_io_world\<lparr>engines := (\<lambda>_. (new_engine ([], []))\<lparr>io_read_submit_queue := [8]\<rparr>)\<rparr>" 0 demo_awaiter
      "demo_uring\<lparr>io_uring_get_sqe := \<lambda>u. (u, None)\<rparr>" "\<lambda>_ w. Some (w, Ret ())" id False 0]
  by (auto simp: new_engine_def demo_io_world_def)

end
