(* ===== verification/Task_Props.thy ===== *)
theory Task_Props
  imports Task Step_System "HOL-Library.Multiset"
begin

text \<open>
  Properties of \<open>include/task.h\<close>: awaiting a task runs it and comes back to the awaiting
  coroutine with its value or its exception; the owners of frames, through any sequence of
  moves, assignments and destructions, destroy each frame once.
\<close>

subsection \<open>Awaiting\<close>

lemma coroutine_resume_Transfer:
  "resume_segment gt pt body h w = (w1, Transfer h1) \<Longrightarrow>
   coroutine_resume gt pt body h w = coroutine_resume gt pt body h1 w1"
  by (subst coroutine_resume.simps) simp

lemma coroutine_resume_Back:
  "resume_segment gt pt body h w = (w1, Back r) \<Longrightarrow> coroutine_resume gt pt body h w = Some (w1, r)"
  by (subst coroutine_resume.simps) simp

lemma start_await_fresh:
  assumes "H (handler t) = Some f" and "\<not> fr_done f" and "handler t \<noteq> null_handle"
  shows "start_await t h H = (H(handler t \<mapsto> f\<lparr>fr_caller := h\<rparr>), Transfer (handler t))"
  using assms by (simp add: start_await_def task_await_ready_def handle_done_def task_await_suspend_def
      transfer_to_def)

lemma finish_caller:
  assumes "H h = Some f" and "fr_caller f = c" and "c \<noteq> null_handle"
  shows "finish h H = (H(h \<mapsto> f\<lparr>fr_done := True\<rparr>), Transfer c)"
  using assms by (simp add: finish_def mark_done_def final_await_suspend_def transfer_to_def Let_def)

text \<open>How a body ended, as the awaiting coroutine will see it.\<close>

fun end_result :: "'v segment_end \<Rightarrow> 'v res" where
  "end_result (Co_return v) = Ret v"
| "end_result (Co_throw x) = Throw x"
| "end_result _ = Undef"

definition completed :: "'v segment_end \<Rightarrow> bool" where
  "completed e \<longleftrightarrow> (case e of Co_return v \<Rightarrow> True | Co_throw x \<Rightarrow> True | _ \<Rightarrow> False)"

text \<open>
  Awaiting a task that runs to its end: the coroutine that awaits is suspended, the
  task's body runs, and control comes straight back to the awaiting coroutine, whose
  \<open>await_resume\<close> returns the task's value or rethrows its exception. No other frame
  changes on the way.
\<close>

lemma await_comes_back_with_the_result:
  assumes gp: "\<And>H w. gt (pt H w) = H"
    and h: "gt w h = Some fh" "\<not> fr_done fh" "h \<noteq> null_handle"
    and seg1: "body h w = (w1, Co_await t)"
    and t: "gt w1 (handler t) = Some ft" "\<not> fr_done ft" "fr_exception ft = None"
      "handler t \<noteq> null_handle"
    and seg2: "body (handler t) (pt ((gt w1)(handler t \<mapsto> ft\<lparr>fr_caller := h\<rparr>)) w1) = (w2, e)"
    and keep: "gt w2 (handler t) = Some (ft\<lparr>fr_caller := h\<rparr>)" and e: "completed e"
  shows "\<exists>w3. coroutine_resume gt pt body h w = coroutine_resume gt pt body h w3 \<and>
    snd (task_await_resume t (gt w3)) = end_result e \<and>
    task_done t (gt w3) = Ret True \<and>
    (\<forall>k. k \<noteq> handler t \<longrightarrow> gt w3 k = gt w2 k)"
proof -
  let ?w = "pt ((gt w1)(handler t \<mapsto> ft\<lparr>fr_caller := h\<rparr>)) w1"
  have "resume_segment gt pt body h w = (?w, Transfer (handler t))"
    using h(1,2) seg1 start_await_fresh [of "gt w1" t ft h, OF t(1,2,4)] by (simp add: resume_segment_def)
  then have 1: "coroutine_resume gt pt body h w = coroutine_resume gt pt body (handler t) ?w"
    by (rule coroutine_resume_Transfer)
  obtain f where f: "resume_segment gt pt body (handler t) ?w =
      (pt ((gt w2)(handler t \<mapsto> f\<lparr>fr_done := True\<rparr>)) w2, Transfer h)"
    and r: "end_result e = (case fr_exception f of Some x \<Rightarrow> Throw x
        | None \<Rightarrow> (case fr_value f of Holds v \<Rightarrow> Ret v | _ \<Rightarrow> Undef))"
  proof (cases e)
    case (Co_return v)
    have "resume_segment gt pt body (handler t) ?w =
        (pt ((gt w2)(handler t \<mapsto> (ft\<lparr>fr_caller := h, fr_value := Holds v\<rparr>)\<lparr>fr_done := True\<rparr>)) w2, Transfer h)"
      using t(2) seg2 keep h(3) Co_return
        finish_caller [of "(gt w2)(handler t \<mapsto> ft\<lparr>fr_caller := h, fr_value := Holds v\<rparr>)" "handler t"
          "ft\<lparr>fr_caller := h, fr_value := Holds v\<rparr>" h]
      by (simp add: resume_segment_def gp return_value_def)
    with that Co_return t(3) show thesis by fastforce
  next
    case (Co_throw x)
    have "resume_segment gt pt body (handler t) ?w =
        (pt ((gt w2)(handler t \<mapsto> (ft\<lparr>fr_caller := h, fr_exception := Some x\<rparr>)\<lparr>fr_done := True\<rparr>)) w2, Transfer h)"
      using t(2) seg2 keep h(3) Co_throw
        finish_caller [of "(gt w2)(handler t \<mapsto> ft\<lparr>fr_caller := h, fr_exception := Some x\<rparr>)" "handler t"
          "ft\<lparr>fr_caller := h, fr_exception := Some x\<rparr>" h]
      by (simp add: resume_segment_def gp unhandled_exception_def)
    with that Co_throw show thesis by fastforce
  qed (use e in \<open>simp_all add: completed_def\<close>)
  let ?w3 = "pt ((gt w2)(handler t \<mapsto> f\<lparr>fr_done := True\<rparr>)) w2"
  have "coroutine_resume gt pt body h w = coroutine_resume gt pt body h ?w3"
    using 1 coroutine_resume_Transfer [OF f] by simp
  moreover have "snd (task_await_resume t (gt ?w3)) = end_result e"
    unfolding r by (auto simp: task_await_resume_def rethrow_if_def take_value_def gp
        split: option.splits slot.splits)
  ultimately show ?thesis using t(4)
    by (intro exI [of _ ?w3]) (simp add: gp task_done_def handle_done_def)
qed

subsection \<open>Ownership\<close>

text \<open>
  Task objects, the frames and the set of frames handed over to the runtime by \<open>detach\<close>.
  The objects may be moved, assigned, detached and destroyed in any order.
\<close>

record 'v owners =
  objects :: "task list"
  heap_of :: "'v heap"
  released :: "handle set"

definition owned :: "task list \<Rightarrow> handle list" where
  "owned ts = filter (\<lambda>h. h \<noteq> null_handle) (map handler ts)"

inductive own_step :: "'v owners \<Rightarrow> 'v owners \<Rightarrow> bool" where
  own_new: "h \<noteq> null_handle \<Longrightarrow> heap_of s h = None \<Longrightarrow>
    own_step s (s\<lparr>objects := objects s @ [task_of_handle h], heap_of := (heap_of s)(h \<mapsto> new_frame)\<rparr>)"
| own_default: "own_step s (s\<lparr>objects := objects s @ [task_default]\<rparr>)"
| own_move: "i < length (objects s) \<Longrightarrow> task_move (objects s ! i) = (new, old) \<Longrightarrow>
    own_step s (s\<lparr>objects := (objects s)[i := old] @ [new]\<rparr>)"
| own_assign: "i < length (objects s) \<Longrightarrow> j < length (objects s) \<Longrightarrow> i \<noteq> j \<Longrightarrow>
    task_move_assign (objects s ! i) (objects s ! j) (heap_of s) = (H, Ret (x, y)) \<Longrightarrow>
    own_step s (s\<lparr>objects := (objects s)[i := x, j := y], heap_of := H\<rparr>)"
| own_destroy: "objects s = us @ t # vs \<Longrightarrow> task_destroy t (heap_of s) = (H, Ret ()) \<Longrightarrow>
    own_step s (s\<lparr>objects := us @ vs, heap_of := H\<rparr>)"
| own_detach: "i < length (objects s) \<Longrightarrow>
    own_step s (s\<lparr>objects := (objects s)[i := detach (objects s ! i)],
                  released := released s \<union> ({handler (objects s ! i)} - {null_handle})\<rparr>)"
| own_release: "h \<in> released s \<Longrightarrow> handle_destroy h (heap_of s) = (H, Ret ()) \<Longrightarrow>
    own_step s (s\<lparr>heap_of := H, released := released s - {h}\<rparr>)"

definition own_inv :: "'v owners \<Rightarrow> bool" where
  "own_inv s \<longleftrightarrow>
     distinct (owned (objects s)) \<and> set (owned (objects s)) \<inter> released s = {} \<and>
     dom (heap_of s) = set (owned (objects s)) \<union> released s"

definition own_init :: "'v owners \<Rightarrow> bool" where
  "own_init s \<longleftrightarrow> s = \<lparr>objects = [], heap_of = (\<lambda>_. None), released = {}\<rparr>"

lemma owned_simps [simp]:
  "owned [] = []" "owned (t # ts) = (if handler t = null_handle then owned ts else handler t # owned ts)"
  "owned (ts @ us) = owned ts @ owned us"
  by (simp_all add: owned_def)

lemma owned_split: "i < length ts \<Longrightarrow> owned ts = owned (take i ts) @ owned [ts ! i] @ owned (drop (Suc i) ts)"
  by (metis append_Cons append_Nil id_take_nth_drop owned_simps(3))

lemma owned_update: "i < length ts \<Longrightarrow> owned (ts[i := t]) = owned (take i ts) @ owned [t] @ owned (drop (Suc i) ts)"
  by (simp add: upd_conv_take_nth_drop del: owned_simps(2)) (metis append_Cons append_Nil owned_simps(3))

lemma mset_owned_update:
  "i < length ts \<Longrightarrow> mset (owned (ts[i := t])) + mset (owned [ts ! i]) = mset (owned ts) + mset (owned [t])"
  by (simp add: owned_update owned_split [of i ts] del: owned_simps(2))

lemma mset_exchange:
  fixes a' :: "'b multiset"
  assumes "a' + q = a" and "a + p = s + q"
  shows "s = p + a'"
  using assms by (metis add.assoc add.commute add_right_cancel)

lemma own_inv_mset:
  assumes "own_inv s" and "mset (owned (objects s')) = mset (owned (objects s))"
    and "heap_of s' = heap_of s" and "released s' = released s"
  shows "own_inv s'"
  using assms mset_eq_imp_distinct_iff [OF assms(2)] mset_eq_setD [OF assms(2)]
  by (simp add: own_inv_def)

lemma own_inv_drop:
  assumes inv: "own_inv s" and m: "mset (owned (objects s)) = mset (owned [t]) + mset (owned ts)"
    and d: "task_destroy t (heap_of s) = (H, Ret ())"
  shows "own_inv (s\<lparr>objects := ts, heap_of := H\<rparr>)"
proof (cases "handler t = null_handle")
  case True
  with assms show ?thesis by (intro own_inv_mset [OF inv]) (auto simp: task_destroy_def)
next
  case False
  then have m': "mset (owned (objects s)) = mset (handler t # owned ts)" using m by simp
  have "distinct (handler t # owned ts)" using inv mset_eq_imp_distinct_iff [OF m'] by (simp add: own_inv_def)
  moreover have "set (owned (objects s)) = insert (handler t) (set (owned ts))"
    using mset_eq_setD [OF m'] by simp
  moreover have "H = (heap_of s)(handler t := None)"
    using d False by (auto simp: task_destroy_def handle_destroy_def split: option.splits)
  ultimately show ?thesis using inv by (auto simp: own_inv_def)
qed

lemma task_move_assign_destroy:
  "task_move_assign x y H = bind_res (task_destroy x H) (\<lambda>H1 _. (H1, Ret (\<lparr>handler = handler y\<rparr>, \<lparr>handler = null_handle\<rparr>)))"
  by (cases x; cases y) (simp add: task_move_assign_def task_destroy_def)

lemma own_inv_assign:
  assumes "i < length (objects s)" and "j < length (objects s)" and "i \<noteq> j"
    and "task_move_assign (objects s ! i) (objects s ! j) (heap_of s) = (H, Ret (x, y))" and "own_inv s"
  shows "own_inv (s\<lparr>objects := (objects s)[i := x, j := y], heap_of := H\<rparr>)"
proof -
  let ?ts = "(objects s)[i := x, j := y]"
  have d: "task_destroy (objects s ! i) (heap_of s) = (H, Ret ())"
    and xy: "x = \<lparr>handler = handler (objects s ! j)\<rparr>" "y = \<lparr>handler = null_handle\<rparr>"
    using assms(4) by (auto simp: task_move_assign_destroy bind_res_Ret_iff)
  have o: "mset (owned [y]) = {#}" "mset (owned [x]) = mset (owned [objects s ! j])"
    using xy by simp_all
  have 1: "mset (owned ?ts) + mset (owned [objects s ! j]) = mset (owned ((objects s)[i := x]))"
    using mset_owned_update [of j "(objects s)[i := x]" y] assms(2,3) o(1)
    by (simp del: owned_simps(2))
  have 2: "mset (owned ((objects s)[i := x])) + mset (owned [objects s ! i]) =
      mset (owned (objects s)) + mset (owned [objects s ! j])"
    using mset_owned_update [of i "objects s" x] assms(1) o(2) by (simp only:)
  have "mset (owned (objects s)) = mset (owned [objects s ! i]) + mset (owned ?ts)"
    by (rule mset_exchange [OF 1 2])
  from own_inv_drop [OF assms(5) this d] show ?thesis .
qed

lemma own_inv_detach:
  assumes "i < length (objects s)" and "own_inv s"
  shows "own_inv (s\<lparr>objects := (objects s)[i := detach (objects s ! i)],
                  released := released s \<union> ({handler (objects s ! i)} - {null_handle})\<rparr>)"
proof -
  let ?t = "objects s ! i"
  have m: "mset (owned ((objects s)[i := detach ?t])) + mset (owned [?t]) = mset (owned (objects s))"
    using mset_owned_update [OF assms(1), of "detach ?t"] by (simp add: detach_def)
  then have m': "mset (owned (objects s)) = mset (owned [?t] @ owned ((objects s)[i := detach ?t]))"
    by (simp add: union_commute)
  have "distinct (owned [?t] @ owned ((objects s)[i := detach ?t]))"
    and "set (owned (objects s)) = set (owned [?t]) \<union> set (owned ((objects s)[i := detach ?t]))"
    using assms(2) mset_eq_imp_distinct_iff [OF m'] mset_eq_setD [OF m'] by (auto simp: own_inv_def)
  with assms(2) show ?thesis by (auto simp: own_inv_def split: if_splits)
qed

lemma own_step_inv: "own_step s s' \<Longrightarrow> own_inv s \<Longrightarrow> own_inv s'"
proof (induction rule: own_step.induct)
  case (own_new h s)
  then have "h \<notin> set (owned (objects s)) \<union> released s" by (auto simp: own_inv_def)
  with own_new show ?case by (auto simp: own_inv_def task_of_handle_def)
next
  case (own_default s)
  then show ?case by (rule own_inv_mset) (simp_all add: task_default_def)
next
  case (own_move i s new old)
  then have "mset (owned ((objects s)[i := old])) + mset (owned [new]) = mset (owned (objects s))"
    using mset_owned_update [of i "objects s" old] by (auto simp: task_move_def split: if_splits)
  with own_move show ?case by (intro own_inv_mset [OF own_move(3)]) (simp_all add: owned_simps(3) del: owned_simps(2))
next
  case (own_assign i s j H x y)
  then show ?case by (rule own_inv_assign)
next
  case (own_destroy s us t vs H)
  then have "mset (owned (objects s)) = mset (owned [t]) + mset (owned (us @ vs))" by simp
  from own_inv_drop [OF own_destroy(3) this own_destroy(2)] show ?case .
next
  case (own_detach i s)
  then show ?case by (rule own_inv_detach)
next
  case (own_release h s H)
  then have H: "H = (heap_of s)(h := None)" by (auto simp: handle_destroy_def split: option.splits)
  have "dom H = dom (heap_of s) - {h}" by (auto simp: H)
  with own_release show ?case unfolding own_inv_def by auto
qed

interpretation ownership: invariant_system own_init own_step own_inv
  by unfold_locales (simp add: own_init_def own_inv_def, rule own_step_inv)

text \<open>
  (C18) Through any sequence of constructions, moves, move assignments, detachments and
  destructions, no frame is destroyed twice or used after its destruction: destroying any
  of the task objects, or moving one over another, is defined; and no frame leaks: each
  frame that is alive has exactly one owner, a task object or the runtime it was released to.
\<close>

theorem frames_are_destroyed_once:
  assumes "reach own_init own_step s"
  shows "(\<forall>t \<in> set (objects s). snd (task_destroy t (heap_of s)) = Ret ()) \<and>
    (\<forall>x \<in> set (objects s). \<forall>y \<in> set (objects s). is_Ret (snd (task_move_assign x y (heap_of s)))) \<and>
    dom (heap_of s) = set (owned (objects s)) \<union> released s \<and> distinct (owned (objects s)) \<and>
    set (owned (objects s)) \<inter> released s = {}"
proof -
  have inv: "own_inv s" by (rule ownership.reach_inv [OF assms])
  have d: "snd (task_destroy t (heap_of s)) = Ret ()" if "t \<in> set (objects s)" for t
  proof (cases "handler t = null_handle")
    case False
    with that have "handler t \<in> set (owned (objects s))" by (auto simp: owned_def)
    then have "handler t \<in> dom (heap_of s)" using inv by (auto simp: own_inv_def)
    with False show ?thesis by (auto simp: task_destroy_def handle_destroy_def)
  qed (simp add: task_destroy_def)
  have "is_Ret (snd (task_move_assign x y (heap_of s)))" if "x \<in> set (objects s)" for x y
    using d [OF that] by (cases "task_destroy x (heap_of s)") (simp add: task_move_assign_destroy)
  with d inv show ?thesis by (auto simp: own_inv_def)
qed

definition demo_owners :: "nat owners" where
  "demo_owners = \<lparr>objects = [\<lparr>handler = null_handle\<rparr>, \<lparr>handler = 5\<rparr>], heap_of = [5 \<mapsto> new_frame], released = {}\<rparr>"

theorem frames_are_destroyed_once_witness:
  "snd (task_destroy \<lparr>handler = 5\<rparr> (heap_of demo_owners)) = Ret () \<and> distinct (owned (objects demo_owners))"
proof -
  let ?s0 = "\<lparr>objects = [], heap_of = (\<lambda>_. None), released = {}\<rparr> :: nat owners"
  let ?s1 = "\<lparr>objects = [\<lparr>handler = 5\<rparr>], heap_of = [5 \<mapsto> new_frame], released = {}\<rparr> :: nat owners"
  have "reach own_init own_step ?s0" by (rule reach_init) (simp add: own_init_def)
  moreover have "own_step ?s0 ?s1" using own_new [of 5 ?s0] by (simp add: task_of_handle_def)
  moreover have "own_step ?s1 demo_owners"
    using own_move [of 0 ?s1] by (simp add: task_move_def demo_owners_def)
  ultimately have "reach own_init own_step demo_owners" by (blast intro: reach_step)
  from frames_are_destroyed_once [OF this] show ?thesis by (simp add: demo_owners_def)
qed

text \<open>
  An empty task, default-constructed or moved from, reports that it is done and
  ready, so that \<open>co_await\<close> of it goes on at once to \<open>await_resume\<close>, which reads a promise
  through the null handle: undefined behaviour, where \<open>done\<close>, \<open>resume\<close> and the destructor
  treat the empty task as valid.
\<close>

lemma await_of_empty_task_is_undefined:
  assumes "H null_handle = None"
  shows "task_done task_default H = Ret True \<and> task_await_ready task_default H = Ret True \<and>
    start_await task_default h H = (H, Transfer h) \<and>
    snd (task_await_resume task_default H) = Undef \<and>
    snd (task_await_resume_void (snd (task_move t)) H) = Undef \<and>
    task_destroy task_default H = (H, Ret ()) \<and>
    task_resume gt pt body task_default w = Some (w, Ret ())"
  using assms
  by (simp add: task_done_def task_await_ready_def start_await_def task_await_resume_def
      task_await_resume_void_def rethrow_if_def task_default_def task_move_def task_destroy_def
      task_resume_def)

end
