(* ===== verification/Task_Calls.thy ===== *)
theory Task_Calls
  imports Task_Props
begin

text \<open>
  Coroutines that call each other through \<open>Task\<close>, at any depth, against the meaning such
  a program has when \<open>co_await callee()\<close> is read as a plain call: the frames, the recorded
  callers and the symmetric transfers of \<open>include/task.h\<close> implement a call stack.
\<close>

subsection \<open>Programs and their meaning\<close>

text \<open>
  A coroutine returns, throws, acts on shared state of type \<open>'x\<close>, or awaits a task of a
  coroutine it calls there and goes on with what the call came to, a value or an exception
  (which it may handle or not).
\<close>

datatype ('v, 'x) prog =
    Return 'v
  | Raise exn
  | Act "'x \<Rightarrow> 'x" "'x \<Rightarrow> ('v, 'x) prog"
  | Call "('v, 'x) prog" "'v res \<Rightarrow> ('v, 'x) prog"

primrec meaning :: "('v, 'x) prog \<Rightarrow> 'x \<Rightarrow> 'x \<times> 'v res" where
  "meaning (Return v) x = (x, Ret v)"
| "meaning (Raise e) x = (x, Throw e)"
| "meaning (Act g f) x = meaning (f x) (g x)"
| "meaning (Call p k) x = (case meaning p x of (y, r) \<Rightarrow> meaning (k r) y)"

lemma meaning_defined: "snd (meaning p x) \<noteq> Undef"
  by (induction p arbitrary: x) (simp_all split: prod.splits)

subsection \<open>The same programs as coroutines\<close>

text \<open>Where a suspended frame goes on.\<close>

datatype ('v, 'x) code =
    Start "('v, 'x) prog"
  | Awaiting task "'v res \<Rightarrow> ('v, 'x) prog"

record ('v, 'x) calls =
  cl_frames :: "'v heap"
  cl_code :: "handle \<Rightarrow> ('v, 'x) code"
  cl_state :: 'x

abbreviation put_frames :: "'v heap \<Rightarrow> ('v, 'x) calls \<Rightarrow> ('v, 'x) calls" where
  "put_frames H w \<equiv> w\<lparr>cl_frames := H\<rparr>"

text \<open>
  A segment of the coroutine with handle \<open>h\<close>. Calling a coroutine allocates its frame, in
  which it is suspended at its start, and gives the caller a temporary \<open>Task\<close>, which lives
  until the \<open>co_await\<close> expression has its result. \<open>alloc\<close> is the allocator.
\<close>

primrec run_prog ::
  "('v heap \<Rightarrow> handle) \<Rightarrow> handle \<Rightarrow> ('v, 'x) prog \<Rightarrow> ('v, 'x) calls \<Rightarrow> ('v, 'x) calls \<times> 'v segment_end" where
  "run_prog alloc h (Return v) w = (w, Co_return v)"
| "run_prog alloc h (Raise e) w = (w, Co_throw e)"
| "run_prog alloc h (Act g f) w = run_prog alloc h (f (cl_state w)) (w\<lparr>cl_state := g (cl_state w)\<rparr>)"
| "run_prog alloc h (Call p k) w =
     (let c = alloc (cl_frames w); t = task_of_handle c in
      (w\<lparr>cl_frames := (cl_frames w)(c \<mapsto> new_frame),
         cl_code := (cl_code w)(c := Start p, h := Awaiting t k)\<rparr>, Co_await t))"

definition call_body ::
  "('v heap \<Rightarrow> handle) \<Rightarrow> handle \<Rightarrow> ('v, 'x) calls \<Rightarrow> ('v, 'x) calls \<times> 'v segment_end" where
  "call_body alloc h w =
     (case cl_code w h of
        Start p \<Rightarrow> run_prog alloc h p w
      | Awaiting t k \<Rightarrow>
          (let (H, r) = task_await_resume t (cl_frames w) in
           run_prog alloc h (k r) (w\<lparr>cl_frames := fst (task_destroy t H)\<rparr>)))"

text \<open>What is documented of the allocator: it answers a handle that is not in use.\<close>

definition allocates :: "('v heap \<Rightarrow> handle) \<Rightarrow> bool" where
  "allocates alloc \<longleftrightarrow> (\<forall>H. finite (dom H) \<longrightarrow> H (alloc H) = None \<and> alloc H \<noteq> null_handle)"

subsection \<open>A frame from its segment to its end\<close>

fun ended :: "'v res \<Rightarrow> 'v frame \<Rightarrow> 'v frame" where
  "ended (Ret v) f = f\<lparr>fr_value := Holds v, fr_done := True\<rparr>"
| "ended (Throw e) f = f\<lparr>fr_exception := Some e, fr_done := True\<rparr>"
| "ended Undef f = f"

abbreviation called_by :: "handle \<Rightarrow> 'v frame" where
  "called_by c \<equiv> new_frame\<lparr>fr_caller := c\<rparr>"

lemma ended_result:
  assumes "H (handler t) = Some (ended r (called_by c))" and "r \<noteq> Undef" and "handler t \<noteq> null_handle"
  shows "snd (task_await_resume t H) = r" "fst (task_destroy t (fst (task_await_resume t H))) = H(handler t := None)"
    "snd (task_get t H) = r" "task_done t H = Ret True"
  using assms
  by (cases r; simp add: task_await_resume_def rethrow_if_def take_value_def task_destroy_def handle_destroy_def
      task_get_def task_done_def handle_done_def new_frame_def)+

definition resumed_after ::
  "('v heap \<Rightarrow> handle) \<Rightarrow> handle \<Rightarrow> ('v, 'x) calls \<Rightarrow> (('v, 'x) calls \<times> unit res) option" where
  "resumed_after alloc c w =
     (if c = null_handle then Some (w, Ret ()) else coroutine_resume cl_frames put_frames (call_body alloc) c w)"

lemma resume_ends:
  assumes b: "call_body alloc h w = (w0, e)" and r: "e = Co_return v \<and> r = Ret v \<or> e = Co_throw x \<and> r = Throw x"
    and f: "cl_frames w h = Some g" "\<not> fr_done g" "cl_frames w0 h = Some (called_by c)"
  shows "coroutine_resume cl_frames put_frames (call_body alloc) h w =
    resumed_after alloc c (put_frames ((cl_frames w0)(h \<mapsto> ended r (called_by c))) w0)"
  using r
proof (elim disjE conjE)
  assume "e = Co_return v" "r = Ret v"
  with b f show ?thesis
    by (subst coroutine_resume.simps)
      (auto simp: resume_segment_def finish_def return_value_def mark_done_def final_await_suspend_def transfer_to_def
        resumed_after_def new_frame_def)
next
  assume "e = Co_throw x" "r = Throw x"
  with b f show ?thesis
    by (subst coroutine_resume.simps)
      (auto simp: resume_segment_def finish_def unhandled_exception_def mark_done_def final_await_suspend_def transfer_to_def
        resumed_after_def new_frame_def)
qed

text \<open>A call: control goes to the new frame, whose caller is the coroutine that awaits.\<close>

lemma resume_calls:
  assumes "call_body alloc h w = run_prog alloc h (Call q k) w0" and "cl_frames w h = Some (called_by c)"
    and "cl_frames w0 d = None" and "d = alloc (cl_frames w0)" and "d \<noteq> null_handle"
  shows "coroutine_resume cl_frames put_frames (call_body alloc) h w =
    coroutine_resume cl_frames put_frames (call_body alloc) d
      (w0\<lparr>cl_frames := (cl_frames w0)(d \<mapsto> called_by h), cl_code := (cl_code w0)(d := Start q, h := Awaiting (task_of_handle d) k)\<rparr>)"
proof (rule coroutine_resume_Transfer)
  show "resume_segment cl_frames put_frames (call_body alloc) h w =
    (w0\<lparr>cl_frames := (cl_frames w0)(d \<mapsto> called_by h), cl_code := (cl_code w0)(d := Start q, h := Awaiting (task_of_handle d) k)\<rparr>, Transfer d)"
    using assms by (simp add: resume_segment_def Let_def start_await_fresh new_frame_def task_of_handle_def)
qed

text \<open>
  The heart: from a segment that is about to run \<open>p\<close>, control reaches the recorded caller (or
  comes back to the resumer) with \<open>p\<close>'s effects done, \<open>p\<close>'s result in the frame, and every
  other frame as it was; the frames of the calls inside are gone.
\<close>

lemma call_runs:
  assumes al: "allocates alloc"
  shows "call_body alloc h w = run_prog alloc h p w0 \<Longrightarrow> cl_frames w h = Some (called_by c) \<Longrightarrow>
    cl_frames w0 h = Some (called_by c) \<Longrightarrow> finite (dom (cl_frames w0)) \<Longrightarrow> h \<noteq> null_handle \<Longrightarrow>
    \<exists>w1. coroutine_resume cl_frames put_frames (call_body alloc) h w = resumed_after alloc c w1 \<and>
      cl_frames w1 = (cl_frames w0)(h \<mapsto> ended (snd (meaning p (cl_state w0))) (called_by c)) \<and>
      cl_state w1 = fst (meaning p (cl_state w0)) \<and>
      (\<forall>k \<in> dom (cl_frames w0) - {h}. cl_code w1 k = cl_code w0 k)"
proof (induction p arbitrary: h w w0 c)
  case (Return v)
  from resume_ends [OF Return.prems(1) [simplified], of v "Ret v"] Return.prems(2,3) show ?case
    by (intro exI) (auto simp: new_frame_def)
next
  case (Raise x)
  from resume_ends [OF Raise.prems(1) [simplified], of undefined "Throw x" x] Raise.prems(2,3) show ?case
    by (intro exI) (auto simp: new_frame_def)
next
  case (Act g f)
  let ?w = "w0\<lparr>cl_state := g (cl_state w0)\<rparr>"
  from Act.IH [of "f (cl_state w0)" h w ?w c] Act.prems show ?case by simp
next
  case (Call q k)
  let ?H = "cl_frames w0" and ?x = "cl_state w0"
  let ?d = "alloc ?H"
  let ?t = "task_of_handle ?d"
  have d: "?H ?d = None" "?d \<noteq> null_handle" "?d \<noteq> h" using al Call.prems(3,4) by (auto simp: allocates_def)
  let ?w2 = "w0\<lparr>cl_frames := ?H(?d \<mapsto> called_by h), cl_code := (cl_code w0)(?d := Start q, h := Awaiting ?t k)\<rparr>"
  note 1 = resume_calls [OF Call.prems(1,2) d(1) refl d(2)]
  obtain y r where m: "meaning q ?x = (y, r)" by (cases "meaning q ?x")
  have b2: "call_body alloc ?d ?w2 = run_prog alloc ?d q ?w2" using d(3) by (simp add: call_body_def)
  have "finite (dom (?H(?d \<mapsto> called_by h)))" using Call.prems(4) by (simp del: fun_upd_apply)
  then have f2: "cl_frames ?w2 ?d = Some (called_by h)" "finite (dom (cl_frames ?w2))" "cl_state ?w2 = ?x" by simp_all
  from Call.IH(1) [OF b2 f2(1) f2(1,2) d(2)] obtain w3 where
    w3: "coroutine_resume cl_frames put_frames (call_body alloc) ?d ?w2 = resumed_after alloc h w3"
      "cl_frames w3 = ?H(?d \<mapsto> ended r (called_by h))" "cl_state w3 = y"
      "\<forall>j \<in> dom (cl_frames ?w2) - {?d}. cl_code w3 j = cl_code ?w2 j" unfolding f2(3) m by force
  have "r \<noteq> Undef" using meaning_defined [of q ?x] m by simp
  note e = ended_result [where t = ?t and H = "cl_frames w3", OF _ this]
  let ?w4 = "put_frames ?H w3"
  have h3: "cl_code w3 h = Awaiting ?t k" "cl_frames w3 h = Some (called_by c)"
    using w3(2) bspec [OF w3(4), of h] d(3) Call.prems(3) by auto
  have b4: "call_body alloc h w3 = run_prog alloc h (k r) ?w4"
    using h3(1) e(1,2) w3(2) d by (simp add: call_body_def task_of_handle_def case_prod_beta' fun_upd_idem)
  have f4: "cl_frames ?w4 h = Some (called_by c)" "finite (dom (cl_frames ?w4))" "meaning (k r) (cl_state ?w4) = meaning (Call q k) ?x"
    using Call.prems(3,4) w3(3) m by simp_all
  from Call.IH(2) [OF rangeI b4 h3(2) f4(1,2) Call.prems(5)] obtain w5 where
    w5: "coroutine_resume cl_frames put_frames (call_body alloc) h w3 = resumed_after alloc c w5"
      "cl_frames w5 = ?H(h \<mapsto> ended (snd (meaning (Call q k) ?x)) (called_by c))"
      "cl_state w5 = fst (meaning (Call q k) ?x)" "\<forall>j \<in> dom ?H - {h}. cl_code w5 j = cl_code w3 j"
    unfolding f4(3) by force
  have "cl_code w5 j = cl_code w0 j" if "j \<in> dom ?H - {h}" for j
    using that d(1) w5(4) bspec [OF w3(4), of j] by (cases "j = ?d") auto
  with 1 w3(1) w5(1-3) Call.prems(5) show ?case by (intro exI [of _ w5]) (simp add: resumed_after_def)
qed

subsection \<open>Property\<close>

text \<open>
  (C17) Symmetric transfer implements calls: a task whose coroutine calls others, to any
  depth, awaiting the task of each, comes back from one \<open>resume\<close>, without undefined
  behaviour, with exactly the effects, in the same order, and the result the program has
  when each \<open>co_await\<close> is read as a plain call: an exception passes through the awaiting
  coroutines until one handles it. The task is done, \<open>get\<close> returns its value or rethrows, and
  all other frames are as before, so each frame of a call inside has been destroyed.
\<close>

theorem symmetric_transfer_implements_calls:
  assumes "allocates alloc" and "finite (dom (cl_frames w))" and "handler t \<noteq> null_handle"
    and "cl_frames w (handler t) = Some new_frame" and "cl_code w (handler t) = Start p"
  shows "\<exists>w1. task_resume cl_frames put_frames (call_body alloc) t w = Some (w1, Ret ()) \<and>
    cl_state w1 = fst (meaning p (cl_state w)) \<and> snd (task_get t (cl_frames w1)) = snd (meaning p (cl_state w)) \<and>
    task_done t (cl_frames w1) = Ret True \<and> (\<forall>k. k \<noteq> handler t \<longrightarrow> cl_frames w1 k = cl_frames w k)"
proof -
  have f: "cl_frames w (handler t) = Some (called_by null_handle)" using assms(4) by (simp add: new_frame_def)
  have "call_body alloc (handler t) w = run_prog alloc (handler t) p w" using assms(5) by (simp add: call_body_def)
  from call_runs [OF assms(1) this f f assms(2,3)] obtain w1 where
    w1: "coroutine_resume cl_frames put_frames (call_body alloc) (handler t) w = Some (w1, Ret ())"
      "cl_frames w1 = (cl_frames w)(handler t \<mapsto> ended (snd (meaning p (cl_state w))) (called_by null_handle))"
      "cl_state w1 = fst (meaning p (cl_state w))" by (auto simp: resumed_after_def)
  with ended_result(3,4) [of "cl_frames w1" t, where r = "snd (meaning p (cl_state w))" and c = null_handle, OF _ meaning_defined assms(3)] assms(3) show ?thesis
    by (intro exI [of _ w1]) (simp add: task_resume_def)
qed

text \<open>A call of a call that throws; the outer coroutine handles the exception.\<close>

definition demo_alloc :: "nat heap \<Rightarrow> handle" where
  "demo_alloc H = Suc (Max (insert 0 (dom H)))"

lemma demo_allocates: "allocates demo_alloc"
proof -
  have "H (demo_alloc H) = None" if "finite (dom H)" for H :: "nat heap"
  proof (rule ccontr)
    assume "H (demo_alloc H) \<noteq> None"
    then have "demo_alloc H \<le> Max (insert 0 (dom H))" using that by (intro Max_ge) auto
    then show False by (simp add: demo_alloc_def)
  qed
  then show ?thesis by (simp add: allocates_def demo_alloc_def)
qed

definition demo_prog :: "(nat, nat list) prog" where
  "demo_prog = Call (Call (Act (\<lambda>xs. xs @ [1]) (\<lambda>_. Raise (RuntimeError ''inner''))) (\<lambda>r. case r of Ret v \<Rightarrow> Return v | _ \<Rightarrow> Raise (RuntimeError ''outer'')))
     (\<lambda>r. Act (\<lambda>xs. xs @ [2]) (\<lambda>xs. if r = Throw (RuntimeError ''outer'') then Return (length xs) else Return 99))"

theorem symmetric_transfer_implements_calls_witness:
  "\<exists>w1. task_resume cl_frames put_frames (call_body demo_alloc) \<lparr>handler = 7\<rparr>
      \<lparr>cl_frames = [7 \<mapsto> new_frame], cl_code = (\<lambda>_. Start demo_prog), cl_state = []\<rparr> = Some (w1, Ret ()) \<and>
    cl_state w1 = [1, 2] \<and> snd (task_get \<lparr>handler = 7\<rparr> (cl_frames w1)) = Ret 1"
  using symmetric_transfer_implements_calls [OF demo_allocates,
      of "\<lparr>cl_frames = [7 \<mapsto> new_frame], cl_code = (\<lambda>_. Start demo_prog), cl_state = []\<rparr>" "\<lparr>handler = 7\<rparr>" demo_prog]
  by (auto simp: demo_prog_def)

end
