(* ===== verification/Async_Mutex.thy ===== *)
theory Async_Mutex
  imports Runtime Step_System
begin

text \<open>
  \<open>AsyncMutex\<close> of \<open>include/async_mutex.h\<close>: a lock whose waiters are suspended coroutines,
  its awaiters, and the guards that own it. Mutexes live in a store from their addresses
  and guards point to them; the address 0 is the null pointer, and following a pointer to
  nothing is \<open>Undef\<close>. \<open>unlock\<close> hands the lock to the first waiter without releasing it.
\<close>

subsection \<open>Data and operations\<close>

record amutex =
  mx_lock :: bool
  mx_wait_queue :: "handle list"

definition new_amutex :: amutex where
  "new_amutex = \<lparr>mx_lock = False, mx_wait_queue = []\<rparr>"

record lock_guard =
  g_mutex :: addr
  g_owns :: bool

type_synonym mutexes = "addr \<rightharpoonup> amutex"

text \<open>\<open>Awaiter::await_suspend\<close>; \<open>ReLockAwaiter::await_suspend\<close> does the same through its guard.\<close>

definition lock_await_suspend :: "addr \<Rightarrow> handle \<Rightarrow> mutexes \<Rightarrow> mutexes \<times> bool res" where
  "lock_await_suspend a h M =
     (case M a of
        None \<Rightarrow> (M, Undef)
      | Some x \<Rightarrow>
          if mx_lock x = False then (M(a \<mapsto> x\<lparr>mx_lock := True\<rparr>), Ret False)
          else (M(a \<mapsto> x\<lparr>mx_wait_queue := mx_wait_queue x @ [h]\<rparr>), Ret True))"

definition lock_await_resume :: "addr \<Rightarrow> lock_guard" where
  "lock_await_resume a = \<lparr>g_mutex = a, g_owns = True\<rparr>"

definition relock_await_suspend :: "lock_guard \<Rightarrow> handle \<Rightarrow> mutexes \<Rightarrow> mutexes \<times> bool res" where
  "relock_await_suspend g h M =
     (case M (g_mutex g) of
        None \<Rightarrow> (M, Undef)
      | Some x \<Rightarrow>
          if mx_lock x = False then (M(g_mutex g \<mapsto> x\<lparr>mx_lock := True\<rparr>), Ret False)
          else (M(g_mutex g \<mapsto> x\<lparr>mx_wait_queue := mx_wait_queue x @ [h]\<rparr>), Ret True))"

definition relock_await_resume :: "lock_guard \<Rightarrow> lock_guard" where
  "relock_await_resume g = g\<lparr>g_owns := True\<rparr>"

text \<open>\<open>AsyncMutex::unlock\<close>: the state change and the handle it then wakes.\<close>

definition mutex_unlock :: "addr \<Rightarrow> mutexes \<Rightarrow> mutexes \<times> handle list res" where
  "mutex_unlock a M =
     (case M a of
        None \<Rightarrow> (M, Undef)
      | Some x \<Rightarrow>
          (case mx_wait_queue x of
             h # q \<Rightarrow> (M(a \<mapsto> x\<lparr>mx_wait_queue := q\<rparr>), Ret [h])
           | [] \<Rightarrow> (M(a \<mapsto> x\<lparr>mx_lock := False\<rparr>), Ret [])))"

subsection \<open>Guards\<close>

definition guard_unlock :: "lock_guard \<Rightarrow> mutexes \<Rightarrow> mutexes \<times> (lock_guard \<times> handle list) res" where
  "guard_unlock g M =
     (if g_owns g \<and> g_mutex g \<noteq> 0
      then bind_res (mutex_unlock (g_mutex g) M) (\<lambda>M1 hs. (M1, Ret (g\<lparr>g_owns := False\<rparr>, hs)))
      else (M, Ret (g, [])))"

text \<open>Destruction: the guard is gone, the answer is whom to wake.\<close>

definition guard_destroy :: "lock_guard \<Rightarrow> mutexes \<Rightarrow> mutexes \<times> handle list res" where
  "guard_destroy g M =
     (if g_owns g \<and> g_mutex g \<noteq> 0 then mutex_unlock (g_mutex g) M else (M, Ret []))"

text \<open>Move construction: the new guard and what is left of the other.\<close>

definition guard_move :: "lock_guard \<Rightarrow> lock_guard \<times> lock_guard" where
  "guard_move other =
     (\<lparr>g_mutex = g_mutex other, g_owns = g_owns other\<rparr>, other\<lparr>g_mutex := 0, g_owns := False\<rparr>)"

text \<open>\<open>x = std::move(y)\<close> for distinct objects; assigning a guard to itself changes nothing.\<close>

definition guard_move_assign ::
  "lock_guard \<Rightarrow> lock_guard \<Rightarrow> mutexes \<Rightarrow> mutexes \<times> (lock_guard \<times> lock_guard \<times> handle list) res" where
  "guard_move_assign x y M =
     bind_res (if g_owns x \<and> g_mutex x \<noteq> 0 then mutex_unlock (g_mutex x) M else (M, Ret []))
       (\<lambda>M1 hs. (M1, Ret (x\<lparr>g_mutex := g_mutex y, g_owns := g_owns y\<rparr>,
                          y\<lparr>g_mutex := 0, g_owns := False\<rparr>, hs)))"

definition guard_self_assign :: "lock_guard \<Rightarrow> mutexes \<Rightarrow> mutexes \<times> lock_guard res" where
  "guard_self_assign x M = (M, Ret x)"

text \<open>The methods on the world of the calling thread: the critical section, then the wakes.\<close>

definition amutex_unlock where
  "amutex_unlock resume a w =
     call_locked resume (\<lambda>M. bind_res (mutex_unlock a M) (\<lambda>M1 hs. (M1, Ret ((), hs)))) w"

definition lock_guard_unlock where
  "lock_guard_unlock resume g w = call_locked resume (guard_unlock g) w"

end
