(* ===== verification/Async_Mutex_Props.thy ===== *)
theory Async_Mutex_Props
  imports Async_Mutex
begin

text \<open>
  Coroutines and guards over any number of \<open>AsyncMutex\<close> objects. A coroutine that asked
  for a lock either waits in the mutex's queue or has been granted the lock, by
  \<open>await_suspend\<close> or by the \<open>unlock\<close> of another, and turns the grant into an owning guard
  when it resumes. Guards are moved, assigned, unlocked, relocked and destroyed. The
  invariant makes the lock a token with at most one holder.
\<close>

subsection \<open>Locks as tokens\<close>

text \<open>
  \<open>C\<close> says which mutex each potential holder claims, \<open>W\<close> for which mutex each coroutine
  waits.
\<close>

definition claimed :: "('t \<Rightarrow> addr option) \<Rightarrow> addr \<Rightarrow> bool" where
  "claimed C m \<longleftrightarrow> (\<exists>t. C t = Some m)"

definition single :: "('t \<Rightarrow> addr option) \<Rightarrow> bool" where
  "single C \<longleftrightarrow> (\<forall>t u m. C t = Some m \<longrightarrow> C u = Some m \<longrightarrow> t = u)"

definition mutex_ok :: "('t \<Rightarrow> addr option) \<Rightarrow> (handle \<Rightarrow> addr option) \<Rightarrow> addr \<Rightarrow> amutex \<Rightarrow> bool" where
  "mutex_ok C W m x \<longleftrightarrow>
     (mx_lock x \<longleftrightarrow> claimed C m) \<and> distinct (mx_wait_queue x) \<and>
     set (mx_wait_queue x) = {h. W h = Some m} \<and> (mx_wait_queue x \<noteq> [] \<longrightarrow> mx_lock x)"

definition locks_inv :: "mutexes \<Rightarrow> ('t \<Rightarrow> addr option) \<Rightarrow> (handle \<Rightarrow> addr option) \<Rightarrow> bool" where
  "locks_inv M C W \<longleftrightarrow>
     M 0 = None \<and> single C \<and> (\<forall>m. claimed C m \<longrightarrow> M m \<noteq> None) \<and>
     (\<forall>h m. W h = Some m \<longrightarrow> M m \<noteq> None) \<and>
     (\<forall>m x. M m = Some x \<longrightarrow> mutex_ok C W m x)"

lemma claimed_add: "C t = None \<Longrightarrow> claimed (C(t := Some a)) m \<longleftrightarrow> m = a \<or> claimed C m"
  unfolding claimed_def by (metis fun_upd_other fun_upd_same option.distinct(1) option.inject)

lemma claimed_remove: "single C \<Longrightarrow> C t = Some a \<Longrightarrow> claimed (C(t := None)) m \<longleftrightarrow> m \<noteq> a \<and> claimed C m"
  unfolding claimed_def single_def
  by (metis fun_upd_other fun_upd_same option.distinct(1) option.inject)

lemma single_add: "single C \<Longrightarrow> C t = None \<Longrightarrow> \<not> claimed C a \<Longrightarrow> single (C(t := Some a))"
  by (auto simp: claimed_def single_def)

lemma single_remove: "single C \<Longrightarrow> single (C(t := None))"
  by (auto simp: single_def)

lemma locks_mutex: "locks_inv M C W \<Longrightarrow> M m = Some x \<Longrightarrow> mutex_ok C W m x"
  by (simp add: locks_inv_def)

lemma claim_live: "locks_inv M C W \<Longrightarrow> C t = Some m \<Longrightarrow> M m \<noteq> None \<and> m \<noteq> 0"
  unfolding locks_inv_def claimed_def by auto

lemma claim_locked: "locks_inv M C W \<Longrightarrow> C t = Some m \<Longrightarrow> M m = Some x \<Longrightarrow> mx_lock x"
  using locks_mutex [of M C W m x] by (auto simp: mutex_ok_def claimed_def)

lemma wait_live: "locks_inv M C W \<Longrightarrow> W h = Some m \<Longrightarrow> M m \<noteq> None"
  unfolding locks_inv_def by blast

lemma locks_new:
  assumes "locks_inv M C W" and "M a = None" and "a \<noteq> 0"
  shows "locks_inv (M(a \<mapsto> new_amutex)) C W"
proof -
  have "\<not> claimed C a" "{h. W h = Some a} = {}" using assms by (fastforce simp: locks_inv_def)+
  then have "mutex_ok C W a new_amutex" by (simp add: mutex_ok_def new_amutex_def)
  with assms show ?thesis by (auto simp: locks_inv_def)
qed

lemma locks_acquire:
  assumes inv: "locks_inv M C W" and x: "M a = Some x" "\<not> mx_lock x" and t: "C t = None"
  shows "locks_inv (M(a \<mapsto> x\<lparr>mx_lock := True\<rparr>)) (C(t := Some a)) W"
proof -
  have nc: "\<not> claimed C a" using locks_mutex [OF inv x(1)] x(2) by (simp add: mutex_ok_def)
  have "single (C(t := Some a))" using inv t nc by (simp add: locks_inv_def single_add)
  with inv x t show ?thesis by (auto simp: locks_inv_def mutex_ok_def claimed_add)
qed

lemma locks_wait:
  assumes inv: "locks_inv M C W" and x: "M a = Some x" "mx_lock x" and h: "W h = None"
  shows "locks_inv (M(a \<mapsto> x\<lparr>mx_wait_queue := mx_wait_queue x @ [h]\<rparr>)) C (W(h := Some a))"
proof -
  have q: "{k. (W(h := Some a)) k = Some m} = {k. W k = Some m} \<union> (if m = a then {h} else {})" for m
    using h by auto
  have "h \<notin> set (mx_wait_queue x)" using locks_mutex [OF inv x(1)] h by (auto simp: mutex_ok_def)
  with inv x h show ?thesis unfolding locks_inv_def mutex_ok_def q by auto
qed

lemma locks_transfer:
  assumes inv: "locks_inv M C W" and t: "C t = Some a" and u: "C u = None"
  shows "locks_inv M (C(t := None, u := Some a)) W"
proof -
  have s: "single C" and ca: "claimed C a" using inv t by (auto simp: locks_inv_def claimed_def)
  have u': "(C(t := None)) u = None" using u by simp
  have c: "claimed (C(t := None, u := Some a)) m \<longleftrightarrow> claimed C m" for m
    using claimed_add [of "C(t := None)" u, OF u', of a m] claimed_remove [OF s t, of m] ca by auto
  have "single (C(t := None, u := Some a))"
    using single_add [of "C(t := None)" u, OF single_remove [OF s] u', of a] claimed_remove [OF s t, of a] by simp
  with inv c show ?thesis by (auto simp: locks_inv_def mutex_ok_def)
qed

lemma locks_handoff:
  assumes inv: "locks_inv M C W" and t: "C t = Some a" and u: "C u = None"
    and x: "M a = Some x" "mx_wait_queue x = h # q"
  shows "locks_inv (M(a \<mapsto> x\<lparr>mx_wait_queue := q\<rparr>)) (C(t := None, u := Some a)) (W(h := None))"
proof -
  have ok: "mutex_ok C W a x" by (rule locks_mutex [OF inv x(1)])
  then have wh: "W h = Some a" using x(2) by (auto simp: mutex_ok_def)
  have w: "{k. (W(h := None)) k = Some m} = {k. W k = Some m} - (if m = a then {h} else {})" for m
    using wh by auto
  have "mutex_ok C (W(h := None)) m y" if "mutex_ok C W m y" "m \<noteq> a" for m y
    using that unfolding mutex_ok_def w by auto
  moreover have "mutex_ok C (W(h := None)) a (x\<lparr>mx_wait_queue := q\<rparr>)"
    using ok x(2) unfolding mutex_ok_def w by auto
  ultimately have "locks_inv (M(a \<mapsto> x\<lparr>mx_wait_queue := q\<rparr>)) C (W(h := None))"
    using inv x(1) by (auto simp: locks_inv_def)
  then show ?thesis using t u by (rule locks_transfer)
qed

lemma locks_release:
  assumes inv: "locks_inv M C W" and t: "C t = Some a" and x: "M a = Some x" "mx_wait_queue x = []"
  shows "locks_inv (M(a \<mapsto> x\<lparr>mx_lock := False\<rparr>)) (C(t := None)) W"
proof -
  have s: "single C" using inv by (simp add: locks_inv_def)
  have ok: "mutex_ok (C(t := None)) W m y" if "M m = Some y" "m \<noteq> a" for m y
    using locks_mutex [OF inv that(1)] that(2) by (auto simp: mutex_ok_def claimed_remove [OF s t])
  have "mutex_ok (C(t := None)) W a (x\<lparr>mx_lock := False\<rparr>)"
    using locks_mutex [OF inv x(1)] x(2) by (auto simp: mutex_ok_def claimed_remove [OF s t])
  with inv x ok single_remove [OF s] show ?thesis by (auto simp: locks_inv_def claimed_remove [OF s t])
qed

subsection \<open>Executions\<close>

text \<open>Where a coroutine stands with respect to the locks it asks for.\<close>

datatype mpc =
    Running
  | WaitLock addr
  | GrantLock addr
  | WaitRelock addr addr
  | GrantRelock addr addr

fun wait_of :: "mpc \<Rightarrow> addr option" where
  "wait_of (WaitLock m) = Some m"
| "wait_of (WaitRelock m g) = Some m"
| "wait_of _ = None"

fun grant_of :: "mpc \<Rightarrow> addr option" where
  "grant_of (GrantLock m) = Some m"
| "grant_of (GrantRelock m g) = Some m"
| "grant_of _ = None"

fun relocks :: "mpc \<Rightarrow> addr option" where
  "relocks (WaitRelock m g) = Some g"
| "relocks (GrantRelock m g) = Some g"
| "relocks _ = None"

text \<open>A woken coroutine has been given the lock it waited for.\<close>

fun granted :: "mpc \<Rightarrow> mpc" where
  "granted (WaitLock m) = GrantLock m"
| "granted (WaitRelock m g) = GrantRelock m g"
| "granted p = p"

record mstate =
  mstore :: mutexes
  gstore :: "addr \<rightharpoonup> lock_guard"
  mpcs :: "handle \<Rightarrow> mpc"

definition grant_all :: "handle list \<Rightarrow> (handle \<Rightarrow> mpc) \<Rightarrow> handle \<Rightarrow> mpc" where
  "grant_all hs ps h = (if h \<in> set hs then granted (ps h) else ps h)"

text \<open>A guard that a suspended coroutine is relocking is in use by it.\<close>

definition in_use :: "mstate \<Rightarrow> addr \<Rightarrow> bool" where
  "in_use s ga \<longleftrightarrow> (\<exists>h. relocks (mpcs s h) = Some ga)"

inductive mutex_step :: "mstate \<Rightarrow> mstate \<Rightarrow> bool" where
  ms_new: "a \<noteq> 0 \<Longrightarrow> mstore s a = None \<Longrightarrow> mutex_step s (s\<lparr>mstore := (mstore s)(a \<mapsto> new_amutex)\<rparr>)"
| ms_lock: "mpcs s h = Running \<Longrightarrow> mstore s a \<noteq> None \<Longrightarrow> lock_await_suspend a h (mstore s) = (M, Ret b) \<Longrightarrow>
    mutex_step s (s\<lparr>mstore := M, mpcs := (mpcs s)(h := if b then WaitLock a else GrantLock a)\<rparr>)"
| ms_lock_resume: "mpcs s h = GrantLock a \<Longrightarrow> gstore s ga = None \<Longrightarrow>
    mutex_step s (s\<lparr>gstore := (gstore s)(ga \<mapsto> lock_await_resume a), mpcs := (mpcs s)(h := Running)\<rparr>)"
| ms_relock: "mpcs s h = Running \<Longrightarrow> gstore s ga = Some g \<Longrightarrow> \<not> in_use s ga \<Longrightarrow> \<not> g_owns g \<Longrightarrow>
    g_mutex g \<noteq> 0 \<Longrightarrow> relock_await_suspend g h (mstore s) = (M, Ret b) \<Longrightarrow>
    mutex_step s (s\<lparr>mstore := M,
      mpcs := (mpcs s)(h := if b then WaitRelock (g_mutex g) ga else GrantRelock (g_mutex g) ga)\<rparr>)"
| ms_relock_resume: "mpcs s h = GrantRelock m ga \<Longrightarrow> gstore s ga = Some g \<Longrightarrow>
    mutex_step s (s\<lparr>gstore := (gstore s)(ga \<mapsto> relock_await_resume g), mpcs := (mpcs s)(h := Running)\<rparr>)"
| ms_unlock: "gstore s ga = Some g \<Longrightarrow> \<not> in_use s ga \<Longrightarrow> guard_unlock g (mstore s) = (M, Ret (g', hs)) \<Longrightarrow>
    mutex_step s (s\<lparr>mstore := M, gstore := (gstore s)(ga \<mapsto> g'), mpcs := grant_all hs (mpcs s)\<rparr>)"
| ms_destroy: "gstore s ga = Some g \<Longrightarrow> \<not> in_use s ga \<Longrightarrow> guard_destroy g (mstore s) = (M, Ret hs) \<Longrightarrow>
    mutex_step s (s\<lparr>mstore := M, gstore := (gstore s)(ga := None), mpcs := grant_all hs (mpcs s)\<rparr>)"
| ms_move: "gstore s ga = Some g \<Longrightarrow> \<not> in_use s ga \<Longrightarrow> gstore s gb = None \<Longrightarrow> guard_move g = (new, old) \<Longrightarrow>
    mutex_step s (s\<lparr>gstore := (gstore s)(ga \<mapsto> old, gb \<mapsto> new)\<rparr>)"
| ms_assign: "gstore s ga = Some x \<Longrightarrow> gstore s gb = Some y \<Longrightarrow> ga \<noteq> gb \<Longrightarrow> \<not> in_use s ga \<Longrightarrow> \<not> in_use s gb \<Longrightarrow>
    guard_move_assign x y (mstore s) = (M, Ret (x', y', hs)) \<Longrightarrow>
    mutex_step s (s\<lparr>mstore := M, gstore := (gstore s)(ga \<mapsto> x', gb \<mapsto> y'), mpcs := grant_all hs (mpcs s)\<rparr>)"

definition mutex_init :: "mstate \<Rightarrow> bool" where
  "mutex_init s \<longleftrightarrow> s = \<lparr>mstore = (\<lambda>_. None), gstore = (\<lambda>_. None), mpcs = (\<lambda>_. Running)\<rparr>"

text \<open>Who claims which mutex: the guards that own, the coroutines that were granted.\<close>

definition own_of :: "lock_guard option \<Rightarrow> addr option" where
  "own_of g = (case g of None \<Rightarrow> None | Some g \<Rightarrow> if g_owns g then Some (g_mutex g) else None)"

fun claims :: "mstate \<Rightarrow> addr + handle \<Rightarrow> addr option" where
  "claims s (Inl ga) = own_of (gstore s ga)"
| "claims s (Inr h) = grant_of (mpcs s h)"

definition mutex_inv :: "mstate \<Rightarrow> bool" where
  "mutex_inv s \<longleftrightarrow>
     locks_inv (mstore s) (claims s) (wait_of \<circ> mpcs s) \<and>
     (\<forall>ga g. gstore s ga = Some g \<longrightarrow> g_mutex g \<noteq> 0 \<longrightarrow> mstore s (g_mutex g) \<noteq> None) \<and>
     (\<forall>h m ga. mpcs s h = WaitRelock m ga \<or> mpcs s h = GrantRelock m ga \<longrightarrow>
        gstore s ga = Some \<lparr>g_mutex = m, g_owns = False\<rparr>) \<and>
     (\<forall>h k ga. relocks (mpcs s h) = Some ga \<longrightarrow> relocks (mpcs s k) = Some ga \<longrightarrow> h = k)"

lemma mutex_inv_locks: "mutex_inv s \<Longrightarrow> locks_inv (mstore s) (claims s) (wait_of \<circ> mpcs s)"
  by (simp add: mutex_inv_def)

lemma mutex_invI:
  assumes "locks_inv (mstore s) (claims s) (wait_of \<circ> mpcs s)"
    and "\<And>ga g. gstore s ga = Some g \<Longrightarrow> g_mutex g \<noteq> 0 \<Longrightarrow> mstore s (g_mutex g) \<noteq> None"
    and "\<And>h m ga. mpcs s h = WaitRelock m ga \<or> mpcs s h = GrantRelock m ga \<Longrightarrow>
        gstore s ga = Some \<lparr>g_mutex = m, g_owns = False\<rparr>"
    and "\<And>h k ga. relocks (mpcs s h) = Some ga \<Longrightarrow> relocks (mpcs s k) = Some ga \<Longrightarrow> h = k"
  shows "mutex_inv s"
  unfolding mutex_inv_def using assms by blast

lemma relocks_iff: "relocks p = Some ga \<longleftrightarrow> (\<exists>m. p = WaitRelock m ga \<or> p = GrantRelock m ga)"
  by (cases p) auto

lemma grant_all_simps [simp]:
  "grant_all [] ps = ps" "relocks (grant_all hs ps h) = relocks (ps h)"
proof -
  show "grant_all [] ps = ps" by (simp add: grant_all_def fun_eq_iff)
  have "relocks (granted p) = relocks p" for p by (cases p) auto
  then show "relocks (grant_all hs ps h) = relocks (ps h)" by (simp add: grant_all_def)
qed

lemma grant_all_relock:
  "grant_all hs ps h = WaitRelock m ga \<or> grant_all hs ps h = GrantRelock m ga \<Longrightarrow>
   ps h = WaitRelock m ga \<or> ps h = GrantRelock m ga"
  by (cases "ps h") (auto simp: grant_all_def split: if_splits)

text \<open>
  Giving up a claim, by any holder: the first waiter is granted the lock, or it is released.
\<close>

lemma unlock_locks:
  assumes inv: "locks_inv (mstore s) (claims s) (wait_of \<circ> mpcs s)" and t: "claims s t = Some a"
  shows "\<exists>M hs. mutex_unlock a (mstore s) = (M, Ret hs) \<and> dom M = dom (mstore s) \<and>
    locks_inv M (\<lambda>u. if u = t then None else
        (case u of Inl ga \<Rightarrow> own_of (gstore s ga) | Inr h \<Rightarrow> grant_of (grant_all hs (mpcs s) h)))
      (wait_of \<circ> grant_all hs (mpcs s))"
proof -
  obtain x where x: "mstore s a = Some x" using inv t by (auto simp: locks_inv_def claimed_def)
  show ?thesis
  proof (cases "mx_wait_queue x")
    case Nil
    have c: "(claims s)(t := None) = (\<lambda>u. if u = t then None else
        (case u of Inl ga \<Rightarrow> own_of (gstore s ga) | Inr h \<Rightarrow> grant_of (grant_all [] (mpcs s) h)))"
      by (auto simp: fun_eq_iff split: sum.splits)
    have d: "wait_of \<circ> mpcs s = wait_of \<circ> grant_all [] (mpcs s)" by simp
    from locks_release [OF inv t x Nil] x Nil show ?thesis
      unfolding c d by (intro exI [of _ "(mstore s)(a \<mapsto> x\<lparr>mx_lock := False\<rparr>)"] exI [of _ "[]"])
        (auto simp: mutex_unlock_def simp del: grant_all_simps)
  next
    case (Cons h q)
    have w: "wait_of (mpcs s h) = Some a"
      using locks_mutex [OF inv x] Cons by (auto simp: mutex_ok_def)
    then have g: "claims s (Inr h) = None" "grant_of (granted (mpcs s h)) = Some a"
      "wait_of (granted (mpcs s h)) = None" by (cases "mpcs s h"; simp)+
    then have ht: "Inr h \<noteq> t" using t by auto
    have c: "(claims s)(t := None, Inr h := Some a) = (\<lambda>u. if u = t then None else
        (case u of Inl ga \<Rightarrow> own_of (gstore s ga) | Inr k \<Rightarrow> grant_of (grant_all [h] (mpcs s) k)))"
      using g ht by (auto simp: fun_eq_iff grant_all_def split: sum.splits)
    have d: "(wait_of \<circ> mpcs s)(h := None) = wait_of \<circ> grant_all [h] (mpcs s)"
      using g by (auto simp: fun_eq_iff grant_all_def)
    from locks_handoff [OF inv t g(1) x Cons] x Cons show ?thesis
      unfolding c d by (auto simp: mutex_unlock_def)
  qed
qed

lemma claims_eq: "claims s = (\<lambda>u. case u of Inl ga \<Rightarrow> own_of (gstore s ga) | Inr h \<Rightarrow> grant_of (mpcs s h))"
  by (auto simp: fun_eq_iff split: sum.splits)

lemma not_in_use:
  "mutex_inv s \<Longrightarrow> \<not> in_use s ga \<Longrightarrow> mpcs s h = WaitRelock m gb \<or> mpcs s h = GrantRelock m gb \<Longrightarrow> gb \<noteq> ga"
  by (auto simp: in_use_def relocks_iff)

text \<open>Dropping what a guard owns, whatever becomes of the guard object.\<close>

lemma drop_guard:
  assumes inv: "mutex_inv s" and g: "gstore s ga = Some g" "\<not> in_use s ga"
    and M: "guard_destroy g (mstore s) = (M, Ret hs)"
    and r: "own_of r = None" "\<And>g'. r = Some g' \<Longrightarrow> g_mutex g' = g_mutex g \<or> g_mutex g' = 0"
  shows "mutex_inv (s\<lparr>mstore := M, gstore := (gstore s)(ga := r), mpcs := grant_all hs (mpcs s)\<rparr>)"
proof (rule mutex_invI)
  let ?s = "s\<lparr>mstore := M, gstore := (gstore s)(ga := r), mpcs := grant_all hs (mpcs s)\<rparr>"
  note L = mutex_inv_locks [OF inv]
  have c: "claims ?s = (\<lambda>u. if u = Inl ga then None else
        (case u of Inl ga \<Rightarrow> own_of (gstore s ga) | Inr h \<Rightarrow> grant_of (grant_all hs (mpcs s) h)))"
    using r(1) by (auto simp: claims_eq fun_eq_iff split: sum.splits)
  have both: "locks_inv M (claims ?s) (wait_of \<circ> grant_all hs (mpcs s)) \<and> dom M = dom (mstore s)"
  proof (cases "g_owns g")
    case True
    then have t: "claims s (Inl ga) = Some (g_mutex g)" using g by (simp add: own_of_def)
    then have "g_mutex g \<noteq> 0" using claim_live [OF L] by blast
    with True M have "mutex_unlock (g_mutex g) (mstore s) = (M, Ret hs)" by (simp add: guard_destroy_def)
    with unlock_locks [OF L t] show ?thesis unfolding c by auto
  next
    case False
    then have "M = mstore s" "hs = []" using M by (auto simp: guard_destroy_def)
    moreover have "claims ?s = claims s"
      using False g r(1) calculation by (auto simp: claims_eq fun_eq_iff own_of_def split: sum.splits)
    ultimately show ?thesis using L by simp
  qed
  then show "locks_inv (mstore ?s) (claims ?s) (wait_of \<circ> mpcs ?s)" by simp
  have M0: "M 0 = None" using both by (simp add: locks_inv_def)
  show "mstore ?s (g_mutex f) \<noteq> None" if "gstore ?s b = Some f" "g_mutex f \<noteq> 0" for b f
  proof -
    have "mstore s (g_mutex f) \<noteq> None"
      using that r(2) g inv by (auto simp: mutex_inv_def split: if_splits)
    with both show ?thesis by auto
  qed
  show "gstore ?s gb = Some \<lparr>g_mutex = m, g_owns = False\<rparr>"
    if "mpcs ?s h = WaitRelock m gb \<or> mpcs ?s h = GrantRelock m gb" for h m gb
  proof -
    have "mpcs s h = WaitRelock m gb \<or> mpcs s h = GrantRelock m gb"
      using that grant_all_relock [of hs "mpcs s" h m gb] by simp
    with inv not_in_use [OF inv g(2)] show ?thesis by (auto simp: mutex_inv_def)
  qed
  show "h = k" if "relocks (mpcs ?s h) = Some gb" "relocks (mpcs ?s k) = Some gb" for h k gb
    using that inv by (auto simp: mutex_inv_def)
qed

text \<open>Moving what a guard owns to a guard object that owns nothing.\<close>

lemma move_guard:
  assumes inv: "mutex_inv s" and g: "gstore s ga = Some g" "\<not> in_use s ga"
    and b: "gb \<noteq> ga" "own_of (gstore s gb) = None" "\<not> in_use s gb"
  shows "mutex_inv (s\<lparr>gstore := (gstore s)(ga \<mapsto> \<lparr>g_mutex = 0, g_owns = False\<rparr>,
    gb \<mapsto> \<lparr>g_mutex = g_mutex g, g_owns = g_owns g\<rparr>)\<rparr>)"
proof (rule mutex_invI)
  let ?s = "s\<lparr>gstore := (gstore s)(ga \<mapsto> \<lparr>g_mutex = 0, g_owns = False\<rparr>,
    gb \<mapsto> \<lparr>g_mutex = g_mutex g, g_owns = g_owns g\<rparr>)\<rparr>"
  note L = mutex_inv_locks [OF inv]
  have "locks_inv (mstore s) (claims ?s) (wait_of \<circ> mpcs s)"
  proof (cases "g_owns g")
    case True
    then have t: "claims s (Inl ga) = Some (g_mutex g)" using g by (simp add: own_of_def)
    have "claims ?s = (claims s)(Inl ga := None, Inl gb := Some (g_mutex g))"
      using True b g by (auto simp: claims_eq fun_eq_iff own_of_def split: sum.splits)
    with locks_transfer [OF L t, of "Inl gb"] b show ?thesis by simp
  next
    case False
    then have "claims ?s = claims s"
      using b g by (auto simp: claims_eq fun_eq_iff own_of_def split: sum.splits)
    with L show ?thesis by simp
  qed
  then show "locks_inv (mstore ?s) (claims ?s) (wait_of \<circ> mpcs ?s)" by simp
  show "mstore ?s (g_mutex f) \<noteq> None" if "gstore ?s c = Some f" "g_mutex f \<noteq> 0" for c f
    using that g inv by (auto simp: mutex_inv_def split: if_splits)
  show "gstore ?s gc = Some \<lparr>g_mutex = m, g_owns = False\<rparr>"
    if "mpcs ?s h = WaitRelock m gc \<or> mpcs ?s h = GrantRelock m gc" for h m gc
    using that inv not_in_use [OF inv g(2)] not_in_use [OF inv b(3)] by (auto simp: mutex_inv_def)
  show "h = k" if "relocks (mpcs ?s h) = Some gb" "relocks (mpcs ?s k) = Some gb" for h k gb
    using that inv by (auto simp: mutex_inv_def)
qed

text \<open>Asking for a lock, afresh or through a guard.\<close>

lemma ask_lock:
  assumes inv: "mutex_inv s" and h: "mpcs s h = Running" and x: "mstore s a = Some x"
    and p: "wait_of pw = Some a" "grant_of pw = None" "grant_of pg = Some a" "wait_of pg = None"
    and r: "\<And>m ga. pw = WaitRelock m ga \<or> pg = GrantRelock m ga \<Longrightarrow>
        gstore s ga = Some \<lparr>g_mutex = m, g_owns = False\<rparr> \<and> \<not> in_use s ga"
    and q: "\<And>m ga. pw \<noteq> GrantRelock m ga \<and> pg \<noteq> WaitRelock m ga"
  shows "mutex_inv (if mx_lock x
    then s\<lparr>mstore := (mstore s)(a \<mapsto> x\<lparr>mx_wait_queue := mx_wait_queue x @ [h]\<rparr>), mpcs := (mpcs s)(h := pw)\<rparr>
    else s\<lparr>mstore := (mstore s)(a \<mapsto> x\<lparr>mx_lock := True\<rparr>), mpcs := (mpcs s)(h := pg)\<rparr>)"
    (is "mutex_inv ?s")
proof (rule mutex_invI)
  note L = mutex_inv_locks [OF inv]
  have w: "(wait_of \<circ> mpcs s) h = None" "claims s (Inr h) = None" using h by simp_all
  have c: "claims (s\<lparr>mstore := M, mpcs := (mpcs s)(h := pw)\<rparr>) = claims s"
    "claims (s\<lparr>mstore := M, mpcs := (mpcs s)(h := pg)\<rparr>) = (claims s)(Inr h := Some a)" for M
    using h p by (auto simp: claims_eq fun_eq_iff split: sum.splits)
  have d: "wait_of \<circ> (mpcs s)(h := pw) = (wait_of \<circ> mpcs s)(h := Some a)"
    "wait_of \<circ> (mpcs s)(h := pg) = wait_of \<circ> mpcs s"
    using h p by (auto simp: fun_eq_iff)
  show "locks_inv (mstore ?s) (claims ?s) (wait_of \<circ> mpcs ?s)"
    using locks_wait [OF L x _ w(1)] locks_acquire [OF L x _ w(2)] by (simp add: c d del: comp_apply)
  show "mstore ?s (g_mutex f) \<noteq> None" if "gstore ?s b = Some f" "g_mutex f \<noteq> 0" for b f
    using that inv x by (auto simp: mutex_inv_def split: if_splits)
  show "gstore ?s gb = Some \<lparr>g_mutex = m, g_owns = False\<rparr>"
    if "mpcs ?s k = WaitRelock m gb \<or> mpcs ?s k = GrantRelock m gb" for k m gb
    using that inv r [of m gb] q [of m gb] by (auto simp: mutex_inv_def split: if_splits)
  show "j = k" if "relocks (mpcs ?s j) = Some gb" "relocks (mpcs ?s k) = Some gb" for j k gb
  proof -
    have "relocks pw = Some gb \<or> relocks pg = Some gb \<Longrightarrow> \<not> in_use s gb"
      using r q by (auto simp: relocks_iff)
    then show ?thesis using that inv by (auto simp: mutex_inv_def in_use_def split: if_splits)
  qed
qed

text \<open>A granted coroutine resumes and its guard owns the lock.\<close>

lemma take_grant:
  assumes inv: "mutex_inv s" and h: "grant_of (mpcs s h) = Some a" and g: "own_of (gstore s ga) = None"
    and use: "\<And>k. relocks (mpcs s k) = Some ga \<Longrightarrow> k = h"
  shows "mutex_inv (s\<lparr>gstore := (gstore s)(ga \<mapsto> \<lparr>g_mutex = a, g_owns = True\<rparr>), mpcs := (mpcs s)(h := Running)\<rparr>)"
    (is "mutex_inv ?s")
proof (rule mutex_invI)
  note L = mutex_inv_locks [OF inv]
  have t: "claims s (Inr h) = Some a" using h by simp
  have "claims ?s = (claims s)(Inr h := None, Inl ga := Some a)"
    by (auto simp: claims_eq fun_eq_iff own_of_def split: sum.splits)
  moreover have "wait_of \<circ> mpcs ?s = wait_of \<circ> mpcs s"
    using h by (cases "mpcs s h") (auto simp: fun_eq_iff)
  ultimately show "locks_inv (mstore ?s) (claims ?s) (wait_of \<circ> mpcs ?s)"
    using locks_transfer [OF L t, of "Inl ga"] g by simp
  show "mstore ?s (g_mutex f) \<noteq> None" if "gstore ?s b = Some f" "g_mutex f \<noteq> 0" for b f
    using that inv claim_live [OF L t] by (auto simp: mutex_inv_def split: if_splits)
  show "gstore ?s gb = Some \<lparr>g_mutex = m, g_owns = False\<rparr>"
    if "mpcs ?s k = WaitRelock m gb \<or> mpcs ?s k = GrantRelock m gb" for k m gb
    using that inv use [of k] by (auto simp: mutex_inv_def relocks_iff split: if_splits)
  show "j = k" if "relocks (mpcs ?s j) = Some gb" "relocks (mpcs ?s k) = Some gb" for j k gb
    using that inv by (auto simp: mutex_inv_def split: if_splits)
qed

lemma guard_eq: "g = \<lparr>g_mutex = m, g_owns = b\<rparr> \<longleftrightarrow> g_mutex g = m \<and> g_owns g = b"
  by (cases g) auto

lemma guard_upd [simp]: "g\<lparr>g_mutex := m, g_owns := b\<rparr> = \<lparr>g_mutex = m, g_owns = b\<rparr>"
  by (cases g) simp

lemma fun_upd_const [simp]: "(\<lambda>_. c)(x := c) = (\<lambda>_. c)"
  by auto

text \<open>The steps that ask for a lock, give it up and move it, each alone.\<close>

lemma ms_lock_inv:
  assumes "mpcs s h = Running" and "mstore s a \<noteq> None" and "lock_await_suspend a h (mstore s) = (M, Ret b)" and "mutex_inv s"
  shows "mutex_inv (s\<lparr>mstore := M, mpcs := (mpcs s)(h := if b then WaitLock a else GrantLock a)\<rparr>)"
proof -
  from assms(2) obtain x where x: "mstore s a = Some x" by auto
  with assms(3) have "M = (mstore s)(a \<mapsto> if b then x\<lparr>mx_wait_queue := mx_wait_queue x @ [h]\<rparr> else x\<lparr>mx_lock := True\<rparr>)"
    and "b = mx_lock x" by (auto simp: lock_await_suspend_def split: if_splits)
  with ask_lock [OF assms(4,1) x, of "WaitLock a" "GrantLock a"] show ?thesis
    by (auto split: if_splits)
qed

lemma ms_relock_inv:
  assumes "mpcs s h = Running" and "gstore s ga = Some g" and "\<not> in_use s ga" and "\<not> g_owns g"
    and "g_mutex g \<noteq> 0" and "relock_await_suspend g h (mstore s) = (M, Ret b)" and "mutex_inv s"
  shows "mutex_inv (s\<lparr>mstore := M,
      mpcs := (mpcs s)(h := if b then WaitRelock (g_mutex g) ga else GrantRelock (g_mutex g) ga)\<rparr>)"
proof -
  let ?a = "g_mutex g"
  obtain x where x: "mstore s ?a = Some x" using assms(2,5,7) unfolding mutex_inv_def by blast
  with assms(6) have M: "M = (mstore s)(?a \<mapsto> if b then x\<lparr>mx_wait_queue := mx_wait_queue x @ [h]\<rparr> else x\<lparr>mx_lock := True\<rparr>)"
    and b: "b = mx_lock x" by (auto simp: relock_await_suspend_def split: if_splits)
  have "g = \<lparr>g_mutex = ?a, g_owns = False\<rparr>" using assms(4) by (simp add: guard_eq)
  with assms(2,3) have "\<And>m gb. WaitRelock ?a ga = WaitRelock m gb \<or> GrantRelock ?a ga = GrantRelock m gb \<Longrightarrow>
      gstore s gb = Some \<lparr>g_mutex = m, g_owns = False\<rparr> \<and> \<not> in_use s gb" by auto
  from ask_lock [of s h ?a x "WaitRelock ?a ga" "GrantRelock ?a ga", OF assms(7,1) x _ _ _ _ this] M b
  show ?thesis by (auto split: if_splits)
qed

lemma ms_unlock_inv:
  assumes "gstore s ga = Some g" and "\<not> in_use s ga" and "guard_unlock g (mstore s) = (M, Ret (g', hs))" and "mutex_inv s"
  shows "mutex_inv (s\<lparr>mstore := M, gstore := (gstore s)(ga \<mapsto> g'), mpcs := grant_all hs (mpcs s)\<rparr>)"
proof (cases "g_owns g \<and> g_mutex g \<noteq> 0")
  case True
  with assms(3) have "guard_destroy g (mstore s) = (M, Ret hs)" "g' = g\<lparr>g_owns := False\<rparr>"
    by (auto simp: guard_unlock_def guard_destroy_def bind_res_Ret_iff)
  with drop_guard [OF assms(4,1,2), of M hs "Some g'"] show ?thesis by (simp add: own_of_def)
next
  case False
  with assms(3) have eq: "M = mstore s" "g' = g" "hs = []" by (auto simp: guard_unlock_def)
  have "s\<lparr>mstore := mstore s, gstore := (gstore s)(ga \<mapsto> g), mpcs := mpcs s\<rparr> = s"
    using assms(1) by (cases s) (auto simp: fun_upd_idem)
  with assms(4) show ?thesis by (simp add: eq)
qed

lemma ms_assign_inv:
  assumes "gstore s ga = Some x" and "gstore s gb = Some y" and "ga \<noteq> gb" and "\<not> in_use s ga" and "\<not> in_use s gb"
    and "guard_move_assign x y (mstore s) = (M, Ret (x', y', hs))" and "mutex_inv s"
  shows "mutex_inv (s\<lparr>mstore := M, gstore := (gstore s)(ga \<mapsto> x', gb \<mapsto> y'), mpcs := grant_all hs (mpcs s)\<rparr>)"
proof -
  have d: "guard_destroy x (mstore s) = (M, Ret hs)"
    and x': "x' = \<lparr>g_mutex = g_mutex y, g_owns = g_owns y\<rparr>" and y': "y' = \<lparr>g_mutex = 0, g_owns = False\<rparr>"
    using assms(6) by (auto simp: guard_move_assign_def guard_destroy_def bind_res_Ret_iff guard_eq split: if_splits)
  let ?s = "s\<lparr>mstore := M, gstore := (gstore s)(ga := None), mpcs := grant_all hs (mpcs s)\<rparr>"
  have i: "mutex_inv ?s" using drop_guard [OF assms(7,1,4) d, of None] by (simp add: own_of_def)
  have u: "in_use ?s = in_use s" by (simp add: in_use_def fun_eq_iff)
  have "gstore ?s gb = Some y" "ga \<noteq> gb" "\<not> in_use ?s gb" "\<not> in_use ?s ga"
    using assms by (simp_all add: u)
  with move_guard [OF i, of gb y ga] x' y' show ?thesis
    by (cases s) (simp add: own_of_def fun_upd_twist)
qed

lemma mutex_step_inv: "mutex_step s s' \<Longrightarrow> mutex_inv s \<Longrightarrow> mutex_inv s'"
proof (induction rule: mutex_step.induct)
  case (ms_new a s)
  let ?s = "s\<lparr>mstore := (mstore s)(a \<mapsto> new_amutex)\<rparr>"
  have "claims ?s = claims s" by (auto simp: claims_eq fun_eq_iff split: sum.splits)
  with ms_new locks_new [OF mutex_inv_locks [OF ms_new(3)] ms_new(2,1)] show ?case
    by (auto simp: mutex_inv_def)
next
  case (ms_lock s h a M b)
  then show ?case by (rule ms_lock_inv)
next
  case (ms_lock_resume s h a ga)
  have "\<And>k. relocks (mpcs s k) = Some ga \<Longrightarrow> k = h"
    using ms_lock_resume by (auto simp: mutex_inv_def relocks_iff)
  with take_grant [OF ms_lock_resume(3), of h a ga] ms_lock_resume show ?case
    by (simp add: own_of_def lock_await_resume_def)
next
  case (ms_relock s h ga g M b)
  then show ?case by (rule ms_relock_inv)
next
  case (ms_relock_resume s h m ga g)
  then have g: "g = \<lparr>g_mutex = m, g_owns = False\<rparr>" by (auto simp: mutex_inv_def)
  have "k = h" if "relocks (mpcs s k) = Some ga" for k
    using ms_relock_resume that unfolding mutex_inv_def by (metis relocks.simps(2))
  with take_grant [OF ms_relock_resume(3), of h m ga] ms_relock_resume g show ?case
    by (simp add: own_of_def relock_await_resume_def)
next
  case (ms_unlock s ga g M g' hs)
  then show ?case by (rule ms_unlock_inv)
next
  case (ms_destroy s ga g M hs)
  then show ?case using drop_guard [OF ms_destroy(4,1,2,3), of None] by (simp add: own_of_def)
next
  case (ms_move s ga g gb new old)
  have "gb \<noteq> ga" "\<not> in_use s gb"
    using ms_move by (auto simp: in_use_def relocks_iff mutex_inv_def)
  with move_guard [OF ms_move(5,1,2), of gb] ms_move show ?case
    by (auto simp: guard_move_def own_of_def)
next
  case (ms_assign s ga x gb y M x' y' hs)
  then show ?case by (rule ms_assign_inv)
qed

interpretation amutex: invariant_system mutex_init mutex_step mutex_inv
proof
  show "mutex_inv s" if "mutex_init s" for s
    using that by (auto simp: mutex_init_def mutex_inv_def locks_inv_def claims_eq own_of_def claimed_def
        single_def split: sum.splits)
qed (rule mutex_step_inv)

subsection \<open>Properties\<close>

text \<open>An execution: coroutine 1 locks the mutex at 8, coroutine 2 waits for it.\<close>

definition demo_mutex :: mstate where
  "demo_mutex = \<lparr>mstore = [8 \<mapsto> \<lparr>mx_lock = True, mx_wait_queue = [2]\<rparr>],
     gstore = [16 \<mapsto> \<lparr>g_mutex = 8, g_owns = True\<rparr>], mpcs = (\<lambda>_. Running)(2 := WaitLock 8)\<rparr>"

lemma demo_mutex_reach: "reach mutex_init mutex_step demo_mutex"
proof -
  let ?s0 = "\<lparr>mstore = (\<lambda>_. None), gstore = (\<lambda>_. None), mpcs = (\<lambda>_. Running)\<rparr>"
  let ?s1 = "?s0\<lparr>mstore := [8 \<mapsto> new_amutex]\<rparr>"
  let ?s2 = "?s1\<lparr>mstore := [8 \<mapsto> \<lparr>mx_lock = True, mx_wait_queue = []\<rparr>], mpcs := (\<lambda>_. Running)(1 := GrantLock 8)\<rparr>"
  let ?s3 = "?s2\<lparr>gstore := [16 \<mapsto> \<lparr>g_mutex = 8, g_owns = True\<rparr>], mpcs := (\<lambda>_. Running)\<rparr>"
  have 0: "reach mutex_init mutex_step ?s0" by (rule reach_init) (simp add: mutex_init_def)
  have 1: "mutex_step ?s0 ?s1" using ms_new [of 8 ?s0] by simp
  have 2: "mutex_step ?s1 ?s2"
    using ms_lock [of ?s1 1 8 "[8 \<mapsto> \<lparr>mx_lock = True, mx_wait_queue = []\<rparr>]" False]
    by (simp add: lock_await_suspend_def new_amutex_def)
  have 3: "mutex_step ?s2 ?s3"
    using ms_lock_resume [of ?s2 1 8 16] by (simp add: lock_await_resume_def)
  have 4: "mutex_step ?s3 demo_mutex"
    using ms_lock [of ?s3 2 8 "[8 \<mapsto> \<lparr>mx_lock = True, mx_wait_queue = [2]\<rparr>]" True]
    by (simp add: lock_await_suspend_def demo_mutex_def)
  show ?thesis using 0 1 2 3 4 by (blast intro: reach_step)
qed





text \<open>
  (C21) Unlocking, by \<open>LockGuard::unlock\<close>, by destruction or by move assignment, is never
  undefined in a reachable state and passes the lock to the coroutine that waited longest;
  the lock becomes free exactly when nobody waits.
\<close>

theorem unlock_passes_the_lock_on:
  assumes "reach mutex_init mutex_step s" and "gstore s ga = Some g" and "g_owns g"
  shows "\<exists>x M hs. mstore s (g_mutex g) = Some x \<and>
    guard_unlock g (mstore s) = (M, Ret (g\<lparr>g_owns := False\<rparr>, hs)) \<and>
    guard_destroy g (mstore s) = (M, Ret hs) \<and>
    guard_move_assign g y (mstore s) =
      (M, Ret (\<lparr>g_mutex = g_mutex y, g_owns = g_owns y\<rparr>, \<lparr>g_mutex = 0, g_owns = False\<rparr>, hs)) \<and>
    hs = take 1 (mx_wait_queue x) \<and>
    M = (mstore s)(g_mutex g \<mapsto> \<lparr>mx_lock = (mx_wait_queue x \<noteq> []), mx_wait_queue = tl (mx_wait_queue x)\<rparr>)"
proof -
  note L = mutex_inv_locks [OF amutex.reach_inv [OF assms(1)]]
  have c: "claims s (Inl ga) = Some (g_mutex g)" using assms by (simp add: own_of_def)
  then obtain x where x: "mstore s (g_mutex g) = Some x" and nz: "g_mutex g \<noteq> 0"
    using claim_live [OF L c] by auto
  have l: "mx_lock x" by (rule claim_locked [OF L c x])
  have "mutex_unlock (g_mutex g) (mstore s) =
    ((mstore s)(g_mutex g \<mapsto> \<lparr>mx_lock = (mx_wait_queue x \<noteq> []), mx_wait_queue = tl (mx_wait_queue x)\<rparr>),
     Ret (take 1 (mx_wait_queue x)))"
    using x l by (cases x; cases "mx_wait_queue x") (simp_all add: mutex_unlock_def)
  with x nz assms(3) show ?thesis
    by (cases g; cases y) (simp add: guard_unlock_def guard_destroy_def guard_move_assign_def)
qed

theorem unlock_passes_the_lock_on_witness:
  "\<exists>M. guard_destroy \<lparr>g_mutex = 8, g_owns = True\<rparr> (mstore demo_mutex) = (M, Ret [2]) \<and>
    M 8 = Some \<lparr>mx_lock = True, mx_wait_queue = []\<rparr>"
  using unlock_passes_the_lock_on [OF demo_mutex_reach, of 16 "\<lparr>g_mutex = 8, g_owns = True\<rparr>"
      "\<lparr>g_mutex = 0, g_owns = False\<rparr>"]
  by (auto simp: demo_mutex_def)

end
