(* ===== verification/Condition_Variable.thy ===== *)
theory Condition_Variable
  imports Async_Mutex_Props
begin

text \<open>
  \<open>ConditionVariable\<close> of \<open>include/condition_variable.h\<close>. \<open>cv_state\<close> holds the variable's
  queue, the mutexes, the guard the waiting coroutine passed by reference and the data its
  predicate reads. \<open>wait\<close> is a coroutine: \<open>wait_resume\<close> runs it from the point where it
  is suspended to its next suspension or its end.
\<close>

subsection \<open>Operations\<close>

record 'd cv_state =
  cv_wait_queue :: "handle list"
  cv_mutexes :: mutexes
  cv_guard :: lock_guard
  cv_data :: 'd

text \<open>
  \<open>Awaiter::await_suspend\<close>: the coroutine joins the queue, then its guard is unlocked. It
  always suspends; the handles are those the unlock wakes.
\<close>

definition cv_await_suspend :: "handle \<Rightarrow> 'd cv_state \<Rightarrow> 'd cv_state \<times> (bool \<times> handle list) res" where
  "cv_await_suspend h s =
     (let s1 = s\<lparr>cv_wait_queue := cv_wait_queue s @ [h]\<rparr> in
      case guard_unlock (cv_guard s1) (cv_mutexes s1) of
        (M, Ret (g, hs)) \<Rightarrow> (s1\<lparr>cv_mutexes := M, cv_guard := g\<rparr>, Ret (True, hs))
      | (M, Throw x) \<Rightarrow> (s1\<lparr>cv_mutexes := M\<rparr>, Throw x)
      | (M, Undef) \<Rightarrow> (s1\<lparr>cv_mutexes := M\<rparr>, Undef))"

definition notify_one :: "'d cv_state \<Rightarrow> 'd cv_state \<times> (unit \<times> handle list) res" where
  "notify_one s =
     (case cv_wait_queue s of
        h # q \<Rightarrow> (s\<lparr>cv_wait_queue := q\<rparr>, Ret ((), [h]))
      | [] \<Rightarrow> (s, Ret ((), [])))"

fun cv_drain :: "handle list \<Rightarrow> handle list \<Rightarrow> handle list \<times> handle list" where
  "cv_drain [] hs = ([], hs)"
| "cv_drain (h # q) hs = cv_drain q (hs @ [h])"

definition notify_all :: "'d cv_state \<Rightarrow> 'd cv_state \<times> (unit \<times> handle list) res" where
  "notify_all s =
     (let (q, hs) = cv_drain (cv_wait_queue s) [] in (s\<lparr>cv_wait_queue := q\<rparr>, Ret ((), hs)))"

definition cv_notify_one where
  "cv_notify_one resume w = call_locked resume notify_one w"

definition cv_notify_all where
  "cv_notify_all resume w = call_locked resume notify_all w"

subsection \<open>The coroutine wait\<close>

text \<open>
  The suspension points of \<open>wait\<close>: its beginning, the awaiter of the variable, and the
  relocking of the guard. \<open>pred\<close> is the predicate of the first overload, \<open>None\<close> for the
  second, which waits once.
\<close>

datatype wait_pc = Wait_begin | Wait_notified | Wait_relocked | Wait_end

definition wait_suspend ::
  "handle \<Rightarrow> 'd cv_state \<Rightarrow> 'd cv_state \<times> (wait_pc \<times> handle list) res" where
  "wait_suspend h s =
     bind_res (cv_await_suspend h s) (\<lambda>s1 (b, hs). (s1, Ret (Wait_notified, hs)))"

definition wait_test ::
  "('d \<Rightarrow> bool) \<Rightarrow> handle \<Rightarrow> 'd cv_state \<Rightarrow> 'd cv_state \<times> (wait_pc \<times> handle list) res" where
  "wait_test op h s = (if op (cv_data s) then (s, Ret (Wait_end, [])) else wait_suspend h s)"

text \<open>After \<open>relock\<close> has resumed: the loop tests again, the second overload is finished.\<close>

definition wait_relocked ::
  "('d \<Rightarrow> bool) option \<Rightarrow> handle \<Rightarrow> 'd cv_state \<Rightarrow> 'd cv_state \<times> (wait_pc \<times> handle list) res" where
  "wait_relocked pred h s =
     (let s1 = s\<lparr>cv_guard := relock_await_resume (cv_guard s)\<rparr> in
      case pred of Some op \<Rightarrow> wait_test op h s1 | None \<Rightarrow> (s1, Ret (Wait_end, [])))"

fun wait_resume ::
  "('d \<Rightarrow> bool) option \<Rightarrow> handle \<Rightarrow> wait_pc \<Rightarrow> 'd cv_state \<Rightarrow> 'd cv_state \<times> (wait_pc \<times> handle list) res" where
  "wait_resume pred h Wait_begin s =
     (case pred of Some op \<Rightarrow> wait_test op h s | None \<Rightarrow> wait_suspend h s)"
| "wait_resume pred h Wait_notified s =
     (case relock_await_suspend (cv_guard s) h (cv_mutexes s) of
        (M, Ret True) \<Rightarrow> (s\<lparr>cv_mutexes := M\<rparr>, Ret (Wait_relocked, []))
      | (M, Ret False) \<Rightarrow> wait_relocked pred h (s\<lparr>cv_mutexes := M\<rparr>)
      | (M, Throw x) \<Rightarrow> (s\<lparr>cv_mutexes := M\<rparr>, Throw x)
      | (M, Undef) \<Rightarrow> (s\<lparr>cv_mutexes := M\<rparr>, Undef))"
| "wait_resume pred h Wait_relocked s = wait_relocked pred h s"
| "wait_resume pred h Wait_end s = (s, Undef)"

subsection \<open>Properties\<close>

lemma cv_drain_eq: "cv_drain q hs = ([], hs @ q)"
  by (induction q arbitrary: hs) auto

lemma notify_all_eq: "notify_all s = (s\<lparr>cv_wait_queue := []\<rparr>, Ret ((), cv_wait_queue s))"
  by (simp add: notify_all_def cv_drain_eq)

text \<open>
  (C22) Notification on a worker thread: \<open>notify_one\<close> moves the coroutine that waited
  longest, \<open>notify_all\<close> all of them in the order they came, from the variable's queue to the
  end of the worker's task queue.
\<close>

theorem notify_wakes_in_order:
  assumes "is_worker w" and "\<forall>h \<in> set (cv_wait_queue (obj w)). h \<noteq> null_handle"
  shows "local_queue (fst (cv_notify_one resume w)) = local_queue w @ take 1 (cv_wait_queue (obj w)) \<and>
    cv_wait_queue (obj (fst (cv_notify_one resume w))) = drop 1 (cv_wait_queue (obj w)) \<and>
    local_queue (fst (cv_notify_all resume w)) = local_queue w @ cv_wait_queue (obj w) \<and>
    cv_wait_queue (obj (fst (cv_notify_all resume w))) = []"
proof -
  let ?q = "cv_wait_queue (obj w)"
  have f: "filter (\<lambda>h. h \<noteq> null_handle) ?q = ?q" "filter (\<lambda>h. h \<noteq> null_handle) (take 1 ?q) = take 1 ?q"
    using assms(2) by (auto intro!: filter_True dest: in_set_takeD)
  have 1: "notify_one (obj w) = ((obj w)\<lparr>cv_wait_queue := drop 1 ?q\<rparr>, Ret ((), take 1 ?q))"
    by (cases "obj w"; cases ?q) (simp_all add: notify_one_def)
  show ?thesis
    using call_locked_worker [of w notify_one, OF assms(1) 1, of resume]
      call_locked_worker [of w notify_all, OF assms(1) notify_all_eq, of resume] f
    by (simp add: cv_notify_one_def cv_notify_all_def)
qed

definition demo_cv_world :: "(unit, unit, nat cv_state) world" where
  "demo_cv_world = \<lparr>engines = (\<lambda>_. new_engine ()), local_context_ptr = Some 0, pending_tasks = 1,
     io_store = (\<lambda>_. None), frames = (\<lambda>_. None),
     obj = \<lparr>cv_wait_queue = [4, 5], cv_mutexes = [8 \<mapsto> \<lparr>mx_lock = True, mx_wait_queue = [9]\<rparr>],
            cv_guard = \<lparr>g_mutex = 8, g_owns = True\<rparr>, cv_data = 0\<rparr>\<rparr>"

theorem notify_wakes_in_order_witness:
  "local_queue (fst (cv_notify_all (\<lambda>_ w. w) demo_cv_world)) = [4, 5]"
  using notify_wakes_in_order [of demo_cv_world "\<lambda>_ w. w"]
  by (simp add: demo_cv_world_def is_worker_def try_local_context_def local_queue_def new_engine_def)

text \<open>
  A coroutine that waits is in the variable's queue before its mutex is released, so
  that a notification sent after the release finds it; the mutex goes to the coroutine that
  waited for it longest, or becomes free, and the guard does not own it any more.
\<close>

lemma wait_registers_before_releasing:
  assumes "g_owns (cv_guard s)" and "g_mutex (cv_guard s) \<noteq> 0"
    and "cv_mutexes s (g_mutex (cv_guard s)) = Some x"
  shows "\<exists>s'. cv_await_suspend h s = (s', Ret (True, take 1 (mx_wait_queue x))) \<and>
    cv_wait_queue s' = cv_wait_queue s @ [h] \<and> \<not> g_owns (cv_guard s') \<and>
    g_mutex (cv_guard s') = g_mutex (cv_guard s) \<and>
    cv_mutexes s' (g_mutex (cv_guard s)) =
      Some (x\<lparr>mx_lock := mx_lock x \<and> mx_wait_queue x \<noteq> [], mx_wait_queue := tl (mx_wait_queue x)\<rparr>) \<and>
    cv_data s' = cv_data s"
  using assms by (cases x; cases "mx_wait_queue x")
    (auto simp: cv_await_suspend_def guard_unlock_def mutex_unlock_def)



end
