(* ===== verification/Cv_Race.thy ===== *)
theory Cv_Race
  imports Condition_Variable
begin

text \<open>
  \<open>ConditionVariable::Awaiter::await_suspend\<close> on several workers. The function is not one
  step for the other threads: it pushes the coroutine under the variable's mutex, then
  \<open>LockGuard::unlock\<close> calls \<open>AsyncMutex::unlock\<close>, and only after that writes
  \<open>owns_lock_ = false\<close>. From the push on, the coroutine can be notified, and from the
  unlock on it can be resumed on another worker and relock the same guard.

  The machine has one mutex at address 8 and one guard for each coroutine; \<open>rsus\<close> is where
  the thread that runs a coroutine's \<open>await_suspend\<close> stands, \<open>rco\<close> where the coroutine
  stands. Coroutines notify only while they own the mutex.
\<close>

datatype suspending = Returned | Before_unlock | Before_clear

datatype place = Outside | Locking | Locked | Inside | Parked_cv | Notified | Relocking | Relocked

record race =
  rqueue :: "handle list"
  rmx :: mutexes
  rguard :: "handle \<Rightarrow> lock_guard"
  rsus :: "handle \<Rightarrow> suspending"
  rco :: "handle \<Rightarrow> place"

fun woken :: "place \<Rightarrow> place" where
  "woken Locking = Locked"
| "woken Relocking = Relocked"
| "woken p = p"

definition wake :: "handle list \<Rightarrow> (handle \<Rightarrow> place) \<Rightarrow> handle \<Rightarrow> place" where
  "wake hs f h = (if h \<in> set hs then woken (f h) else f h)"

inductive race_step :: "race \<Rightarrow> race \<Rightarrow> bool" where
  race_lock: "rco s h = Outside \<Longrightarrow> lock_await_suspend 8 h (rmx s) = (M, Ret b) \<Longrightarrow>
    race_step s (s\<lparr>rmx := M, rco := (rco s)(h := if b then Locking else Locked)\<rparr>)"
| race_enter: "rco s h = Locked \<Longrightarrow>
    race_step s (s\<lparr>rguard := (rguard s)(h := lock_await_resume 8), rco := (rco s)(h := Inside)\<rparr>)"
| race_push: "rco s h = Inside \<Longrightarrow> rsus s h = Returned \<Longrightarrow>
    race_step s (s\<lparr>rqueue := rqueue s @ [h], rsus := (rsus s)(h := Before_unlock), rco := (rco s)(h := Parked_cv)\<rparr>)"
| race_unlock: "rsus s h = Before_unlock \<Longrightarrow> guard_destroy (rguard s h) (rmx s) = (M, Ret hs) \<Longrightarrow>
    race_step s (s\<lparr>rmx := M, rsus := (rsus s)(h := Before_clear), rco := wake hs (rco s)\<rparr>)"
| race_clear: "rsus s h = Before_clear \<Longrightarrow>
    race_step s (s\<lparr>rguard := (rguard s)(h := (rguard s h)\<lparr>g_owns := False\<rparr>), rsus := (rsus s)(h := Returned)\<rparr>)"
| race_notify: "rco s k = Inside \<Longrightarrow> rqueue s = h # q \<Longrightarrow>
    race_step s (s\<lparr>rqueue := q, rco := (rco s)(h := Notified)\<rparr>)"
| race_relock: "rco s h = Notified \<Longrightarrow> relock_await_suspend (rguard s h) h (rmx s) = (M, Ret b) \<Longrightarrow>
    race_step s (s\<lparr>rmx := M, rco := (rco s)(h := if b then Relocking else Relocked)\<rparr>)"
| race_relocked: "rco s h = Relocked \<Longrightarrow>
    race_step s (s\<lparr>rguard := (rguard s)(h := relock_await_resume (rguard s h)), rco := (rco s)(h := Inside)\<rparr>)"
| race_leave: "rco s h = Inside \<Longrightarrow> guard_destroy (rguard s h) (rmx s) = (M, Ret hs) \<Longrightarrow>
    race_step s (s\<lparr>rmx := M, rco := (wake hs (rco s))(h := Outside)\<rparr>)"

definition race_init :: "race \<Rightarrow> bool" where
  "race_init s \<longleftrightarrow>
     s = \<lparr>rqueue = [], rmx = [8 \<mapsto> new_amutex], rguard = (\<lambda>_. \<lparr>g_mutex = 8, g_owns = False\<rparr>),
          rsus = (\<lambda>_. Returned), rco = (\<lambda>_. Outside)\<rparr>"

text \<open>States of two coroutines: the queue, the mutex, the ownership flags, the two programs.\<close>

definition two ::
  "handle list \<Rightarrow> bool \<Rightarrow> handle list \<Rightarrow> bool \<Rightarrow> bool \<Rightarrow> suspending \<Rightarrow> place \<Rightarrow> place \<Rightarrow> race" where
  "two q l wq g1 g2 s1 c1 c2 =
     \<lparr>rqueue = q, rmx = [8 \<mapsto> \<lparr>mx_lock = l, mx_wait_queue = wq\<rparr>],
      rguard = (\<lambda>_. \<lparr>g_mutex = 8, g_owns = False\<rparr>)(1 := \<lparr>g_mutex = 8, g_owns = g1\<rparr>, 2 := \<lparr>g_mutex = 8, g_owns = g2\<rparr>),
      rsus = (\<lambda>_. Returned)(1 := s1), rco = (\<lambda>_. Outside)(1 := c1, 2 := c2)\<rparr>"

lemmas race_defs = lock_await_suspend_def lock_await_resume_def guard_destroy_def mutex_unlock_def
  relock_await_suspend_def relock_await_resume_def wake_def two_def fun_eq_iff

lemma race_eq: "race_step s t \<Longrightarrow> t = t' \<Longrightarrow> race_step s t'"
  by simp

abbreviation mx8 :: "bool \<Rightarrow> handle list \<Rightarrow> mutexes" where
  "mx8 l wq \<equiv> [8 \<mapsto> \<lparr>mx_lock = l, mx_wait_queue = wq\<rparr>]"

text \<open>
  Coroutine 1 enters and waits; coroutine 2, which asked for the lock meanwhile, gets it from
  the unlock inside coroutine 1's \<open>await_suspend\<close>, notifies and leaves; coroutine 1 is
  resumed elsewhere with the lock; only then does its \<open>await_suspend\<close> clear the flag.
\<close>

lemma race_execution:
  "steps race_step (two [] False [] False False Returned Outside Outside)
     (two [] True [] False True Returned Outside Outside)"
proof -
  have 1: "race_step (two [] False [] False False Returned Outside Outside) (two [] True [] False False Returned Locked Outside)"
    by (rule race_eq, rule race_lock [where h = 1 and b = False and M = "mx8 True []"]) (auto simp: race_defs)
  have 2: "race_step (two [] True [] False False Returned Locked Outside) (two [] True [] True False Returned Inside Outside)"
    by (rule race_eq, rule race_enter [where h = 1]) (auto simp: race_defs)
  have 3: "race_step (two [] True [] True False Returned Inside Outside) (two [] True [2] True False Returned Inside Locking)"
    by (rule race_eq, rule race_lock [where h = 2 and b = True and M = "mx8 True [2]"]) (auto simp: race_defs)
  have 4: "race_step (two [] True [2] True False Returned Inside Locking) (two [1] True [2] True False Before_unlock Parked_cv Locking)"
    by (rule race_eq, rule race_push [where h = 1]) (auto simp: race_defs)
  have 5: "race_step (two [1] True [2] True False Before_unlock Parked_cv Locking) (two [1] True [] True False Before_clear Parked_cv Locked)"
    by (rule race_eq, rule race_unlock [where h = 1 and hs = "[2]" and M = "mx8 True []"]) (auto simp: race_defs)
  have 6: "race_step (two [1] True [] True False Before_clear Parked_cv Locked) (two [1] True [] True True Before_clear Parked_cv Inside)"
    by (rule race_eq, rule race_enter [where h = 2]) (auto simp: race_defs)
  have 7: "race_step (two [1] True [] True True Before_clear Parked_cv Inside) (two [] True [] True True Before_clear Notified Inside)"
    by (rule race_eq, rule race_notify [where k = 2 and h = 1 and q = "[]"]) (auto simp: race_defs)
  have 8: "race_step (two [] True [] True True Before_clear Notified Inside) (two [] True [1] True True Before_clear Relocking Inside)"
    by (rule race_eq, rule race_relock [where h = 1 and b = True and M = "mx8 True [1]"]) (auto simp: race_defs)
  have 9: "race_step (two [] True [1] True True Before_clear Relocking Inside) (two [] True [] True True Before_clear Relocked Outside)"
    by (rule race_eq, rule race_leave [where h = 2 and hs = "[1]" and M = "mx8 True []"]) (auto simp: race_defs)
  have 10: "race_step (two [] True [] True True Before_clear Relocked Outside) (two [] True [] True True Before_clear Inside Outside)"
    by (rule race_eq, rule race_relocked [where h = 1]) (auto simp: race_defs)
  have 11: "race_step (two [] True [] True True Before_clear Inside Outside) (two [] True [] False True Returned Inside Outside)"
    by (rule race_eq, rule race_clear [where h = 1]) (auto simp: race_defs)
  have 12: "race_step (two [] True [] False True Returned Inside Outside) (two [] True [] False True Returned Outside Outside)"
    by (rule race_eq, rule race_leave [where h = 1 and hs = "[]" and M = "mx8 True []"]) (auto simp: race_defs)
  show ?thesis
    by (rule steps_more [where step = race_step, OF 1], rule steps_more [where step = race_step, OF 2], rule steps_more [where step = race_step, OF 3], rule steps_more [where step = race_step, OF 4],
        rule steps_more [where step = race_step, OF 5], rule steps_more [where step = race_step, OF 6], rule steps_more [where step = race_step, OF 7], rule steps_more [where step = race_step, OF 8],
        rule steps_more [where step = race_step, OF 9], rule steps_more [where step = race_step, OF 10], rule steps_more [where step = race_step, OF 11], rule steps_more [where step = race_step, OF 12],
        rule steps_refl)
qed

text \<open>Coroutines asking for the mutex one after the other.\<close>

fun ask_all :: "handle list \<Rightarrow> mutexes \<Rightarrow> mutexes" where
  "ask_all [] M = M"
| "ask_all (h # hs) M = ask_all hs (fst (lock_await_suspend 8 h M))"

text \<open>
  (C24) The flag written late loses the lock: there is an execution on several workers,
  with coroutines that notify only while they own the mutex, after which every coroutine
  has left its critical section and no function is running, yet the mutex is locked; from
  then on whoever asks for it suspends, whatever order they come in.
\<close>

theorem late_flag_loses_the_lock:
  "\<exists>s. reach race_init race_step s \<and> (\<forall>h. rco s h = Outside \<and> rsus s h = Returned) \<and>
    map_option mx_lock (rmx s 8) = Some True \<and>
    (\<forall>hs h. snd (lock_await_suspend 8 h (ask_all hs (rmx s))) = Ret True)"
proof -
  let ?s = "two [] True [] False True Returned Outside Outside"
  have i: "reach race_init race_step (two [] False [] False False Returned Outside Outside)"
    by (rule reach_init) (auto simp: race_init_def two_def new_amutex_def fun_eq_iff)
  have "ask_all hs (mx8 True q) = mx8 True (q @ hs)" for q hs
    by (induction hs arbitrary: q) (simp_all add: lock_await_suspend_def)
  then have "snd (lock_await_suspend 8 h (ask_all hs (mx8 True []))) = Ret True" for h hs
    by (simp add: lock_await_suspend_def)
  moreover have "reach race_init race_step ?s" by (rule reach_steps [OF race_execution i])
  ultimately show ?thesis by (intro exI [of _ ?s]) (auto simp: two_def)
qed

end
