(* ===== verification/Wait_Group.thy ===== *)
theory Wait_Group
  imports Runtime Step_System
begin

text \<open>
  \<open>WaitGroup\<close> of \<open>include/wait_group.h\<close>: a 32-bit counter and the coroutines that wait for
  it to reach zero. The counter is an \<open>std::atomic<int>\<close>, whose arithmetic wraps.
\<close>

subsection \<open>Operations\<close>

record wait_group =
  wg_count :: int32
  wg_queue :: "handle list"

definition new_wait_group :: wait_group where
  "new_wait_group = \<lparr>wg_count = 0, wg_queue = []\<rparr>"

definition wg_await_ready :: "wait_group \<Rightarrow> bool" where
  "wg_await_ready s \<longleftrightarrow> wg_count s = 0"

definition wg_await_suspend :: "handle \<Rightarrow> wait_group \<Rightarrow> wait_group \<times> bool" where
  "wg_await_suspend h s =
     (if wg_count s = 0 then (s, False) else (s\<lparr>wg_queue := wg_queue s @ [h]\<rparr>, True))"

definition wg_add :: "int32 \<Rightarrow> wait_group \<Rightarrow> wait_group" where
  "wg_add n s = s\<lparr>wg_count := wg_count s + n\<rparr>"

fun wg_drain :: "handle list \<Rightarrow> handle list \<Rightarrow> handle list \<times> handle list" where
  "wg_drain [] hs = ([], hs)"
| "wg_drain (h # q) hs = wg_drain q (hs @ [h])"

definition wg_done :: "wait_group \<Rightarrow> wait_group \<times> (unit \<times> handle list) res" where
  "wg_done s =
     (if wg_count s = 0 then (s, Throw (RuntimeError ''count is zero''))
      else
        let s1 = s\<lparr>wg_count := wg_count s - 1\<rparr> in
        if wg_count s1 = 0 then
          (let (q, hs) = wg_drain (wg_queue s1) [] in (s1\<lparr>wg_queue := q\<rparr>, Ret ((), hs)))
        else (s1, Ret ((), [])))"

definition wait_group_done where
  "wait_group_done resume w = call_locked resume wg_done w"

text \<open>\<open>co_await wg.wait()\<close>: the fast path, then the check under the mutex.\<close>

definition wg_wait :: "handle \<Rightarrow> wait_group \<Rightarrow> wait_group \<times> bool" where
  "wg_wait h s = (if wg_await_ready s then (s, False) else wg_await_suspend h s)"

lemma wg_drain_eq: "wg_drain q hs = ([], hs @ q)"
  by (induction q arbitrary: hs) auto

lemma wg_done_eq:
  "wg_done s =
     (if wg_count s = 0 then (s, Throw (RuntimeError ''count is zero''))
      else if wg_count s = 1 then (\<lparr>wg_count = 0, wg_queue = []\<rparr>, Ret ((), wg_queue s))
      else (s\<lparr>wg_count := wg_count s - 1\<rparr>, Ret ((), [])))"
  by (cases s) (simp add: wg_done_def wg_drain_eq Let_def)

subsection \<open>Executions\<close>

text \<open>
  Any order of the calls; the logs are the coroutines that suspended and those that were
  woken. \<open>add\<close> may be negative but must not take the counter to zero while somebody waits.
\<close>

record wg_run =
  wg :: wait_group
  parked_log :: "handle list"
  woken_log :: "handle list"

inductive wg_step :: "wg_run \<Rightarrow> wg_run \<Rightarrow> bool" where
  wg_step_add: "wg_queue (wg s) = [] \<or> wg_count (wg s) + n \<noteq> 0 \<Longrightarrow> wg_step s (s\<lparr>wg := wg_add n (wg s)\<rparr>)"
| wg_step_done: "wg_done (wg s) = (g, Ret ((), hs)) \<Longrightarrow> wg_step s (s\<lparr>wg := g, woken_log := woken_log s @ hs\<rparr>)"
| wg_step_fail: "wg_done (wg s) = (g, Throw x) \<Longrightarrow> wg_step s (s\<lparr>wg := g\<rparr>)"
| wg_step_wait: "wg_wait h (wg s) = (g, b) \<Longrightarrow>
    wg_step s (s\<lparr>wg := g, parked_log := parked_log s @ (if b then [h] else [])\<rparr>)"

definition wg_init :: "wg_run \<Rightarrow> bool" where
  "wg_init s \<longleftrightarrow> s = \<lparr>wg = new_wait_group, parked_log = [], woken_log = []\<rparr>"

definition wg_inv :: "wg_run \<Rightarrow> bool" where
  "wg_inv s \<longleftrightarrow>
     parked_log s = woken_log s @ wg_queue (wg s) \<and> (wg_queue (wg s) \<noteq> [] \<longrightarrow> wg_count (wg s) \<noteq> 0)"

lemma wg_step_inv: "wg_step s t \<Longrightarrow> wg_inv s \<Longrightarrow> wg_inv t"
  by (induction rule: wg_step.induct)
     (auto simp: wg_inv_def wg_add_def wg_done_eq wg_wait_def wg_await_suspend_def split: if_splits)

interpretation waitgroup: invariant_system wg_init wg_step wg_inv
  by unfold_locales (simp add: wg_init_def wg_inv_def new_wait_group_def, rule wg_step_inv)

subsection \<open>Properties\<close>





end
