(* ===== verification/When_All.thy ===== *)
theory When_All
  imports Wait_Group
begin

text \<open>
  \<open>when_all\<close> of \<open>include/when_all.h\<close>: the shared state, the wrapper coroutine of each task,
  the submission of the wrappers and the end of the awaiting coroutine, for the vector of
  tasks and for the pack of tasks. \<open>VectorState\<close> and \<open>TupleState\<close> differ in how the results
  are stored; here both are a list of optional results, of one element type for the vector
  and of a sum of the element types for the tuple. A task is what awaiting it gives: its value, or the exception it ends with.
\<close>

subsection \<open>Operations\<close>

record 'v all_state =
  all_res :: "'v option list"
  all_exception :: "exn option"
  all_wg :: wait_group

text \<open>Up to the submission: \<open>res.resize(n)\<close> and \<open>wg.add(static_cast<int>(n))\<close>.\<close>

definition all_begin :: "nat \<Rightarrow> 'v all_state" where
  "all_begin n = \<lparr>all_res = replicate n None, all_exception = None,
     all_wg = wg_add (of_nat n) new_wait_group\<rparr>"

definition store_first_exception :: "exn \<Rightarrow> 'v all_state \<Rightarrow> 'v all_state" where
  "store_first_exception x s =
     (case all_exception s of None \<Rightarrow> s\<lparr>all_exception := Some x\<rparr> | Some _ \<Rightarrow> s)"

text \<open>
  The wrapper of task \<open>i\<close> from the moment its task has finished with \<open>r\<close>: the result or the
  exception is stored, then \<open>wg.done()\<close>. The answer is whom that wakes.
\<close>

definition all_wrapper :: "nat \<Rightarrow> 'v res \<Rightarrow> 'v all_state \<Rightarrow> 'v all_state \<times> handle list res" where
  "all_wrapper i r s =
     (let stored = (case r of
          Ret v \<Rightarrow> if i < length (all_res s) then (s\<lparr>all_res := (all_res s)[i := Some v]\<rparr>, Ret ()) else (s, Undef)
        | Throw x \<Rightarrow> (store_first_exception x s, Ret ())
        | Undef \<Rightarrow> (s, Undef)) in
      bind_res stored
        (\<lambda>s1 _. case wg_done (all_wg s1) of
            (g, Ret (_, hs)) \<Rightarrow> (s1\<lparr>all_wg := g\<rparr>, Ret hs)
          | (g, Throw x) \<Rightarrow> (s1\<lparr>all_wg := g\<rparr>, Throw x)
          | (g, Undef) \<Rightarrow> (s1\<lparr>all_wg := g\<rparr>, Undef)))"

text \<open>\<open>co_await state->wg.wait()\<close> by the coroutine \<open>h\<close>: does it suspend?\<close>

definition all_wait :: "handle \<Rightarrow> 'v all_state \<Rightarrow> 'v all_state \<times> bool" where
  "all_wait h s = (case wg_wait h (all_wg s) of (g, b) \<Rightarrow> (s\<lparr>all_wg := g\<rparr>, b))"

text \<open>After the wait: rethrow, or collect the results; an empty one cannot be dereferenced.\<close>

fun all_collect :: "'v option list \<Rightarrow> 'v list res" where
  "all_collect [] = Ret []"
| "all_collect (None # vs) = Undef"
| "all_collect (Some v # vs) =
     (case all_collect vs of Ret out \<Rightarrow> Ret (v # out) | Throw x \<Rightarrow> Throw x | Undef \<Rightarrow> Undef)"

definition all_end :: "'v all_state \<Rightarrow> 'v list res" where
  "all_end s = (case all_exception s of Some x \<Rightarrow> Throw x | None \<Rightarrow> all_collect (all_res s))"

text \<open>The loop that submits the wrappers, on the world of the calling thread.\<close>

fun all_submit :: "task list \<Rightarrow> ('u, 'v, 's) world \<Rightarrow> ('u, 'v, 's) world \<times> unit res" where
  "all_submit [] w = (w, Ret ())"
| "all_submit (t # ts) w =
     (case submit_to_scheduler_task t w of
        (w1, _, Ret _) \<Rightarrow> all_submit ts w1
      | (w1, _, Throw x) \<Rightarrow> (w1, Throw x)
      | (w1, _, Undef) \<Rightarrow> (w1, Undef))"

subsection \<open>The tuple overload\<close>

text \<open>
  The same for a pack of tasks: \<open>n\<close> is a constant of type \<open>int\<close>, the results are the
  components of a tuple, and the fold over \<open>Is...\<close> goes through the indices in order.
  \<open>std::get<N>\<close> is checked by the compiler; here an index out of range is \<open>Undef\<close>.
\<close>

definition tuple_begin :: "int32 \<Rightarrow> 'v all_state" where
  "tuple_begin n = \<lparr>all_res = map (\<lambda>_. None) [0..<unat n], all_exception = None,
     all_wg = wg_add n new_wait_group\<rparr>"

definition tuple_wrapper :: "nat \<Rightarrow> 'v res \<Rightarrow> 'v all_state \<Rightarrow> 'v all_state \<times> handle list res" where
  "tuple_wrapper i r s =
     bind_res
       (case r of
          Ret v \<Rightarrow> if i < length (all_res s) then (s\<lparr>all_res := (all_res s)[i := Some v]\<rparr>, Ret ()) else (s, Undef)
        | Throw x \<Rightarrow> (store_first_exception x s, Ret ())
        | Undef \<Rightarrow> (s, Undef))
       (\<lambda>s1 _. case wg_done (all_wg s1) of
            (g, Ret (_, hs)) \<Rightarrow> (s1\<lparr>all_wg := g\<rparr>, Ret hs)
          | (g, Throw x) \<Rightarrow> (s1\<lparr>all_wg := g\<rparr>, Throw x)
          | (g, Undef) \<Rightarrow> (s1\<lparr>all_wg := g\<rparr>, Undef))"

text \<open>\<open>std::tuple<Ts...>{std::move(*std::get<Is>(res))...}\<close>, left to right.\<close>

fun unwrap_tuple_result :: "'v option list \<Rightarrow> nat list \<Rightarrow> 'v list res" where
  "unwrap_tuple_result res [] = Ret []"
| "unwrap_tuple_result res (i # is) =
     (case (if i < length res then res ! i else None) of
        None \<Rightarrow> Undef
      | Some v \<Rightarrow>
          (case unwrap_tuple_result res is of Ret out \<Rightarrow> Ret (v # out) | Throw x \<Rightarrow> Throw x | Undef \<Rightarrow> Undef))"

fun tuple_submit ::
  "(nat \<Rightarrow> task) \<Rightarrow> nat list \<Rightarrow> ('u, 'v, 's) world \<Rightarrow> ('u, 'v, 's) world \<times> unit res" where
  "tuple_submit wrap [] w = (w, Ret ())"
| "tuple_submit wrap (i # is) w =
     (case submit_to_scheduler_task (wrap i) w of
        (w1, _, Ret _) \<Rightarrow> tuple_submit wrap is w1
      | (w1, _, Throw x) \<Rightarrow> (w1, Throw x)
      | (w1, _, Undef) \<Rightarrow> (w1, Undef))"

definition when_all_impl_end :: "'v all_state \<Rightarrow> 'v list res" where
  "when_all_impl_end s =
     (case all_exception s of
        Some x \<Rightarrow> Throw x
      | None \<Rightarrow> unwrap_tuple_result (all_res s) [0..<length (all_res s)])"

lemma unwrap_from: "unwrap_tuple_result res [k..<length res] = all_collect (drop k res)"
proof (induction "length res - k" arbitrary: k)
  case (Suc d)
  then have k: "k < length res" by simp
  have "unwrap_tuple_result res [Suc k..<length res] = all_collect (drop (Suc k) res)"
    using Suc(2) by (intro Suc(1)) simp
  then show ?case using k by (cases "res ! k") (simp_all add: upt_conv_Cons Cons_nth_drop_Suc [symmetric])
qed simp

lemma tuple_submit_eq: "tuple_submit wrap is w = all_submit (map wrap is) w"
  by (induction "is" arbitrary: w) (auto split: prod.splits res.splits)

subsection \<open>Wrappers finishing in any order\<close>

fun run_wrappers :: "(nat \<times> 'v res) list \<Rightarrow> 'v all_state \<Rightarrow> 'v all_state \<times> handle list list res" where
  "run_wrappers [] s = (s, Ret [])"
| "run_wrappers ((i, r) # rest) s =
     bind_res (all_wrapper i r s)
       (\<lambda>s1 hs. bind_res (run_wrappers rest s1) (\<lambda>s2 hss. (s2, Ret (hs # hss))))"

definition store :: "nat \<times> 'v res \<Rightarrow> 'v option list \<times> exn option \<Rightarrow> 'v option list \<times> exn option" where
  "store ir p =
     (case snd ir of
        Ret v \<Rightarrow> ((fst p)[fst ir := Some v], snd p)
      | Throw x \<Rightarrow> (fst p, case snd p of None \<Rightarrow> Some x | Some y \<Rightarrow> Some y)
      | Undef \<Rightarrow> p)"

definition finished :: "'v res \<Rightarrow> bool" where
  "finished r \<longleftrightarrow> r \<noteq> Undef"

lemma all_wrapper_eq:
  assumes "finished r" and "i < length (all_res s)" and "wg_count (all_wg s) \<noteq> 0"
  shows "all_wrapper i r s =
    (\<lparr>all_res = fst (store (i, r) (all_res s, all_exception s)),
      all_exception = snd (store (i, r) (all_res s, all_exception s)),
      all_wg = (if wg_count (all_wg s) = 1 then new_wait_group
                else (all_wg s)\<lparr>wg_count := wg_count (all_wg s) - 1\<rparr>)\<rparr>,
     Ret (if wg_count (all_wg s) = 1 then wg_queue (all_wg s) else []))"
  using assms
  by (cases r; cases s)
     (auto simp: all_wrapper_def finished_def store_def store_first_exception_def wg_done_eq new_wait_group_def
       split: option.splits)

lemma length_store [simp]: "length (fst (store ir p)) = length (fst p)"
  by (simp add: store_def split: res.splits)

lemma of_nat_eq_int32: "a < 2 ^ 32 \<Longrightarrow> b < 2 ^ 32 \<Longrightarrow> (of_nat a :: int32) = of_nat b \<longleftrightarrow> a = b"
  by (auto dest: arg_cong [where f = unat] simp: unat_of_nat)

text \<open>While the counter stays above zero nobody is woken; the wrapper that ends it wakes all.\<close>

lemma run_wrappers_eq:
  assumes "\<forall>(i, r) \<in> set rs. finished r \<and> i < length (all_res s)"
    and "length rs < 2 ^ 32" and "wg_count (all_wg s) = of_nat (length rs + m)"
    and "length rs + m < 2 ^ 32"
  shows "run_wrappers rs s =
    (\<lparr>all_res = fst (fold store rs (all_res s, all_exception s)),
      all_exception = snd (fold store rs (all_res s, all_exception s)),
      all_wg = (if rs \<noteq> [] \<and> m = 0 then new_wait_group else (all_wg s)\<lparr>wg_count := of_nat m\<rparr>)\<rparr>,
     Ret (if rs \<noteq> [] \<and> m = 0 then replicate (length rs - 1) [] @ [wg_queue (all_wg s)]
          else replicate (length rs) []))"
  using assms
proof (induction rs arbitrary: s)
  case Nil
  then show ?case by (cases s; cases "all_wg s") simp
next
  case (Cons ir rs)
  obtain i r where ir: "ir = (i, r)" by (cases ir)
  have nz: "wg_count (all_wg s) \<noteq> 0" and one: "wg_count (all_wg s) = 1 \<longleftrightarrow> rs = [] \<and> m = 0"
    using Cons.prems(3,4) of_nat_eq_int32 [of "length (ir # rs) + m" 0]
      of_nat_eq_int32 [of "length (ir # rs) + m" 1] by auto
  from Cons.prems(1) ir have r: "finished r" "i < length (all_res s)" by auto
  note w = all_wrapper_eq [OF r nz]
  show ?case
  proof (cases "rs = [] \<and> m = 0")
    case True
    then show ?thesis using w one ir by simp
  next
    case False
    let ?p = "store (i, r) (all_res s, all_exception s)"
    let ?s = "\<lparr>all_res = fst ?p, all_exception = snd ?p,
      all_wg = (all_wg s)\<lparr>wg_count := wg_count (all_wg s) - 1\<rparr>\<rparr>"
    have c: "wg_count (all_wg ?s) = of_nat (length rs + m)" using Cons.prems(3) by simp
    have "\<forall>(i, r) \<in> set rs. finished r \<and> i < length (all_res ?s)" using Cons.prems(1) by auto
    from Cons.IH [OF this _ c] Cons.prems(2,4) w one False ir show ?thesis
      by (cases "all_wg s"; cases rs) auto
  qed
qed

fun first_throw :: "'v res list \<Rightarrow> exn option" where
  "first_throw [] = None"
| "first_throw (Throw x # rs) = Some x"
| "first_throw (r # rs) = first_throw rs"

fun value_of :: "'v res \<Rightarrow> 'v option" where
  "value_of (Ret v) = Some v"
| "value_of _ = None"

lemma fold_store_exception:
  "snd (fold store rs (a, e)) = (case e of Some x \<Rightarrow> Some x | None \<Rightarrow> first_throw (map snd rs))"
proof (induction rs arbitrary: a e)
  case (Cons ir rs)
  obtain i r where "ir = (i, r)" by (cases ir)
  with Cons show ?case by (cases r) (auto simp: store_def split: option.splits)
qed (simp split: option.splits)

lemma fold_store_res:
  assumes "\<forall>i \<in> set is. i < length a" and "distinct is" and "k < length a"
  shows "fst (fold store (map (\<lambda>i. (i, f i)) is) (a, e)) ! k =
    (if k \<in> set is \<and> value_of (f k) \<noteq> None then value_of (f k) else a ! k)"
  using assms
proof (induction "is" arbitrary: a e)
  case (Cons i "is")
  obtain a' e' where ae: "store (i, f i) (a, e) = (a', e')" by (cases "store (i, f i) (a, e)")
  have len: "length a' = length a" using ae length_store [of "(i, f i)" "(a, e)"] by simp
  have "a' ! k = (if k = i \<and> value_of (f k) \<noteq> None then value_of (f k) else a ! k)"
    using ae Cons.prems by (cases "f i") (auto simp: store_def)
  with Cons.IH [of a' e'] Cons.prems len ae show ?case by auto
qed simp

lemma fold_store_length: "length (fst (fold store rs p)) = length (fst p)"
  by (induction rs arbitrary: p) simp_all

lemma replicate_last: "xs \<noteq> [] \<Longrightarrow> replicate (length xs - 1) a @ [a] = replicate (length xs) a"
  by (cases xs) (simp_all add: replicate_append_same)

lemma all_collect_Some: "all_collect (map (\<lambda>i. Some (g i)) xs) = Ret (map g xs)"
  by (induction xs) simp_all

lemma first_throw_None: "\<forall>r \<in> set rs. finished r \<Longrightarrow> first_throw rs = None \<longleftrightarrow> (\<forall>r \<in> set rs. value_of r \<noteq> None)"
  by (induction rs rule: first_throw.induct) (auto simp: finished_def)

lemma all_end_results:
  assumes order: "distinct is" "set is = {0..<n}" and fin: "\<forall>i < n. finished (f i)"
  defines "q \<equiv> fold store (map (\<lambda>i. (i, f i)) is) (replicate n None, None)"
  shows "all_end \<lparr>all_res = fst q, all_exception = snd q, all_wg = g\<rparr> =
    (case first_throw (map f is) of
       Some x \<Rightarrow> Throw x | None \<Rightarrow> Ret (map (\<lambda>i. the (value_of (f i))) [0..<n]))"
proof -
  have e: "snd q = first_throw (map f is)"
    unfolding q_def by (subst fold_store_exception) (simp add: comp_def)
  show ?thesis
  proof (cases "first_throw (map f is)")
    case None
    have "\<forall>r \<in> set (map f is). finished r" using fin order(2) by auto
    from first_throw_None [OF this] None have "\<forall>r \<in> set (map f is). value_of r \<noteq> None" by simp
    then have val: "value_of (f k) \<noteq> None" if "k < n" for k
      using order(2) that by (metis atLeast0LessThan image_eqI lessThan_iff set_map)
    have len: "length (fst q) = n" unfolding q_def by (simp only: fold_store_length) simp
    have "fst q = map (\<lambda>i. Some (the (value_of (f i)))) [0..<n]"
    proof (rule nth_equalityI)
      fix k assume "k < length (fst q)"
      then have k: "k < n" by (simp add: len)
      show "fst q ! k = map (\<lambda>i. Some (the (value_of (f i)))) [0..<n] ! k"
        unfolding q_def using fold_store_res [of "is" "replicate n None" k f None] order k val [OF k] by auto
    qed (simp add: len)
    with None e show ?thesis by (simp add: all_end_def all_collect_Some)
  qed (simp add: all_end_def e)
qed

text \<open>
  (C27) \<open>when_all\<close> of \<open>n\<close> tasks, fewer than \<open>2 ^ 32\<close>. The tasks finish in any order and the
  awaiting coroutine \<open>h\<close> reaches its wait at any moment, after the tasks \<open>before\<close> and before
  the tasks \<open>after\<close>. It suspends exactly if some task is still to finish, it is woken exactly
  once, by the last one, and then it returns the values in the order of the tasks, or
  rethrows the exception of the task that failed first.
\<close>

theorem when_all_gathers_the_results:
  fixes f :: "nat \<Rightarrow> 'v res"
  assumes order: "distinct (before @ after)" "set (before @ after) = {0..<n}" and n: "n < 2 ^ 32"
    and fin: "\<forall>i < n. finished (f i)"
  shows "\<exists>s1 s2 b s3 wakes.
    run_wrappers (map (\<lambda>i. (i, f i)) before) (all_begin n) = (s1, Ret (replicate (length before) [])) \<and>
    all_wait h s1 = (s2, b) \<and> (b \<longleftrightarrow> after \<noteq> []) \<and>
    run_wrappers (map (\<lambda>i. (i, f i)) after) s2 = (s3, Ret wakes) \<and>
    (after \<noteq> [] \<longrightarrow> wakes = replicate (length after - 1) [] @ [[h]]) \<and>
    all_end s3 =
      (case first_throw (map f (before @ after)) of
         Some x \<Rightarrow> Throw x
       | None \<Rightarrow> Ret (map (\<lambda>i. the (value_of (f i))) [0..<n]))"
proof -
  have len: "length before + length after = n"
    using order by (metis card_atLeastLessThan diff_zero distinct_card length_append)
  have mem: "i < n" if "i \<in> set before \<or> i \<in> set after" for i using order(2) that by auto
  let ?b = "map (\<lambda>i. (i, f i)) before" and ?a = "map (\<lambda>i. (i, f i)) after"
  let ?s0 = "all_begin n :: 'v all_state"
  let ?p = "fold store ?b (all_res ?s0, all_exception ?s0)"
  have s0: "wg_count (all_wg ?s0) = of_nat (length ?b + length after)" "wg_queue (all_wg ?s0) = []"
    "length (all_res ?s0) = n"
    using len by (simp_all add: all_begin_def wg_add_def new_wait_group_def flip: of_nat_add)
  have ok: "\<forall>(i, r) \<in> set ?b. finished r \<and> i < length (all_res ?s0)"
    using fin mem s0(3) by auto
  let ?s1 = "\<lparr>all_res = fst ?p, all_exception = snd ?p,
     all_wg = \<lparr>wg_count = of_nat (length after), wg_queue = []\<rparr>\<rparr>"
  have 1: "run_wrappers ?b ?s0 = (?s1, Ret (replicate (length before) []))"
    using run_wrappers_eq [OF ok _ s0(1)] n len s0(2)
      replicate_last [of before "[] :: handle list"]
    by (cases "all_wg ?s0"; cases "before = []"; cases "after = []") (auto simp: new_wait_group_def)
  have cz: "(of_nat (length after) :: int32) = 0 \<longleftrightarrow> after = []"
    using of_nat_eq_int32 [of "length after" 0] n len by auto
  let ?s2 = "?s1\<lparr>all_wg := \<lparr>wg_count = of_nat (length after), wg_queue = (if after = [] then [] else [h])\<rparr>\<rparr>"
  have 2: "all_wait h ?s1 = (?s2, after \<noteq> [])"
    using cz by (auto simp: all_wait_def wg_wait_def wg_await_ready_def wg_await_suspend_def)
  have ok2: "\<forall>(i, r) \<in> set ?a. finished r \<and> i < length (all_res ?s2)"
    using fin mem s0(3) by (auto simp: fold_store_length)
  let ?q = "fold store ?a ?p"
  have 3: "run_wrappers ?a ?s2 = (\<lparr>all_res = fst ?q, all_exception = snd ?q, all_wg = new_wait_group\<rparr>,
      Ret (if after = [] then [] else replicate (length after - 1) [] @ [[h]]))"
    using run_wrappers_eq [OF ok2, of 0] n len by (auto simp: new_wait_group_def)
  have q: "?q = fold store (map (\<lambda>i. (i, f i)) (before @ after)) (replicate n None, None)"
    by (simp add: all_begin_def)
  have "all_end \<lparr>all_res = fst ?q, all_exception = snd ?q, all_wg = new_wait_group\<rparr> =
      (case first_throw (map f (before @ after)) of
         Some x \<Rightarrow> Throw x | None \<Rightarrow> Ret (map (\<lambda>i. the (value_of (f i))) [0..<n]))"
    unfolding q by (rule all_end_results [OF order fin])
  with 1 2 3 show ?thesis by (auto intro!: exI)
qed

theorem when_all_gathers_the_results_witness:
  "\<exists>s1 s2 b s3 wakes.
    run_wrappers [(1, Throw (OtherError 3))] (all_begin 2 :: nat all_state) = (s1, Ret [[]]) \<and>
    all_wait 9 s1 = (s2, b) \<and> b \<and>
    run_wrappers [(0, Ret 7)] s2 = (s3, Ret wakes) \<and> wakes = [[9]] \<and>
    all_end s3 = Throw (OtherError 3)"
proof -
  let ?f = "\<lambda>i :: nat. if i = 0 then Ret (7 :: nat) else Throw (OtherError 3)"
  have "set ([1] @ [0]) = {0..<2 :: nat}" by auto
  from when_all_gathers_the_results [of "[1]" "[0]" 2 ?f 9, OF _ this] show ?thesis
    by (simp add: finished_def)
qed

lemma all_submit_worker:
  "is_worker w \<Longrightarrow> \<forall>t \<in> set ts. handler t \<noteq> null_handle \<Longrightarrow>
   snd (all_submit ts w) = Ret () \<and> local_queue (fst (all_submit ts w)) = local_queue w @ map handler ts \<and>
   pending_tasks (fst (all_submit ts w)) = pending_tasks w + of_nat (length ts) \<and>
   frames (fst (all_submit ts w)) = frames w"
proof (induction ts arbitrary: w)
  case (Cons t ts)
  obtain c where c: "local_context_ptr w = Some c"
    using Cons.prems(1) by (auto simp: is_worker_def try_local_context_def)
  let ?w = "submit_tracked_task c (handler t) w"
  have s: "submit_to_scheduler_task t w = (?w, detach t, Ret ())"
    using c by (simp add: submit_to_scheduler_task_def try_local_context_def get_handle_def)
  have w: "is_worker ?w" "local_queue ?w = local_queue w @ [handler t]" "pending_tasks ?w = pending_tasks w + 1"
    "frames ?w = frames w"
    using c Cons.prems by (auto simp: submit_tracked_task_def is_worker_def try_local_context_def local_queue_def
        on_engine_def engine_submit_task_def notify_cv_def)
  show ?case using Cons.IH [OF w(1)] Cons.prems s w by simp
qed simp

text \<open>
  Submitting the wrappers of \<open>when_all\<close>: on a worker all of them are queued, in the
  order of the tasks, and counted as pending; elsewhere the first submission throws and
  destroys that wrapper, and no other wrapper is submitted.
\<close>

lemma all_submit_queues_the_wrappers:
  assumes "\<forall>t \<in> set ts. handler t \<noteq> null_handle \<and> frames w (handler t) \<noteq> None"
  shows "(is_worker w \<longrightarrow>
      snd (all_submit ts w) = Ret () \<and> local_queue (fst (all_submit ts w)) = local_queue w @ map handler ts \<and>
      pending_tasks (fst (all_submit ts w)) = pending_tasks w + of_nat (length ts) \<and>
      frames (fst (all_submit ts w)) = frames w) \<and>
    (\<not> is_worker w \<longrightarrow> ts \<noteq> [] \<longrightarrow>
      all_submit ts w = (w\<lparr>frames := (frames w)(handler (hd ts) := None)\<rparr>,
        Throw (LogicError ''runtime::submit_to_scheduler() requires runtime context'')))"
proof (intro conjI impI)
  assume nw: "\<not> is_worker w" and "ts \<noteq> []"
  then obtain t us where ts: "ts = t # us" by (cases ts) auto
  with assms obtain f where "frames w (handler t) = Some f" by auto
  with nw ts show "all_submit ts w = (w\<lparr>frames := (frames w)(handler (hd ts) := None)\<rparr>,
        Throw (LogicError ''runtime::submit_to_scheduler() requires runtime context''))"
    by (simp add: submit_to_scheduler_task_def is_worker_def world_destroy_def handle_destroy_def get_handle_def)
qed (use assms all_submit_worker in blast)+

definition demo_all_world :: "(unit, unit, unit) world" where
  "demo_all_world = \<lparr>engines = (\<lambda>_. new_engine ()), local_context_ptr = Some 0, pending_tasks = 1,
     io_store = (\<lambda>_. None), frames = [5 \<mapsto> new_frame, 6 \<mapsto> new_frame], obj = ()\<rparr>"

text \<open>
  The two overloads of \<open>when_all\<close> agree: for \<open>n\<close> tasks, \<open>n\<close> an \<open>int\<close>, they start from the
  same state, submit the wrappers alike, their wrappers have the same effect, and they end
  with the same values or the same exception.
\<close>

lemma tuple_overload_is_the_vector_overload:
  fixes s :: "'a all_state"
  assumes "n < 2 ^ 31"
  shows "tuple_begin (of_nat n) = (all_begin n :: 'a all_state) \<and> tuple_wrapper i r s = all_wrapper i r s \<and>
    tuple_submit wrap [0..<n] w = all_submit (map wrap [0..<n]) w \<and>
    when_all_impl_end s = all_end s"
proof -
  have "unat (of_nat n :: int32) = n" using assms by (simp add: unat_of_nat)
  then have "tuple_begin (of_nat n) = (all_begin n :: 'a all_state)"
    by (simp add: tuple_begin_def all_begin_def map_replicate_const)
  moreover have "when_all_impl_end s = all_end s"
    using unwrap_from [of "all_res s" 0] by (simp add: when_all_impl_end_def all_end_def split: option.split)
  ultimately show ?thesis by (simp add: tuple_wrapper_def all_wrapper_def tuple_submit_eq Let_def)
qed

end
