(* ===== verification/When_All_Race.thy ===== *)
theory When_All_Race
  imports When_All
begin

text \<open>
  \<open>when_all\<close> on several workers, with \<open>WaitGroup::done\<close> and \<open>co_await wg.wait()\<close> at the grain
  at which other threads see them. \<open>done\<close> takes the mutex, counts down, takes the waiters out
  at zero, releases the mutex and wakes; \<open>await_ready\<close> reads the atomic counter without the
  mutex. The shared state, in which the group lives, is destroyed with its last reference.
  In the vector overload all references are in the frame of \<open>when_all\<close> itself: the variable
  \<open>state\<close> and the closure \<open>wrapper\<close>, which the wrapper coroutines only point to. In the tuple
  overload each wrapper coroutine has its own reference, a parameter.

  \<open>n\<close> is the number of tasks, \<open>h\<close> the awaiting coroutine, \<open>owned\<close> holds for the tuple
  overload.
\<close>

subsection \<open>Machine\<close>

datatype wrapper_pc =
  W_running | W_locked | W_zero | W_release "handle list" | W_wake "handle list" | W_over | W_gone

datatype main_pc = M_before | M_checked | M_suspended | M_after | M_gone

record all_race =
  ar_group :: wait_group
  ar_holder :: "nat option"
  ar_pc :: "nat \<Rightarrow> wrapper_pc"
  ar_main :: main_pc
  ar_refs :: nat
  ar_destroyed :: bool

text \<open>Dropping a \<open>shared_ptr\<close>.\<close>

definition drop_ref :: "all_race \<Rightarrow> all_race" where
  "drop_ref s = s\<lparr>ar_refs := ar_refs s - 1, ar_destroyed := ar_destroyed s \<or> ar_refs s = 1\<rparr>"

inductive all_race_step :: "bool \<Rightarrow> nat \<Rightarrow> handle \<Rightarrow> all_race \<Rightarrow> all_race \<Rightarrow> bool" for owned n h where
  ar_lock: "i < n \<Longrightarrow> ar_pc s i = W_running \<Longrightarrow> ar_holder s = None \<Longrightarrow>
    all_race_step owned n h s (s\<lparr>ar_holder := Some i, ar_pc := (ar_pc s)(i := W_locked)\<rparr>)"
| ar_count: "i < n \<Longrightarrow> ar_pc s i = W_locked \<Longrightarrow> wg_count (ar_group s) \<noteq> 0 \<Longrightarrow> c = wg_count (ar_group s) - 1 \<Longrightarrow>
    all_race_step owned n h s (s\<lparr>ar_group := (ar_group s)\<lparr>wg_count := c\<rparr>,
      ar_pc := (ar_pc s)(i := if c = 0 then W_zero else W_release [])\<rparr>)"
| ar_throw: "i < n \<Longrightarrow> ar_pc s i = W_locked \<Longrightarrow> wg_count (ar_group s) = 0 \<Longrightarrow>
    all_race_step owned n h s (s\<lparr>ar_holder := None, ar_pc := (ar_pc s)(i := W_over)\<rparr>)"
| ar_drain: "i < n \<Longrightarrow> ar_pc s i = W_zero \<Longrightarrow> wg_drain (wg_queue (ar_group s)) [] = (q, hs) \<Longrightarrow>
    all_race_step owned n h s (s\<lparr>ar_group := (ar_group s)\<lparr>wg_queue := q\<rparr>, ar_pc := (ar_pc s)(i := W_release hs)\<rparr>)"
| ar_unlock: "i < n \<Longrightarrow> ar_pc s i = W_release hs \<Longrightarrow>
    all_race_step owned n h s (s\<lparr>ar_holder := None, ar_pc := (ar_pc s)(i := W_wake hs)\<rparr>)"
| ar_wake: "i < n \<Longrightarrow> ar_pc s i = W_wake hs \<Longrightarrow>
    all_race_step owned n h s (s\<lparr>ar_pc := (ar_pc s)(i := W_over), ar_main := if h \<in> set hs then M_after else ar_main s\<rparr>)"
| ar_end: "i < n \<Longrightarrow> ar_pc s i = W_over \<Longrightarrow> t = s\<lparr>ar_pc := (ar_pc s)(i := W_gone)\<rparr> \<Longrightarrow>
    all_race_step owned n h s (if owned then drop_ref t else t)"
| ar_ready: "ar_main s = M_before \<Longrightarrow>
    all_race_step owned n h s (s\<lparr>ar_main := if wg_await_ready (ar_group s) then M_after else M_checked\<rparr>)"
| ar_suspend: "ar_main s = M_checked \<Longrightarrow> ar_holder s = None \<Longrightarrow> wg_await_suspend h (ar_group s) = (g, b) \<Longrightarrow>
    all_race_step owned n h s (s\<lparr>ar_group := g, ar_main := if b then M_suspended else M_after\<rparr>)"
| ar_leave: "ar_main s = M_after \<Longrightarrow> all_race_step owned n h s (drop_ref (s\<lparr>ar_main := M_gone\<rparr>))"

definition all_race_init :: "bool \<Rightarrow> nat \<Rightarrow> all_race \<Rightarrow> bool" where
  "all_race_init owned n s \<longleftrightarrow> n < 2 ^ 32 \<and>
     s = \<lparr>ar_group = all_wg (all_begin n :: unit all_state), ar_holder = None, ar_pc = (\<lambda>_. W_running),
          ar_main = M_before, ar_refs = (if owned then Suc n else 1), ar_destroyed = False\<rparr>"

fun counting :: "wrapper_pc \<Rightarrow> bool" where
  "counting W_running = True" | "counting W_locked = True" | "counting _ = False"

fun holding :: "wrapper_pc \<Rightarrow> bool" where
  "holding W_locked = True" | "holding W_zero = True" | "holding (W_release hs) = True" | "holding _ = False"

text \<open>Positions from which a wrapper still uses the group, and those from which it wakes \<open>h\<close>.\<close>

definition touches :: "wrapper_pc \<Rightarrow> bool" where
  "touches p \<longleftrightarrow> counting p \<or> holding p"

fun wakes_of :: "wrapper_pc \<Rightarrow> handle list" where
  "wakes_of (W_release hs) = hs" | "wakes_of (W_wake hs) = hs" | "wakes_of _ = []"

definition number :: "(wrapper_pc \<Rightarrow> bool) \<Rightarrow> nat \<Rightarrow> (nat \<Rightarrow> wrapper_pc) \<Rightarrow> nat" where
  "number P n f = card {i. i < n \<and> P (f i)}"

lemma number_keep: "P x = P (f i) \<Longrightarrow> number P n (f(i := x)) = number P n f"
  unfolding number_def by (rule arg_cong [where f = card]) auto

lemma number_less: "i < n \<Longrightarrow> P (f i) \<Longrightarrow> \<not> P x \<Longrightarrow> number P n f = Suc (number P n (f(i := x)))"
proof -
  assume "i < n" "P (f i)" "\<not> P x"
  then have "{j. j < n \<and> P (f j)} = insert i {j. j < n \<and> P ((f(i := x)) j)}"
    "i \<notin> {j. j < n \<and> P ((f(i := x)) j)}" by auto
  then show ?thesis by (simp add: number_def)
qed

lemma number_le: "number P n f \<le> n"
proof -
  have "{i. i < n \<and> P (f i)} \<subseteq> {0..<n}" by auto
  from card_mono [OF _ this] show ?thesis by (simp add: number_def)
qed

lemma number_pos: "i < n \<Longrightarrow> P (f i) \<Longrightarrow> 0 < number P n f"
  by (auto simp: number_def card_gt_0_iff)

lemma number_0: "number P n f = 0 \<longleftrightarrow> (\<forall>i < n. \<not> P (f i))"
  by (auto simp: number_def card_eq_0_iff)

subsection \<open>Invariant\<close>

definition lock_inv :: "nat \<Rightarrow> all_race \<Rightarrow> bool" where
  "lock_inv n s \<longleftrightarrow>
     (\<forall>i < n. holding (ar_pc s i) \<longleftrightarrow> ar_holder s = Some i) \<and> (\<forall>i. ar_holder s = Some i \<longrightarrow> i < n)"

definition count_inv :: "nat \<Rightarrow> all_race \<Rightarrow> bool" where
  "count_inv n s \<longleftrightarrow> n < 2 ^ 32 \<and> wg_count (ar_group s) = of_nat (number counting n (ar_pc s)) \<and>
     (ar_main s = M_after \<or> ar_main s = M_gone \<longrightarrow> wg_count (ar_group s) = 0) \<and>
     (\<forall>i < n. ar_pc s i = W_zero \<or> wakes_of (ar_pc s i) \<noteq> [] \<longrightarrow> wg_count (ar_group s) = 0)"

definition queue_inv :: "nat \<Rightarrow> handle \<Rightarrow> all_race \<Rightarrow> bool" where
  "queue_inv n h s \<longleftrightarrow>
     wg_queue (ar_group s) =
       (if ar_main s = M_suspended \<and> (\<forall>i < n. wakes_of (ar_pc s i) = []) then [h] else []) \<and>
     (\<forall>i < n. wakes_of (ar_pc s i) \<noteq> [] \<longrightarrow> ar_main s = M_suspended \<and> wakes_of (ar_pc s i) = [h] \<and>
        (\<forall>j < n. wakes_of (ar_pc s j) \<noteq> [] \<longrightarrow> j = i)) \<and>
     (ar_main s = M_suspended \<longrightarrow> wg_count (ar_group s) = 0 \<longrightarrow>
        (\<exists>i < n. ar_pc s i = W_zero \<or> wakes_of (ar_pc s i) \<noteq> []))"

definition ref_inv :: "bool \<Rightarrow> nat \<Rightarrow> all_race \<Rightarrow> bool" where
  "ref_inv owned n s \<longleftrightarrow>
     ar_refs s = (if ar_main s = M_gone then 0 else 1) + (if owned then number (\<lambda>p. p \<noteq> W_gone) n (ar_pc s) else 0) \<and>
     (ar_destroyed s \<longleftrightarrow> ar_refs s = 0)"

lemma count_zero:
  "n < 2 ^ 32 \<Longrightarrow> (of_nat (number P n f) :: int32) = 0 \<longleftrightarrow> number P n f = 0"
  using of_nat_eq_int32 [of "number P n f" 0] number_le [of P n f] by auto

lemma lock_step: "all_race_step owned n h s t \<Longrightarrow> lock_inv n s \<Longrightarrow> lock_inv n t"
  by (induction rule: all_race_step.induct)
     (auto simp: lock_inv_def drop_ref_def split: if_splits)

lemma count_step: "all_race_step owned n h s t \<Longrightarrow> count_inv n s \<Longrightarrow> count_inv n t"
proof (induction rule: all_race_step.induct)
  case (ar_lock i s)
  then have "number counting n ((ar_pc s)(i := W_locked)) = number counting n (ar_pc s)"
    by (intro number_keep) simp
  with ar_lock show ?case by (auto simp: count_inv_def)
next
  case (ar_count i s c)
  let ?f = "(ar_pc s)(i := if c = 0 then W_zero else W_release [])"
  have "number counting n (ar_pc s) = Suc (number counting n ?f)"
    using ar_count by (intro number_less) auto
  with ar_count show ?case by (auto simp: count_inv_def)
next
  case (ar_throw i s)
  have "0 < number counting n (ar_pc s)" using ar_throw by (intro number_pos) auto
  with ar_throw count_zero [of n counting "ar_pc s"] show ?case by (simp add: count_inv_def)
next
  case (ar_drain i s q hs)
  have "number counting n ((ar_pc s)(i := W_release hs)) = number counting n (ar_pc s)"
    using ar_drain by (intro number_keep) simp
  with ar_drain show ?case by (auto simp: count_inv_def)
next
  case (ar_unlock i s hs)
  have "number counting n ((ar_pc s)(i := W_wake hs)) = number counting n (ar_pc s)"
    using ar_unlock by (intro number_keep) simp
  with ar_unlock show ?case by (fastforce simp: count_inv_def)
next
  case (ar_wake i s hs)
  have "number counting n ((ar_pc s)(i := W_over)) = number counting n (ar_pc s)"
    using ar_wake by (intro number_keep) simp
  with ar_wake show ?case by (fastforce simp: count_inv_def)
next
  case (ar_end i s t)
  have "number counting n ((ar_pc s)(i := W_gone)) = number counting n (ar_pc s)"
    using ar_end by (intro number_keep) simp
  with ar_end show ?case by (auto simp: count_inv_def drop_ref_def)
next
  case (ar_suspend s g b)
  then show ?case by (auto simp: count_inv_def wg_await_suspend_def split: if_splits)
qed (auto simp: count_inv_def wg_await_ready_def drop_ref_def)

lemma queue_keep:
  assumes inv: "queue_inv n h s"
    and same: "wg_queue (ar_group t) = wg_queue (ar_group s)" "ar_main t = ar_main s"
      "\<And>j. wakes_of (ar_pc t j) = wakes_of (ar_pc s j)"
    and zero: "wg_count (ar_group t) = 0 \<Longrightarrow>
      wg_count (ar_group s) = 0 \<and> (\<forall>j. ar_pc s j = W_zero \<longrightarrow> ar_pc t j = W_zero) \<or> (\<exists>j < n. ar_pc t j = W_zero)"
  shows "queue_inv n h t"
proof -
  have "\<exists>i < n. ar_pc t i = W_zero \<or> wakes_of (ar_pc t i) \<noteq> []"
    if "ar_main t = M_suspended" "wg_count (ar_group t) = 0"
    using zero [OF that(2)] inv that(1) same(2,3) unfolding queue_inv_def by metis
  with inv show ?thesis unfolding queue_inv_def same by blast
qed

lemma queue_step:
  "all_race_step owned n h s t \<Longrightarrow> queue_inv n h s \<Longrightarrow> count_inv n s \<Longrightarrow> queue_inv n h t"
proof (induction rule: all_race_step.induct)
  case (ar_lock i s)
  show ?case by (rule queue_keep [OF ar_lock(4)]) (use ar_lock(2) in auto)
next
  case (ar_count i s c)
  show ?case by (rule queue_keep [OF ar_count(5)]) (use ar_count(1,2) in auto)
next
  case (ar_throw i s)
  have "0 < number counting n (ar_pc s)" using ar_throw by (intro number_pos) auto
  with ar_throw count_zero [of n counting "ar_pc s"] show ?case by (simp add: count_inv_def)
next
  case (ar_drain i s q hs)
  then have "hs = wg_queue (ar_group s)" "q = []" by (auto simp: wg_drain_eq)
  with ar_drain show ?case by (auto simp: queue_inv_def split: if_splits)
next
  case (ar_unlock i s hs)
  show ?case by (rule queue_keep [OF ar_unlock(3)]) (use ar_unlock(2) in auto)
next
  case (ar_wake i s hs)
  show ?case
  proof (cases "hs = []")
    case True
    show ?thesis by (rule queue_keep [OF ar_wake(3)]) (use ar_wake(2) True in auto)
  next
    case False
    have "wakes_of (ar_pc s i) = hs" using ar_wake(2) by simp
    with False ar_wake(1,3) have "hs = [h]" "\<forall>j < n. wakes_of (ar_pc s j) \<noteq> [] \<longrightarrow> j = i"
      "wg_queue (ar_group s) = []"
      unfolding queue_inv_def by metis+
    then show ?thesis by (auto simp: queue_inv_def)
  qed
next
  case (ar_end i s t)
  have "queue_inv n h t" by (rule queue_keep [OF ar_end(4)]) (use ar_end(2,3) in auto)
  then show ?case by (simp add: queue_inv_def drop_ref_def)
next
  case (ar_suspend s g b)
  then show ?case by (auto simp: queue_inv_def count_inv_def wg_await_suspend_def split: if_splits)
qed (auto simp: queue_inv_def drop_ref_def)

lemma ref_step: "all_race_step owned n h s t \<Longrightarrow> ref_inv owned n s \<Longrightarrow> queue_inv n h s \<Longrightarrow> ref_inv owned n t"
proof (induction rule: all_race_step.induct)
  case (ar_end i s t)
  have "number (\<lambda>p. p \<noteq> W_gone) n (ar_pc s) = Suc (number (\<lambda>p. p \<noteq> W_gone) n ((ar_pc s)(i := W_gone)))"
    using ar_end by (intro number_less) auto
  with ar_end show ?case by (auto simp: ref_inv_def drop_ref_def)
next
  case (ar_wake i s hs)
  have "wakes_of (ar_pc s i) = hs" using ar_wake(2) by simp
  with ar_wake(1,4) have "h \<in> set hs \<Longrightarrow> ar_main s = M_suspended"
    unfolding queue_inv_def by (metis empty_iff empty_set)
  with ar_wake show ?case by (auto simp: ref_inv_def number_keep)
qed (auto simp: ref_inv_def drop_ref_def number_keep)

definition all_race_inv :: "bool \<Rightarrow> nat \<Rightarrow> handle \<Rightarrow> all_race \<Rightarrow> bool" where
  "all_race_inv owned n h s \<longleftrightarrow> lock_inv n s \<and> count_inv n s \<and> queue_inv n h s \<and> ref_inv owned n s"

lemma number_all: "(\<And>i. P (f i)) \<Longrightarrow> number P n f = n"
  by (simp add: number_def)

interpretation all_race: invariant_system
  "all_race_init owned n" "all_race_step owned n h" "all_race_inv owned n h"
proof
  show "all_race_inv owned n h s" if "all_race_init owned n s" for s
    using that by (auto simp: all_race_init_def all_race_inv_def lock_inv_def count_inv_def queue_inv_def
        ref_inv_def all_begin_def wg_add_def new_wait_group_def number_all)
  show "all_race_inv owned n h t" if "all_race_inv owned n h s" "all_race_step owned n h s t" for s t
    using that lock_step count_step queue_step ref_step unfolding all_race_inv_def by blast
qed

subsection \<open>Every execution ends\<close>

fun rank :: "wrapper_pc \<Rightarrow> nat" where
  "rank W_running = 6" | "rank W_locked = 5" | "rank W_zero = 4" | "rank (W_release hs) = 3"
| "rank (W_wake hs) = 2" | "rank W_over = 1" | "rank W_gone = 0"

fun main_rank :: "main_pc \<Rightarrow> nat" where
  "main_rank M_before = 4" | "main_rank M_checked = 3" | "main_rank M_suspended = 2"
| "main_rank M_after = 1" | "main_rank M_gone = 0"

definition work_left :: "nat \<Rightarrow> all_race \<Rightarrow> nat" where
  "work_left n s = (\<Sum>i < n. rank (ar_pc s i)) + main_rank (ar_main s)"

lemma rank_less:
  fixes i :: nat
  shows "i < n \<Longrightarrow> rank x < rank (f i) \<Longrightarrow> (\<Sum>j < n. rank ((f(i := x)) j)) < (\<Sum>j < n. rank (f j))"
  by (rule sum_strict_mono_ex1) auto

lemma step_works: "all_race_step owned n h s t \<Longrightarrow> queue_inv n h s \<Longrightarrow> work_left n t < work_left n s"
proof (induction rule: all_race_step.induct)
  case (ar_wake i s hs)
  have "wakes_of (ar_pc s i) = hs" using ar_wake(2) by simp
  with ar_wake(1,3) have "h \<in> set hs \<Longrightarrow> ar_main s = M_suspended"
    unfolding queue_inv_def by (metis empty_iff empty_set)
  with rank_less [of i n W_over "ar_pc s"] ar_wake(1,2) show ?case by (auto simp: work_left_def)
next
  case (ar_end i s t)
  with rank_less [of i n W_gone "ar_pc s"] show ?case by (simp add: work_left_def drop_ref_def)
qed (auto simp: work_left_def drop_ref_def simp del: fun_upd_apply intro!: rank_less split: if_splits)

lemma holder_moves:
  assumes "all_race_inv owned n h s" and "ar_holder s = Some i"
  shows "\<exists>t. all_race_step owned n h s t"
proof -
  have i: "i < n" "holding (ar_pc s i)" using assms by (auto simp: all_race_inv_def lock_inv_def)
  obtain q hs where d: "wg_drain (wg_queue (ar_group s)) [] = (q, hs)" by (cases "wg_drain (wg_queue (ar_group s)) []")
  show ?thesis using i ar_count ar_throw ar_drain [OF _ _ d] ar_unlock
    by (cases "ar_pc s i") (auto; metis)+
qed

lemma all_race_moves:
  assumes inv: "all_race_inv owned n h s" and left: "ar_main s \<noteq> M_gone \<or> (\<exists>i < n. ar_pc s i \<noteq> W_gone)"
  shows "\<exists>t. all_race_step owned n h s t"
proof (cases "ar_holder s")
  case (Some i)
  with inv show ?thesis by (rule holder_moves)
next
  case None
  have wrapper: "\<exists>t. all_race_step owned n h s t" if i: "i < n" and g: "ar_pc s i \<noteq> W_gone" for i
  proof -
    have "\<not> holding (ar_pc s i)" using inv None i by (auto simp: all_race_inv_def lock_inv_def)
    then consider "ar_pc s i = W_running" | hs where "ar_pc s i = W_wake hs" | "ar_pc s i = W_over"
      using g by (cases "ar_pc s i") auto
    then show ?thesis
    proof cases
      case 1
      from ar_lock [OF i 1 None] show ?thesis by (rule exI)
    next
      case 2
      from ar_wake [OF i 2] show ?thesis by (rule exI)
    next
      case 3
      from ar_end [OF i 3 refl] show ?thesis by (rule exI)
    qed
  qed
  show ?thesis
  proof (cases "\<exists>i < n. ar_pc s i \<noteq> W_gone")
    case True
    then show ?thesis using wrapper by blast
  next
    case False
    then have "number counting n (ar_pc s) = 0" by (simp add: number_0)
    then have "wg_count (ar_group s) = 0" using inv by (simp add: all_race_inv_def count_inv_def)
    with False inv have ns: "ar_main s \<noteq> M_suspended" by (auto simp: all_race_inv_def queue_inv_def)
    obtain g b where a: "wg_await_suspend h (ar_group s) = (g, b)" by (cases "wg_await_suspend h (ar_group s)")
    show ?thesis
    proof (cases "ar_main s")
      case M_before
      from ar_ready [OF M_before] show ?thesis by (rule exI)
    next
      case M_checked
      from ar_suspend [OF M_checked None a] show ?thesis by (rule exI)
    next
      case M_after
      from ar_leave [OF M_after] show ?thesis by (rule exI)
    qed (use False left ns in auto)
  qed
qed

lemma no_infinite_run:
  assumes "all_race_inv owned n h (f 0)"
  shows "\<exists>k. \<not> all_race_step owned n h (f k) (f (Suc k))"
proof (rule ccontr)
  assume "\<not> ?thesis"
  then have step: "all_race_step owned n h (f k) (f (Suc k))" for k by blast
  have inv: "all_race_inv owned n h (f k)" for k
    by (induction k) (use assms step all_race.inv_step in blast)+
  have "work_left n (f (Suc k)) < work_left n (f k)" for k
    using step_works [OF step] inv by (simp add: all_race_inv_def)
  then have "\<exists>f. \<forall>i. (f (Suc i), f i) \<in> measure (work_left n)" by (intro exI [of _ f]) simp
  then show False using wf_iff_no_infinite_down_chain [of "measure (work_left n)"] by auto
qed

subsection \<open>Properties\<close>

text \<open>
  (C38) \<open>when_all\<close> synchronises: in every interleaving of the wrappers and of the awaiting
  coroutine, for both overloads, the coroutine goes past its wait only when every task has
  finished, so that every result or the first exception is there; the group's mutex is held
  by one wrapper at a time; and in the tuple overload no wrapper uses the group after the
  shared state was destroyed.
\<close>

theorem when_all_synchronises:
  assumes "reach (all_race_init owned n) (all_race_step owned n h) s" and "i < n"
  shows "(ar_main s \<in> {M_after, M_gone} \<longrightarrow> \<not> counting (ar_pc s i)) \<and>
    (\<forall>j < n. holding (ar_pc s i) \<longrightarrow> holding (ar_pc s j) \<longrightarrow> j = i) \<and>
    (owned \<longrightarrow> touches (ar_pc s i) \<longrightarrow> \<not> ar_destroyed s)"
proof -
  have inv: "all_race_inv owned n h s" by (rule all_race.reach_inv [OF assms(1)])
  then have n: "n < 2 ^ 32" by (simp add: all_race_inv_def count_inv_def)
  have "\<not> counting (ar_pc s i)" if "ar_main s \<in> {M_after, M_gone}"
    using inv that count_zero [OF n, of counting "ar_pc s"] assms(2)
    by (auto simp: all_race_inv_def count_inv_def number_0)
  moreover have "j = i" if "j < n" "holding (ar_pc s i)" "holding (ar_pc s j)" for j
    using inv that assms(2) by (auto simp: all_race_inv_def lock_inv_def)
  moreover have "\<not> ar_destroyed s" if "owned" "touches (ar_pc s i)"
  proof -
    have "ar_pc s i \<noteq> W_gone" using that(2) by (auto simp: touches_def)
    with number_pos [of i n "\<lambda>p. p \<noteq> W_gone" "ar_pc s"] assms(2)
    have "0 < number (\<lambda>p. p \<noteq> W_gone) n (ar_pc s)" by blast
    with inv that(1) show ?thesis by (auto simp: all_race_inv_def ref_inv_def)
  qed
  ultimately show ?thesis by blast
qed

abbreviation demo_race :: "bool \<Rightarrow> all_race" where
  "demo_race owned \<equiv> \<lparr>ar_group = \<lparr>wg_count = 1, wg_queue = []\<rparr>, ar_holder = None, ar_pc = (\<lambda>_. W_running),
     ar_main = M_before, ar_refs = (if owned then 2 else 1), ar_destroyed = False\<rparr>"

lemma demo_race_reach: "reach (all_race_init owned 1) (all_race_step owned 1 h) (demo_race owned)"
  by (rule reach_init) (simp add: all_race_init_def all_begin_def wg_add_def new_wait_group_def)

theorem when_all_synchronises_witness: "touches (ar_pc (demo_race True) 0) \<and> \<not> ar_destroyed (demo_race True)"
  using when_all_synchronises [OF demo_race_reach [of True 9], of 0] by (simp add: touches_def)

text \<open>
  (C39) \<open>when_all\<close> always comes to its end: for both overloads there is no infinite execution,
  and an execution that cannot go on has resumed the awaiting coroutine and finished every
  wrapper. No wakeup is lost, whenever the coroutine checks the counter and suspends.
\<close>

theorem when_all_always_ends:
  assumes "reach (all_race_init owned n) (all_race_step owned n h) s"
  shows "(\<forall>f. f 0 = s \<longrightarrow> (\<exists>k. \<not> all_race_step owned n h (f k) (f (Suc k)))) \<and>
    ((\<forall>t. \<not> all_race_step owned n h s t) \<longrightarrow> ar_main s = M_gone \<and> (\<forall>i < n. ar_pc s i = W_gone) \<and> ar_destroyed s)"
proof -
  have inv: "all_race_inv owned n h s" by (rule all_race.reach_inv [OF assms])
  have "ar_destroyed s" if "ar_main s = M_gone" "\<forall>i < n. ar_pc s i = W_gone"
    using inv that number_0 [of "\<lambda>p. p \<noteq> W_gone" n "ar_pc s"] by (auto simp: all_race_inv_def ref_inv_def)
  with inv no_infinite_run all_race_moves [OF inv] show ?thesis by blast
qed

theorem when_all_always_ends_witness:
  "\<exists>t. all_race_step True 1 9 (demo_race True) t"
proof (rule ccontr)
  assume "\<nexists>t. all_race_step True 1 9 (demo_race True) t"
  then have "ar_main (demo_race True) = M_gone"
    using when_all_always_ends [OF demo_race_reach [of True 9]] by blast
  then show False by simp
qed


end
