(* ===== verification/Dispatcher.thy ===== *)
theory Dispatcher
  imports Prelude
begin

text \<open>
  \<open>Dispatcher\<close> of \<open>include/runtime/dispatcher.h\<close>: an atomic 64-bit ticket counter taken
  modulo the number of contexts.
\<close>

record dispatcher =
  context_count :: size_t
  next_ticket :: size_t

definition dispatcher_default :: dispatcher where
  "dispatcher_default = \<lparr>context_count = 1, next_ticket = 0\<rparr>"

definition dispatcher_init :: "size_t \<Rightarrow> dispatcher \<Rightarrow> dispatcher" where
  "dispatcher_init n d = d\<lparr>context_count := (if n = 0 then 1 else n), next_ticket := 0\<rparr>"

definition dispatch :: "dispatcher \<Rightarrow> dispatcher \<times> size_t" where
  "dispatch d = (d\<lparr>next_ticket := next_ticket d + 1\<rparr>, next_ticket d mod context_count d)"

fun dispatch_many :: "nat \<Rightarrow> dispatcher \<Rightarrow> dispatcher \<times> size_t list" where
  "dispatch_many 0 d = (d, [])"
| "dispatch_many (Suc k) d =
     (let (d1, i) = dispatch d; (d2, is) = dispatch_many k d1 in (d2, i # is))"

lemma dispatch_many_eq:
  "unat (next_ticket d) + k < 2 ^ 64 \<Longrightarrow>
   dispatch_many k d = (d\<lparr>next_ticket := next_ticket d + of_nat k\<rparr>,
     map (\<lambda>j. (next_ticket d + of_nat j) mod context_count d) [0..<k])"
proof (induction k arbitrary: d)
  case (Suc k)
  let ?d = "d\<lparr>next_ticket := next_ticket d + 1\<rparr>"
  have "unat (next_ticket d + 1) = unat (next_ticket d) + 1"
    using Suc.prems by (simp add: unat_word_ariths)
  then have "dispatch_many k ?d = (?d\<lparr>next_ticket := next_ticket ?d + of_nat k\<rparr>,
     map (\<lambda>j. (next_ticket ?d + of_nat j) mod context_count ?d) [0..<k])"
    using Suc.prems by (intro Suc.IH) simp
  then show ?case
    by (simp add: dispatch_def map_upt_cons add.assoc del: upt_Suc)
qed simp

lemma unat_dispatch:
  assumes "unat t + j < 2 ^ 64"
  shows "unat ((t + of_nat j) mod (n :: size_t)) = (unat t + j) mod unat n"
  using assms by (simp add: unat_mod_distrib unat_word_ariths unat_of_nat)

lemma residues:
  assumes "i < (n :: nat)"
  shows "length (filter (\<lambda>j. j mod n = i) [0..<k]) = k div n + (if i < k mod n then 1 else 0)"
proof (induction k)
  case (Suc k)
  have "k mod n < n" using assms by simp
  with Suc assms show ?case by (cases "Suc (k mod n) = n") (auto simp: mod_Suc div_Suc)
qed simp

text \<open>
  Round robin: a dispatcher initialised for \<open>count\<close> contexts (one, if \<open>count\<close> is zero)
  answers its first \<open>k\<close> calls with 0, 1, 2, \<dots> modulo the number of contexts, every answer
  is a valid index, and any two contexts have been chosen equally often, up to one.
\<close>

lemma dispatch_is_round_robin:
  assumes "k < 2 ^ 64" and "n = (if count = 0 then 1 else unat count)"
    and "dispatch_many k (dispatcher_init count d) = (d', is)"
  shows "map unat is = map (\<lambda>j. j mod n) [0..<k] \<and> (\<forall>i \<in> set is. unat i < n) \<and>
    (\<forall>i < n. length (filter (\<lambda>x. unat x = i) is) = k div n + (if i < k mod n then 1 else 0))"
proof -
  let ?c = "if count = 0 then 1 else count"
  have n: "n = unat ?c" "0 < n" using assms(2) by (auto simp: unat_gt_0)
  have "is = map (\<lambda>j. of_nat j mod ?c) [0..<k]"
    using dispatch_many_eq [of "dispatcher_init count d" k] assms(1,3) by (simp add: dispatcher_init_def)
  moreover have "unat (of_nat j mod ?c) = j mod n" if "j < k" for j
    using unat_dispatch [of 0 j ?c] assms(1) that n by simp
  ultimately have m: "map unat is = map (\<lambda>j. j mod n) [0..<k]" by simp
  have v: "\<forall>i \<in> set is. unat i < n"
  proof
    fix i assume "i \<in> set is"
    then have "unat i \<in> set (map unat is)" by simp
    with m n(2) show "unat i < n" by auto
  qed
  have "length (filter (\<lambda>x. unat x = i) is) = k div n + (if i < k mod n then 1 else 0)" if "i < n" for i
  proof -
    have "length (filter (\<lambda>x. unat x = i) is) = length (filter (\<lambda>x. x = i) (map unat is))"
      by (simp add: filter_map comp_def)
    also have "\<dots> = length (filter (\<lambda>j. j mod n = i) [0..<k])" unfolding m by (simp add: filter_map comp_def)
    finally show ?thesis by (simp only: residues [OF that])
  qed
  with m v show ?thesis by blast
qed

end
