(* ===== verification/Scheduler.thy ===== *)
theory Scheduler
  imports Context Dispatcher
begin

text \<open>
  \<open>Scheduler\<close> of \<open>include/runtime/scheduler.h\<close> and \<open>src/runtime/scheduler.cpp\<close>. A context
  is named by a key that no other context of the program has; its engine is the world's
  engine of that key. \<open>sc_running\<close> are the keys whose worker thread runs, \<open>sc_stopping\<close>
  those whose stop token is set, \<open>sc_loop_blocked\<close> holds while a thread is blocked in
  \<open>completion_cv_.wait\<close>. Joining a worker is where its thread has left its loop.
\<close>

subsection \<open>Data\<close>

record ('u, 'v, 's) scheduler =
  sc_world :: "('u, 'v, 's) world"
  sc_contexts :: "nat list"
  sc_dispatcher :: dispatcher
  sc_stop_requested :: bool
  sc_accepting :: bool
  sc_initialized :: bool
  sc_fresh :: nat
  sc_running :: "nat set"
  sc_stopping :: "nat set"
  sc_loop_blocked :: bool

definition new_scheduler :: "('u, 'v, 's) world \<Rightarrow> nat \<Rightarrow> ('u, 'v, 's) scheduler" where
  "new_scheduler w k =
     \<lparr>sc_world = w\<lparr>pending_tasks := 0\<rparr>, sc_contexts = [], sc_dispatcher = dispatcher_default,
      sc_stop_requested = False, sc_accepting = False, sc_initialized = False, sc_fresh = k,
      sc_running = {}, sc_stopping = {}, sc_loop_blocked = False\<rparr>"

definition on_world ::
  "(('u, 'v, 's) world \<Rightarrow> ('u, 'v, 's) world) \<Rightarrow> ('u, 'v, 's) scheduler \<Rightarrow> ('u, 'v, 's) scheduler" where
  "on_world f s = s\<lparr>sc_world := f (sc_world s)\<rparr>"

subsection \<open>Initialisation\<close>

text \<open>
  \<open>std::make_unique<Context>\<close>: the engine's ring is opened with its default depth, which may
  throw; then the contexts built so far stay in the vector.
\<close>

definition make_context ::
  "'u liburing \<Rightarrow> ('u, 'v, 's) scheduler \<Rightarrow> ('u, 'v, 's) scheduler \<times> unit res" where
  "make_context L s =
     (case IoUring_new L 256 of
        Ret u \<Rightarrow> (on_world (on_engine (sc_fresh s) (\<lambda>_. new_engine u)) s
                 \<lparr>sc_contexts := sc_contexts s @ [sc_fresh s], sc_fresh := Suc (sc_fresh s)\<rparr>, Ret ())
      | Throw x \<Rightarrow> (s, Throw x)
      | Undef \<Rightarrow> (s, Undef))"

fun make_contexts ::
  "'u liburing \<Rightarrow> nat \<Rightarrow> ('u, 'v, 's) scheduler \<Rightarrow> ('u, 'v, 's) scheduler \<times> unit res" where
  "make_contexts L 0 s = (s, Ret ())"
| "make_contexts L (Suc n) s = bind_res (make_context L s) (\<lambda>s1 _. make_contexts L n s1)"

text \<open>\<open>Context::start\<close>: the worker's thread runs from now on.\<close>

definition context_start :: "nat \<Rightarrow> ('u, 'v, 's) scheduler \<Rightarrow> ('u, 'v, 's) scheduler" where
  "context_start c s = s\<lparr>sc_running := insert c (sc_running s)\<rparr>"

lemma context_start_fold [simp]: "fold context_start cs s = s\<lparr>sc_running := sc_running s \<union> set cs\<rparr>"
  by (induction cs arbitrary: s) (simp_all add: context_start_def)

definition scheduler_init ::
  "'u liburing \<Rightarrow> size_t \<Rightarrow> ('u, 'v, 's) scheduler \<Rightarrow> ('u, 'v, 's) scheduler \<times> unit res" where
  "scheduler_init L n s =
     (if sc_initialized s then (s, Ret ())
      else
        let worker_count = (if n = 0 then 1 else n) in
        bind_res (make_contexts L (unat worker_count) s)
          (\<lambda>s1 _. (on_world (\<lambda>w. w\<lparr>pending_tasks := 0\<rparr>)
             ((fold context_start (sc_contexts s1) s1)
                \<lparr>sc_dispatcher := dispatcher_init worker_count (sc_dispatcher s1),
                 sc_stop_requested := False, sc_accepting := True, sc_initialized := True\<rparr>), Ret ())))"

subsection \<open>Submission and completion\<close>

definition submit_new ::
  "handle \<Rightarrow> ('u, 'v, 's) scheduler \<Rightarrow> ('u, 'v, 's) scheduler \<times> unit res" where
  "submit_new h s =
     (if h = null_handle then (s, Ret ())
      else if \<not> sc_initialized s \<or> \<not> sc_accepting s then
        (let (w, r) = world_destroy h (sc_world s) in (s\<lparr>sc_world := w\<rparr>, r))
      else
        let s1 = on_world (\<lambda>w. w\<lparr>pending_tasks := pending_tasks w + 1\<rparr>) s;
            (d, i) = dispatch (sc_dispatcher s1);
            s2 = s1\<lparr>sc_dispatcher := d\<rparr> in
        if unat i < length (sc_contexts s2)
        then (on_world (context_submit_task (sc_contexts s2 ! unat i) h) s2, Ret ())
        else (s2, Undef))"

definition scheduler_submit_task ::
  "task \<Rightarrow> ('u, 'v, 's) scheduler \<Rightarrow> ('u, 'v, 's) scheduler \<times> task \<times> unit res" where
  "scheduler_submit_task t s =
     (let h = get_handle t; t1 = detach t; (s1, r) = submit_new h s in (s1, t1, r))"

definition scheduler_submit_handle ::
  "handle \<Rightarrow> ('u, 'v, 's) scheduler \<Rightarrow> ('u, 'v, 's) scheduler \<times> unit res" where
  "scheduler_submit_handle h s = submit_new h s"

text \<open>\<open>fetch_sub\<close> answers the old value; a notification wakes the thread blocked in \<open>loop\<close>.\<close>

definition on_task_completed :: "('u, 'v, 's) scheduler \<Rightarrow> ('u, 'v, 's) scheduler" where
  "on_task_completed s =
     (let old = pending_tasks (sc_world s);
          s1 = on_world (\<lambda>w. w\<lparr>pending_tasks := old - 1\<rparr>) s in
      if old = 1 then s1\<lparr>sc_loop_blocked := False\<rparr> else s1)"

subsection \<open>Stopping\<close>

definition context_notify_stop :: "nat \<Rightarrow> ('u, 'v, 's) scheduler \<Rightarrow> ('u, 'v, 's) scheduler" where
  "context_notify_stop c s =
     on_world (on_engine c engine_notify_all) (s\<lparr>sc_stopping := sc_stopping s \<union> {c}\<rparr>)"

definition context_join :: "nat \<Rightarrow> ('u, 'v, 's) scheduler \<Rightarrow> ('u, 'v, 's) scheduler" where
  "context_join c s = s\<lparr>sc_running := sc_running s - {c}\<rparr>"

definition shutdown_contexts :: "('u, 'v, 's) scheduler \<Rightarrow> ('u, 'v, 's) scheduler" where
  "shutdown_contexts s =
     (if \<not> sc_initialized s then s
      else
        let contexts = sc_contexts s;
            s1 = s\<lparr>sc_contexts := [], sc_initialized := False\<rparr> in
        fold context_join contexts (fold context_notify_stop contexts s1))"

definition loop_pred :: "('u, 'v, 's) scheduler \<Rightarrow> bool" where
  "loop_pred s \<longleftrightarrow> sc_stop_requested s \<or> pending_tasks (sc_world s) = 0"

text \<open>
  \<open>loop\<close> up to the wait: an exception, or whether it goes on at once or blocks; and from the
  wait on.
\<close>

definition loop_begin :: "('u, 'v, 's) scheduler \<Rightarrow> ('u, 'v, 's) scheduler \<times> bool res" where
  "loop_begin s =
     (if \<not> sc_initialized s
      then (s, Throw (LogicError ''runtime::Scheduler::init must be called before loop''))
      else if loop_pred s then (s, Ret True)
      else (s\<lparr>sc_loop_blocked := True\<rparr>, Ret False))"

definition loop_end :: "('u, 'v, 's) scheduler \<Rightarrow> ('u, 'v, 's) scheduler" where
  "loop_end s = shutdown_contexts (s\<lparr>sc_accepting := False\<rparr>)"

definition scheduler_stop :: "('u, 'v, 's) scheduler \<Rightarrow> ('u, 'v, 's) scheduler" where
  "scheduler_stop s =
     (if \<not> sc_initialized s then s
      else shutdown_contexts (s\<lparr>sc_accepting := False, sc_stop_requested := True, sc_loop_blocked := False\<rparr>))"

definition scheduler_destroy :: "('u, 'v, 's) scheduler \<Rightarrow> ('u, 'v, 's) scheduler" where
  "scheduler_destroy s = scheduler_stop s"

end
