(* ===== verification/Scheduler_Props.thy ===== *)
theory Scheduler_Props
  imports Scheduler Step_System
begin

text \<open>
  Properties of the scheduler: where submitted tasks go and what stopping does.
\<close>

subsection \<open>Initialisation and distribution\<close>

definition fresh_engines :: "'u \<Rightarrow> nat \<Rightarrow> nat \<Rightarrow> (nat \<Rightarrow> 'u engine) \<Rightarrow> nat \<Rightarrow> 'u engine" where
  "fresh_engines u k n E c = (if k \<le> c \<and> c < k + n then new_engine u else E c)"

lemma fresh_engines_simps:
  "fresh_engines u k 0 E = E"
  "fresh_engines u (Suc k) n (E(k := new_engine u)) = fresh_engines u k (Suc n) E"
  by (auto simp: fresh_engines_def fun_eq_iff)

lemma make_contexts_eq:
  assumes "IoUring_new L 256 = Ret u"
  shows "make_contexts L n s =
    (s\<lparr>sc_world := (sc_world s)\<lparr>engines := fresh_engines u (sc_fresh s) n (engines (sc_world s))\<rparr>,
       sc_contexts := sc_contexts s @ [sc_fresh s..<sc_fresh s + n], sc_fresh := sc_fresh s + n\<rparr>, Ret ())"
proof (induction n arbitrary: s)
  case 0
  then show ?case by (simp add: fresh_engines_simps)
next
  case (Suc n)
  have l: "[sc_fresh s..<Suc (sc_fresh s + n)] = sc_fresh s # [Suc (sc_fresh s)..<Suc (sc_fresh s + n)]"
    by (rule upt_conv_Cons) simp
  show ?case
    using assms Suc by (simp add: make_context_def on_world_def on_engine_def l fresh_engines_simps del: upt_Suc)
qed

fun submit_all :: "handle list \<Rightarrow> ('u, 'v, 's) scheduler \<Rightarrow> ('u, 'v, 's) scheduler \<times> unit res" where
  "submit_all [] s = (s, Ret ())"
| "submit_all (h # hs) s = bind_res (submit_new h s) (\<lambda>s1 _. submit_all hs s1)"

lemma submit_all_append: "submit_all (hs @ ks) s = bind_res (submit_all hs s) (\<lambda>s1 _. submit_all ks s1)"
  by (induction hs arbitrary: s) (simp_all add: bind_res_assoc)

text \<open>The handles that went to context \<open>j\<close> of \<open>n\<close>, in order.\<close>

definition share :: "nat \<Rightarrow> nat \<Rightarrow> handle list \<Rightarrow> handle list" where
  "share n j hs = map (\<lambda>i. hs ! i) (filter (\<lambda>i. i mod n = j) [0..<length hs])"

lemma share_snoc: "share n j (hs @ [h]) = share n j hs @ (if length hs mod n = j then [h] else [])"
proof -
  have "map ((!) (hs @ [h])) (filter (\<lambda>i. i mod n = j) [0..<length hs]) =
      map ((!) hs) (filter (\<lambda>i. i mod n = j) [0..<length hs])"
    by (auto simp: nth_append)
  then show ?thesis by (simp add: share_def)
qed

definition ready ::
  "nat \<Rightarrow> size_t \<Rightarrow> ('u, 'v, 's) scheduler \<Rightarrow> bool" where
  "ready k n s \<longleftrightarrow>
     sc_initialized s \<and> sc_accepting s \<and> sc_contexts s = [k..<k + unat n] \<and> n \<noteq> 0 \<and>
     context_count (sc_dispatcher s) = n"

lemma submit_new_ready:
  assumes "ready k n s" and "h \<noteq> null_handle"
  defines "i \<equiv> unat (next_ticket (sc_dispatcher s)) mod unat n"
  shows "\<exists>s'. submit_new h s = (s', Ret ()) \<and> ready k n s' \<and>
    next_ticket (sc_dispatcher s') = next_ticket (sc_dispatcher s) + 1 \<and>
    pending_tasks (sc_world s') = pending_tasks (sc_world s) + 1 \<and>
    (\<forall>c. task_queue (engines (sc_world s') c) =
       task_queue (engines (sc_world s) c) @ (if c = k + i then [h] else []))"
proof -
  have "0 < unat n" using assms(1) by (simp add: ready_def unat_gt_0)
  then have i: "unat (next_ticket (sc_dispatcher s) mod n) = i" "i < unat n"
    by (simp_all add: i_def unat_mod_distrib)
  then have "submit_new h s = (on_world (context_submit_task (k + i) h)
      ((on_world (\<lambda>w. w\<lparr>pending_tasks := pending_tasks w + 1\<rparr>) s)
        \<lparr>sc_dispatcher := (sc_dispatcher s)\<lparr>next_ticket := next_ticket (sc_dispatcher s) + 1\<rparr>\<rparr>), Ret ())"
    using assms(1,2) by (simp add: submit_new_def ready_def dispatch_def on_world_def Let_def)
  with assms(1) show ?thesis
    by (auto simp: ready_def on_world_def context_submit_task_def on_engine_def engine_submit_task_def notify_cv_def)
qed

lemma submit_all_ready:
  assumes r: "ready k n s" and t: "next_ticket (sc_dispatcher s) = 0" and "null_handle \<notin> set hs" and "length hs < 2 ^ 64"
  shows "\<exists>s'. submit_all hs s = (s', Ret ()) \<and> ready k n s' \<and>
    next_ticket (sc_dispatcher s') = of_nat (length hs) \<and>
    pending_tasks (sc_world s') = pending_tasks (sc_world s) + of_nat (length hs) \<and>
    (\<forall>c. task_queue (engines (sc_world s') c) = task_queue (engines (sc_world s) c) @
       (if k \<le> c \<and> c < k + unat n then share (unat n) (c - k) hs else []))"
  using assms(3,4)
proof (induction hs rule: rev_induct)
  case Nil
  then show ?case using r t by (auto simp: share_def)
next
  case (snoc h hs)
  then obtain s1 where s1: "submit_all hs s = (s1, Ret ())" "ready k n s1"
    "next_ticket (sc_dispatcher s1) = of_nat (length hs)"
    "pending_tasks (sc_world s1) = pending_tasks (sc_world s) + of_nat (length hs)"
    "\<forall>c. task_queue (engines (sc_world s1) c) = task_queue (engines (sc_world s) c) @
       (if k \<le> c \<and> c < k + unat n then share (unat n) (c - k) hs else [])" by auto
  have u: "unat (of_nat (length hs) :: size_t) = length hs" using snoc.prems by (simp add: unat_of_nat)
  have n: "length hs mod unat n < unat n" using s1(2) by (simp add: ready_def unat_gt_0)
  have "h \<noteq> null_handle" using snoc.prems by auto
  from submit_new_ready [OF s1(2) this] s1(3) u obtain s2 where
    s2: "submit_new h s1 = (s2, Ret ())" "ready k n s2" "next_ticket (sc_dispatcher s2) = of_nat (length hs) + 1"
      "pending_tasks (sc_world s2) = pending_tasks (sc_world s1) + 1"
      "\<forall>c. task_queue (engines (sc_world s2) c) =
       task_queue (engines (sc_world s1) c) @ (if c = k + length hs mod unat n then [h] else [])"
    by auto
  have "task_queue (engines (sc_world s2) c) = task_queue (engines (sc_world s) c) @
       (if k \<le> c \<and> c < k + unat n then share (unat n) (c - k) (hs @ [h]) else [])" for c
    using s2(5) s1(5) n by (auto simp: share_snoc)
  then show ?case using s1 s2 by (auto simp: submit_all_append)
qed

text \<open>
  (C31) A scheduler initialised for \<open>n\<close> contexts (one, if \<open>n\<close> is zero) starts that many
  workers; the tasks submitted after that are queued round robin, task \<open>i\<close> on context
  \<open>i mod n\<close>, each context gets its tasks in the order of submission, and all are counted as
  pending. A second initialisation changes nothing.
\<close>

theorem submissions_are_spread_round_robin:
  assumes "IoUring_new L 256 = Ret u" and "null_handle \<notin> set hs" and "length hs < 2 ^ 64"
    and "m = (if n = 0 then 1 else unat n)"
  shows "\<exists>s1 s2. scheduler_init L n (new_scheduler w k) = (s1, Ret ()) \<and>
    sc_running s1 = {k..<k + m} \<and> scheduler_init L n' s1 = (s1, Ret ()) \<and>
    submit_all hs s1 = (s2, Ret ()) \<and> pending_tasks (sc_world s2) = of_nat (length hs) \<and>
    (\<forall>j < m. task_queue (engines (sc_world s2) (k + j)) = share m j hs)"
proof -
  let ?n = "if n = 0 then 1 else n"
  have m: "m = unat ?n" using assms(4) by simp
  let ?e = "fresh_engines u k m (engines w)"
  obtain s1 where s1: "scheduler_init L n (new_scheduler w k) = (s1, Ret ())"
    and f: "sc_running s1 = set [k..<k + m]" "sc_initialized s1" "sc_accepting s1" "sc_contexts s1 = [k..<k + m]"
      "sc_dispatcher s1 = dispatcher_init ?n dispatcher_default" "engines (sc_world s1) = ?e"
      "pending_tasks (sc_world s1) = 0"
    using make_contexts_eq [OF assms(1), of m "new_scheduler w k"] m
    by (auto simp: scheduler_init_def new_scheduler_def on_world_def Let_def)
  have r: "ready k ?n s1" using f m by (simp add: ready_def dispatcher_init_def)
  have "next_ticket (sc_dispatcher s1) = 0" using f by (simp add: dispatcher_init_def)
  from submit_all_ready [OF r this assms(2,3)] obtain s2 where
    s2: "submit_all hs s1 = (s2, Ret ())" "pending_tasks (sc_world s2) = of_nat (length hs)"
      "\<forall>c. task_queue (engines (sc_world s2) c) = task_queue (engines (sc_world s1) c) @
       (if k \<le> c \<and> c < k + m then share m (c - k) hs else [])"
    using f(7) m by auto
  have "\<forall>j < m. task_queue (engines (sc_world s2) (k + j)) = share m j hs"
    using s2(3) f(6) by (simp add: new_engine_def fresh_engines_def)
  moreover have "scheduler_init L n' s1 = (s1, Ret ())" using f(2) by (simp add: scheduler_init_def)
  ultimately show ?thesis using s1 f(1) s2 by auto
qed

definition demo_start_world :: "(uint64 list \<times> uint64 list, unit, unit) world" where
  "demo_start_world = \<lparr>engines = (\<lambda>_. new_engine ([], [])), local_context_ptr = None, pending_tasks = 0,
     io_store = (\<lambda>_. None), frames = [5 \<mapsto> new_frame, 6 \<mapsto> new_frame, 7 \<mapsto> new_frame], obj = ()\<rparr>"

theorem submissions_are_spread_round_robin_witness:
  "\<exists>s1 s2. scheduler_init demo_uring 2 (new_scheduler demo_start_world 0) = (s1, Ret ()) \<and>
    submit_all [5, 6, 7] s1 = (s2, Ret ()) \<and> task_queue (engines (sc_world s2) 0) = [5, 7]"
proof -
  have u: "IoUring_new demo_uring 256 = Ret ([], [])" by (simp add: IoUring_new_def demo_uring_def)
  have "share 2 0 [5, 6, 7] = [5, 7]" by (simp add: share_def upt_rec)
  with submissions_are_spread_round_robin [OF u, of "[5, 6, 7]" 2 2 demo_start_world 0 1] show ?thesis
    by fastforce
qed

subsection \<open>Stopping\<close>

definition notified :: "nat list \<Rightarrow> (nat \<Rightarrow> 'u engine) \<Rightarrow> nat \<Rightarrow> 'u engine" where
  "notified cs E c = (if c \<in> set cs then engine_notify_all (E c) else E c)"

lemma notified_simps:
  "notified [] E = E" "notified cs (E(c := engine_notify_all (E c))) = notified (c # cs) E"
  by (auto simp: notified_def fun_eq_iff engine_notify_all_def notify_cv_def)

lemma notify_stop_fold:
  "fold context_notify_stop cs s =
    s\<lparr>sc_stopping := sc_stopping s \<union> set cs,
      sc_world := (sc_world s)\<lparr>engines := notified cs (engines (sc_world s))\<rparr>\<rparr>"
proof (induction cs arbitrary: s)
  case (Cons c cs)
  have "context_notify_stop c s = s\<lparr>sc_stopping := insert c (sc_stopping s), sc_world := (sc_world s)
      \<lparr>engines := (engines (sc_world s))(c := engine_notify_all (engines (sc_world s) c))\<rparr>\<rparr>"
    by (simp add: context_notify_stop_def on_world_def on_engine_def)
  then show ?case by (simp add: Cons.IH notified_simps(2) del: fun_upd_apply)
qed (simp add: notified_simps)

lemma join_fold: "fold context_join cs s = s\<lparr>sc_running := sc_running s - set cs\<rparr>"
proof (induction cs arbitrary: s)
  case (Cons c cs)
  have "sc_running s - {c} - set cs = sc_running s - insert c (set cs)" by auto
  with Cons show ?case by (simp add: context_join_def)
qed simp


definition demo_scheduler :: "(uint64 list \<times> uint64 list, unit, unit) scheduler" where
  "demo_scheduler = fst (scheduler_init demo_uring 2 (new_scheduler demo_start_world 0))"


end
