(* ===== verification/Scheduler_Machine.thy ===== *)
theory Scheduler_Machine
  imports Scheduler_Props
begin

text \<open>
  Executions of a scheduler in which each method is one step: the accounting of pending
  tasks, on which \<open>loop\<close> relies.
\<close>

subsection \<open>Accounting\<close>

record ('u, 'v, 's) account =
  ac_scheduler :: "('u, 'v, 's) scheduler"
  outstanding :: nat

inductive account_step ::
  "'u liburing \<Rightarrow> ('u, 'v, 's) account \<Rightarrow> ('u, 'v, 's) account \<Rightarrow> bool" for L where
  acc_init: "scheduler_init L n (ac_scheduler a) = (s, r) \<Longrightarrow>
    account_step L a (a\<lparr>ac_scheduler := s, outstanding :=
      if r = Ret () \<and> \<not> sc_initialized (ac_scheduler a) then 0 else outstanding a\<rparr>)"
| acc_submit: "h \<noteq> null_handle \<Longrightarrow> outstanding a + 1 < 2 ^ 64 \<Longrightarrow> submit_new h (ac_scheduler a) = (s, Ret ()) \<Longrightarrow>
    account_step L a (a\<lparr>ac_scheduler := s, outstanding := outstanding a +
      (if sc_initialized (ac_scheduler a) \<and> sc_accepting (ac_scheduler a) then 1 else 0)\<rparr>)"
| acc_tracked: "h \<noteq> null_handle \<Longrightarrow> outstanding a + 1 < 2 ^ 64 \<Longrightarrow>
    account_step L a (a\<lparr>ac_scheduler := on_world (submit_tracked_task c h) (ac_scheduler a), outstanding := outstanding a + 1\<rparr>)"
| acc_complete: "0 < outstanding a \<Longrightarrow>
    account_step L a (a\<lparr>ac_scheduler := on_task_completed (ac_scheduler a), outstanding := outstanding a - 1\<rparr>)"
| acc_loop: "loop_begin (ac_scheduler a) = (s, Ret b) \<Longrightarrow> account_step L a (a\<lparr>ac_scheduler := s\<rparr>)"
| acc_loop_end: "\<not> sc_loop_blocked (ac_scheduler a) \<Longrightarrow> account_step L a (a\<lparr>ac_scheduler := loop_end (ac_scheduler a)\<rparr>)"
| acc_stop: "account_step L a (a\<lparr>ac_scheduler := scheduler_stop (ac_scheduler a)\<rparr>)"

definition account_init :: "('u, 'v, 's) account \<Rightarrow> bool" where
  "account_init a \<longleftrightarrow> (\<exists>w k. a = \<lparr>ac_scheduler = new_scheduler w k, outstanding = 0\<rparr>)"

definition account_inv :: "('u, 'v, 's) account \<Rightarrow> bool" where
  "account_inv a \<longleftrightarrow>
     pending_tasks (sc_world (ac_scheduler a)) = of_nat (outstanding a) \<and> outstanding a < 2 ^ 64 \<and>
     (sc_loop_blocked (ac_scheduler a) \<longrightarrow> sc_initialized (ac_scheduler a) \<and> \<not> loop_pred (ac_scheduler a))"

lemma make_contexts_frame:
  "make_contexts L n s = (s', r) \<Longrightarrow> sc_loop_blocked s' = sc_loop_blocked s \<and>
    sc_initialized s' = sc_initialized s \<and> pending_tasks (sc_world s') = pending_tasks (sc_world s)"
proof (induction n arbitrary: s)
  case (Suc n)
  obtain s1 r1 where 1: "make_context L s = (s1, r1)" by (cases "make_context L s")
  then have "sc_loop_blocked s1 = sc_loop_blocked s" "sc_initialized s1 = sc_initialized s"
    "pending_tasks (sc_world s1) = pending_tasks (sc_world s)"
    by (auto simp: make_context_def on_world_def on_engine_def split: res.splits)
  with Suc 1 show ?case by (cases r1) auto
qed simp

lemma shutdown_frame:
  "pending_tasks (sc_world (shutdown_contexts s)) = pending_tasks (sc_world s)"
  "sc_loop_blocked (shutdown_contexts s) = sc_loop_blocked s"
  by (simp_all add: shutdown_contexts_def notify_stop_fold join_fold Let_def)

lemma of_nat_size_t_eq: "a < 2 ^ 64 \<Longrightarrow> b < 2 ^ 64 \<Longrightarrow> (of_nat a :: size_t) = of_nat b \<longleftrightarrow> a = b"
  by (auto dest: arg_cong [where f = unat] simp: unat_of_nat)

lemma submit_new_frame:
  assumes "submit_new h s = (s', Ret ())" and "h \<noteq> null_handle"
  shows "pending_tasks (sc_world s') = pending_tasks (sc_world s) + (if sc_initialized s \<and> sc_accepting s then 1 else 0)"
    and "sc_loop_blocked s' = sc_loop_blocked s" "sc_initialized s' = sc_initialized s"
    "sc_stop_requested s' = sc_stop_requested s"
  using assms
  by (auto simp: submit_new_def world_destroy_def handle_destroy_def on_world_def context_submit_task_def
      on_engine_def dispatch_def Let_def split: if_splits option.splits)

lemma init_keeps_account:
  assumes "scheduler_init L n (ac_scheduler a) = (s, r)" and inv: "account_inv a"
  shows "account_inv (a\<lparr>ac_scheduler := s, outstanding :=
      if r = Ret () \<and> \<not> sc_initialized (ac_scheduler a) then 0 else outstanding a\<rparr>)"
proof (cases "sc_initialized (ac_scheduler a)")
  case True
  with assms have "s = ac_scheduler a" by (simp add: scheduler_init_def)
  with True inv show ?thesis by (simp add: account_inv_def)
next
  case False
  then have nb: "\<not> sc_loop_blocked (ac_scheduler a)" using inv by (simp add: account_inv_def)
  obtain s1 r1 where m: "make_contexts L (unat (if n = 0 then 1 else n)) (ac_scheduler a) = (s1, r1)"
    by (cases "make_contexts L (unat (if n = 0 then 1 else n)) (ac_scheduler a)")
  note f = make_contexts_frame [OF m]
  show ?thesis using inv assms(1) False nb f m
    by (cases r1) (auto simp: scheduler_init_def account_inv_def on_world_def Let_def)
qed

lemma complete_keeps_account:
  assumes pos: "0 < outstanding a" and inv: "account_inv a"
  shows "account_inv (a\<lparr>ac_scheduler := on_task_completed (ac_scheduler a), outstanding := outstanding a - 1\<rparr>)"
proof -
  let ?s = "ac_scheduler a"
  have p: "pending_tasks (sc_world ?s) = of_nat (outstanding a)" "outstanding a < 2 ^ 64"
    using inv by (simp_all add: account_inv_def)
  have one: "pending_tasks (sc_world ?s) = 1 \<longleftrightarrow> outstanding a = 1"
    using of_nat_size_t_eq [of "outstanding a" 1] p by simp
  have d: "(of_nat (outstanding a) - 1 :: size_t) = of_nat (outstanding a - 1)"
    using pos by (simp add: of_nat_diff)
  have z: "(of_nat (outstanding a - 1) :: size_t) = 0 \<longleftrightarrow> outstanding a = 1"
    using of_nat_eq_0_size_t [of "outstanding a - 1"] p(2) pos by auto
  show ?thesis
  proof (cases "outstanding a = 1")
    case True
    then show ?thesis using p one
      by (simp add: account_inv_def on_task_completed_def on_world_def Let_def)
  next
    case False
    then have "on_task_completed ?s = on_world (\<lambda>w. w\<lparr>pending_tasks := of_nat (outstanding a - 1)\<rparr>) ?s"
      using one p(1) d by (simp add: on_task_completed_def Let_def)
    with False inv p(2) z show ?thesis by (auto simp: account_inv_def loop_pred_def on_world_def)
  qed
qed

lemma account_step_inv:
  assumes step: "account_step L a a'" and inv: "account_inv a"
  shows "account_inv a'"
  using step
proof cases
  case (acc_init n s r)
  with init_keeps_account [OF _ inv] show ?thesis by simp
next
  case (acc_submit h s)
  note f = submit_new_frame [OF acc_submit(4,2)]
  have z: "(1 + of_nat (outstanding a) :: size_t) \<noteq> 0"
    using of_nat_eq_0_size_t [of "Suc (outstanding a)"] acc_submit(3) by simp
  show ?thesis using inv acc_submit(1,3) f z by (auto simp: account_inv_def loop_pred_def add.commute)
next
  case (acc_tracked h c)
  have z: "(1 + of_nat (outstanding a) :: size_t) \<noteq> 0"
    using of_nat_eq_0_size_t [of "Suc (outstanding a)"] acc_tracked(3) by simp
  show ?thesis using inv acc_tracked z
    by (auto simp: account_inv_def loop_pred_def on_world_def submit_tracked_task_def on_engine_def add.commute)
next
  case acc_complete
  with complete_keeps_account [OF _ inv] show ?thesis by simp
next
  case (acc_loop s b)
  with inv show ?thesis by (auto simp: account_inv_def loop_begin_def loop_pred_def split: if_splits)
next
  case acc_loop_end
  with inv show ?thesis by (simp add: account_inv_def loop_end_def shutdown_frame)
next
  case acc_stop
  with inv show ?thesis by (auto simp: account_inv_def scheduler_stop_def shutdown_frame)
qed

interpretation accounting: invariant_system account_init "account_step L" account_inv
proof
  show "account_inv s" if "account_init s" for s
    using that by (auto simp: account_init_def account_inv_def new_scheduler_def)
  show "account_inv t" if "account_inv s" "account_step L s t" for s t
    using that account_step_inv by blast
qed


lemma demo_scheduler_eq:
  "demo_scheduler = \<lparr>sc_world = demo_start_world, sc_contexts = [0, 1],
     sc_dispatcher = \<lparr>context_count = 2, next_ticket = 0\<rparr>, sc_stop_requested = False, sc_accepting = True,
     sc_initialized = True, sc_fresh = 2, sc_running = {0, 1}, sc_stopping = {}, sc_loop_blocked = False\<rparr>"
proof -
  have u: "IoUring_new demo_uring 256 = Ret ([], [])" by (simp add: IoUring_new_def demo_uring_def)
  have e: "fresh_engines ([], []) 0 2 (\<lambda>_. new_engine ([], [])) = (\<lambda>_. new_engine ([], []))"
    by (simp add: fresh_engines_def fun_eq_iff)
  show ?thesis
    using make_contexts_eq [OF u, of 2 "new_scheduler demo_start_world 0"] e
    by (simp add: demo_scheduler_def scheduler_init_def on_world_def new_scheduler_def demo_start_world_def
        upt_rec dispatcher_init_def dispatcher_default_def)
qed

lemma demo_account_reach:
  "reach account_init (account_step demo_uring)
     \<lparr>ac_scheduler = on_world (submit_tracked_task 0 5) demo_scheduler, outstanding = 1\<rparr>"
proof -
  let ?a = "\<lparr>ac_scheduler = new_scheduler demo_start_world 0, outstanding = 0\<rparr>"
  have "scheduler_init demo_uring 2 (new_scheduler demo_start_world 0) = (demo_scheduler, Ret ())"
  proof -
    have u: "IoUring_new demo_uring 256 = Ret ([], [])" by (simp add: IoUring_new_def demo_uring_def)
    show ?thesis
      using make_contexts_eq [OF u, of 2 "new_scheduler demo_start_world 0"]
      by (simp add: demo_scheduler_def scheduler_init_def new_scheduler_def)
  qed
  then have 1: "account_step demo_uring ?a (?a\<lparr>ac_scheduler := demo_scheduler, outstanding := 0\<rparr>)"
    using acc_init [of demo_uring 2 ?a demo_scheduler "Ret ()"] by (simp add: new_scheduler_def)
  have 0: "reach account_init (account_step demo_uring) ?a"
    by (rule reach_init) (auto simp: account_init_def)
  show ?thesis
    using reach_step [OF reach_step [OF 0 1] acc_tracked [of 5 _ demo_uring 0]] by simp
qed


end
