(* ===== verification/Wakeup_Races.thy ===== *)
theory Wakeup_Races
  imports Scheduler_Machine
begin

text \<open>
  The two waits of the runtime on \<open>std::condition_variable\<close>, \<open>Scheduler::loop\<close> and
  \<open>Engine::wait_for_work_or_stop\<close>, at the grain at which other threads see them:
  \<open>cv.wait(lock, pred)\<close> tests the predicate and then blocks, and keeps the mutex in between.
  A notification sent with the mutex held cannot fall between the two; \<open>on_task_completed\<close>
  and \<open>notify_stop\<close> do not take it. Spurious wakeups, which the standard allows and does not
  promise, are left out.
\<close>

subsection \<open>The last completion\<close>

text \<open>
  One thread in \<open>loop\<close> and the workers, from any state of a scheduler; \<open>lr_left\<close> counts the
  tasks that have not completed. Running tasks may submit others; after the wait \<open>loop\<close>
  shuts the scheduler down.
\<close>

datatype loop_pc = Loop_testing | Loop_tested | Loop_blocked | Loop_through | Loop_returned

record ('u, 'v, 's) loop_race =
  lr_scheduler :: "('u, 'v, 's) scheduler"
  lr_left :: nat
  lr_pc :: loop_pc

inductive loop_race_step :: "('u, 'v, 's) loop_race \<Rightarrow> ('u, 'v, 's) loop_race \<Rightarrow> bool" where
  lr_test: "lr_pc s = Loop_testing \<Longrightarrow>
    loop_race_step s (s\<lparr>lr_pc := if loop_pred (lr_scheduler s) then Loop_through else Loop_tested\<rparr>)"
| lr_block: "lr_pc s = Loop_tested \<Longrightarrow>
    loop_race_step s (s\<lparr>lr_scheduler := (lr_scheduler s)\<lparr>sc_loop_blocked := True\<rparr>, lr_pc := Loop_blocked\<rparr>)"
| lr_wake: "lr_pc s = Loop_blocked \<Longrightarrow> \<not> sc_loop_blocked (lr_scheduler s) \<Longrightarrow>
    loop_race_step s (s\<lparr>lr_pc := Loop_testing\<rparr>)"
| lr_return: "lr_pc s = Loop_through \<Longrightarrow>
    loop_race_step s (s\<lparr>lr_scheduler := loop_end (lr_scheduler s), lr_pc := Loop_returned\<rparr>)"
| lr_tracked: "0 < lr_left s \<Longrightarrow> h \<noteq> null_handle \<Longrightarrow>
    loop_race_step s (s\<lparr>lr_scheduler := on_world (submit_tracked_task c h) (lr_scheduler s), lr_left := lr_left s + 1\<rparr>)"
| lr_complete: "0 < lr_left s \<Longrightarrow>
    loop_race_step s (s\<lparr>lr_scheduler := on_task_completed (lr_scheduler s), lr_left := lr_left s - 1\<rparr>)"

definition loop_race_init :: "'u liburing \<Rightarrow> ('u, 'v, 's) loop_race \<Rightarrow> bool" where
  "loop_race_init L s \<longleftrightarrow>
     lr_pc s = Loop_testing \<and> sc_initialized (lr_scheduler s) \<and>
     reach account_init (account_step L) \<lparr>ac_scheduler = lr_scheduler s, outstanding = lr_left s\<rparr>"

inductive_cases loop_race_stepE: "loop_race_step s t"

text \<open>
  (C34) \<open>loop\<close> can sleep for ever: there is an execution, from a properly initialised
  scheduler with one task, after which the task has completed and the predicate of \<open>loop\<close>
  holds, but the thread in \<open>loop\<close> is blocked and neither it nor a worker can take a step.
  The completion fell between the test of the predicate and the blocking.
\<close>

theorem loop_can_miss_the_last_completion:
  "\<exists>s :: (uint64 list \<times> uint64 list, unit, unit) loop_race.
    reach (loop_race_init demo_uring) loop_race_step s \<and> lr_left s = 0 \<and> lr_pc s = Loop_blocked \<and>
    loop_pred (lr_scheduler s) \<and> (\<forall>t. \<not> loop_race_step s t)"
proof -
  let ?d = "on_world (submit_tracked_task 0 5) demo_scheduler"
  let ?s = "\<lparr>lr_scheduler = ?d, lr_left = 1, lr_pc = Loop_testing\<rparr>"
  let ?t = "?s\<lparr>lr_pc := Loop_tested\<rparr>"
  let ?u = "?t\<lparr>lr_scheduler := on_task_completed ?d, lr_left := 0\<rparr>"
  let ?v = "?u\<lparr>lr_scheduler := (on_task_completed ?d)\<lparr>sc_loop_blocked := True\<rparr>, lr_pc := Loop_blocked\<rparr>"
  have d: "sc_initialized ?d" "\<not> loop_pred ?d" "loop_pred ((on_task_completed ?d)\<lparr>sc_loop_blocked := True\<rparr>)"
    by (simp_all add: demo_scheduler_eq on_world_def demo_start_world_def loop_pred_def submit_tracked_task_def
        on_engine_def on_task_completed_def)
  have "reach (loop_race_init demo_uring) loop_race_step ?s"
    by (rule reach_init) (use d(1) demo_account_reach in \<open>simp add: loop_race_init_def\<close>)
  moreover have "loop_race_step ?s ?t" using lr_test [of ?s] d(2) by simp
  moreover have "loop_race_step ?t ?u" using lr_complete [of ?t] by simp
  moreover have "loop_race_step ?u ?v" using lr_block [of ?u] by simp
  ultimately have "reach (loop_race_init demo_uring) loop_race_step ?v" by (blast intro: reach_step)
  moreover have "\<not> loop_race_step ?v t" for t by (auto elim: loop_race_stepE)
  ultimately show ?thesis using d(3) by (intro exI [of _ ?v]) simp
qed

subsection \<open>The stop of a worker\<close>

text \<open>
  The workers of a scheduler and one thread in \<open>stop\<close>. A worker that found no work and may
  not leave tests the predicate of its wait and then blocks. The stopping thread takes the
  contexts out under the state mutex, notifies each, and joins each; a join waits until the
  worker has left its loop.
\<close>

datatype worker_pc = Worker_running | Worker_tested | Worker_blocked | Worker_left

datatype stop_pc = Stop_begin | Stop_notifying "nat list" "nat list" | Stop_joining "nat list"

record ('u, 'v, 's) stop_race =
  st_scheduler :: "('u, 'v, 's) scheduler"
  st_worker :: "nat \<Rightarrow> worker_pc"
  st_pc :: stop_pc

definition work_or_poll ::
  "'u liburing \<Rightarrow> ('u, 'v, 's) resumption \<Rightarrow> (('u, 'v, 's) world \<Rightarrow> ('u, 'v, 's) world) \<Rightarrow> nat \<Rightarrow>
   ('u, 'v, 's) world \<Rightarrow> (('u, 'v, 's) world \<times> bool res) option" where
  "work_or_poll L resume completed c w =
     (case process_work_once resume completed c w of
        None \<Rightarrow> None
      | Some p \<Rightarrow> Some (bind_res p (\<lambda>w1 worked. if worked then (w1, Ret True) else poll_io_once L c w1)))"

inductive stop_race_step ::
  "'u liburing \<Rightarrow> ('u, 'v, 's) resumption \<Rightarrow> (('u, 'v, 's) world \<Rightarrow> ('u, 'v, 's) world) \<Rightarrow>
   ('u, 'v, 's) stop_race \<Rightarrow> ('u, 'v, 's) stop_race \<Rightarrow> bool" for L resume completed where
  st_work: "c \<in> sc_running (st_scheduler s) \<Longrightarrow> st_worker s c = Worker_running \<Longrightarrow>
    work_or_poll L resume completed c (sc_world (st_scheduler s)) = Some (w, Ret True) \<Longrightarrow>
    stop_race_step L resume completed s (s\<lparr>st_scheduler := (st_scheduler s)\<lparr>sc_world := w\<rparr>\<rparr>)"
| st_idle: "c \<in> sc_running (st_scheduler s) \<Longrightarrow> st_worker s c = Worker_running \<Longrightarrow>
    work_or_poll L resume completed c (sc_world (st_scheduler s)) = Some (w, Ret False) \<Longrightarrow>
    stop = (c \<in> sc_stopping (st_scheduler s)) \<Longrightarrow>
    stop_race_step L resume completed s (s\<lparr>st_scheduler := (st_scheduler s)\<lparr>sc_world := w\<rparr>,
      st_worker := (st_worker s)(c :=
        if can_stop stop (engines w c) then Worker_left
        else if wait_pred stop (engines w c) then Worker_running else Worker_tested)\<rparr>)"
| st_block: "st_worker s c = Worker_tested \<Longrightarrow>
    stop_race_step L resume completed s (s\<lparr>st_scheduler := on_world (on_engine c (\<lambda>e. e\<lparr>cv_waiting := True\<rparr>)) (st_scheduler s),
      st_worker := (st_worker s)(c := Worker_blocked)\<rparr>)"
| st_wake: "st_worker s c = Worker_blocked \<Longrightarrow> \<not> cv_waiting (engines (sc_world (st_scheduler s)) c) \<Longrightarrow>
    stop_race_step L resume completed s (s\<lparr>st_worker := (st_worker s)(c := Worker_running)\<rparr>)"
| st_begin: "st_pc s = Stop_begin \<Longrightarrow> sc_initialized (st_scheduler s) \<Longrightarrow>
    stop_race_step L resume completed s (s\<lparr>st_scheduler := (st_scheduler s)\<lparr>sc_accepting := False, sc_stop_requested := True,
        sc_loop_blocked := False, sc_contexts := [], sc_initialized := False\<rparr>,
      st_pc := Stop_notifying (sc_contexts (st_scheduler s)) (sc_contexts (st_scheduler s))\<rparr>)"
| st_notify: "st_pc s = Stop_notifying (c # cs) all \<Longrightarrow>
    stop_race_step L resume completed s (s\<lparr>st_scheduler := context_notify_stop c (st_scheduler s), st_pc := Stop_notifying cs all\<rparr>)"
| st_notified: "st_pc s = Stop_notifying [] all \<Longrightarrow> stop_race_step L resume completed s (s\<lparr>st_pc := Stop_joining all\<rparr>)"
| st_join: "st_pc s = Stop_joining (c # cs) \<Longrightarrow> st_worker s c = Worker_left \<Longrightarrow>
    stop_race_step L resume completed s (s\<lparr>st_scheduler := context_join c (st_scheduler s), st_pc := Stop_joining cs\<rparr>)"

definition stop_race_init :: "'u liburing \<Rightarrow> ('u, 'v, 's) stop_race \<Rightarrow> bool" where
  "stop_race_init L s \<longleftrightarrow>
     (\<exists>n w k. scheduler_init L n (new_scheduler w k) = (st_scheduler s, Ret ())) \<and>
     st_worker s = (\<lambda>_. Worker_running) \<and> st_pc s = Stop_begin"

inductive_cases stop_race_stepE: "stop_race_step L resume completed s t"

text \<open>One idle worker, and the states of the execution in which its stop is missed.\<close>

definition lone :: "bool \<Rightarrow> bool \<Rightarrow> bool \<Rightarrow> worker_pc \<Rightarrow> stop_pc \<Rightarrow>
    (uint64 list \<times> uint64 list, unit, unit) stop_race" where
  "lone stopped token asleep wp sp =
     \<lparr>st_scheduler = \<lparr>sc_world = demo_start_world\<lparr>engines := (\<lambda>_. new_engine ([], []))(0 := (new_engine ([], []))\<lparr>cv_waiting := asleep\<rparr>)\<rparr>,
        sc_contexts = (if stopped then [] else [0]), sc_dispatcher = \<lparr>context_count = 1, next_ticket = 0\<rparr>,
        sc_stop_requested = stopped, sc_accepting = \<not> stopped, sc_initialized = \<not> stopped, sc_fresh = 1,
        sc_running = {0}, sc_stopping = (if token then {0} else {}), sc_loop_blocked = False\<rparr>,
      st_worker = (\<lambda>_. Worker_running)(0 := wp), st_pc = sp\<rparr>"

lemma quiet_poll:
  assumes "io_waiting_queue e = []" "io_read_submit_queue e = []" "io_write_submit_queue e = []"
    "pending_submit_count e = 0" "uring e = ([], [])"
  shows "poll_io demo_uring kIoPollBatchSize (e, m) = ((e, m), Ret 0)"
  using assms
  by (simp add: poll_io_def kIoPollBatchSize_def poll_waiting.simps poll_reads.simps poll_writes.simps
      poll_submit.simps poll_complete.simps try_wait_one_def demo_uring_def EAGAIN_def)

lemma lone_idle:
  "work_or_poll demo_uring resume completed 0 (sc_world (st_scheduler (lone b k False wp sp))) =
    Some (sc_world (st_scheduler (lone b k False wp sp)), Ret False)"
  by (simp add: work_or_poll_def process_work_once_def pop_batch_def poll_io_once_def quiet_poll lone_def
      new_engine_def on_engine_def demo_start_world_def fun_eq_iff)

lemma stop_race_eq:
  "stop_race_step L resume completed s t \<Longrightarrow> t = t' \<Longrightarrow> stop_race_step L resume completed s t'"
  by simp

lemma lone_execution:
  fixes resume :: "(uint64 list \<times> uint64 list, unit, unit) resumption"
  shows "steps (stop_race_step demo_uring resume completed) (lone False False False Worker_running Stop_begin)
    (lone True True True Worker_blocked (Stop_joining [0]))"
proof -
  let ?R = "stop_race_step demo_uring resume completed"
  have 1: "?R (lone False False False Worker_running Stop_begin) (lone False False False Worker_tested Stop_begin)"
    by (rule stop_race_eq, rule st_idle [OF _ _ lone_idle refl])
      (auto simp: lone_def can_stop_def wait_pred_def new_engine_def)
  have 2: "?R (lone False False False Worker_tested Stop_begin)
      (lone True False False Worker_tested (Stop_notifying [0] [0]))"
    by (rule stop_race_eq, rule st_begin) (auto simp: lone_def)
  have 3: "?R (lone True False False Worker_tested (Stop_notifying [0] [0]))
      (lone True True False Worker_tested (Stop_notifying [] [0]))"
    by (rule stop_race_eq, rule st_notify [where c = 0 and cs = "[]" and all = "[0]"])
      (auto simp: lone_def context_notify_stop_def on_world_def on_engine_def engine_notify_all_def notify_cv_def)
  have 4: "?R (lone True True False Worker_tested (Stop_notifying [] [0]))
      (lone True True False Worker_tested (Stop_joining [0]))"
    by (rule stop_race_eq, rule st_notified [where all = "[0]"]) (auto simp: lone_def)
  have 5: "?R (lone True True False Worker_tested (Stop_joining [0]))
      (lone True True True Worker_blocked (Stop_joining [0]))"
    by (rule stop_race_eq, rule st_block [where c = 0]) (auto simp: lone_def on_world_def on_engine_def)
  show ?thesis
    by (rule steps_more [where step = ?R, OF 1], rule steps_more [where step = ?R, OF 2], rule steps_more [where step = ?R, OF 3], rule steps_more [where step = ?R, OF 4],
        rule steps_more [where step = ?R, OF 5], rule steps_refl)
qed

lemma lone_init: "stop_race_init demo_uring (lone False False False Worker_running Stop_begin)"
proof -
  have u: "IoUring_new demo_uring 256 = Ret ([], [])" by (simp add: IoUring_new_def demo_uring_def)
  have "scheduler_init demo_uring 1 (new_scheduler demo_start_world 0) =
      (st_scheduler (lone False False False Worker_running Stop_begin), Ret ())"
    using make_contexts_eq [OF u, of 1 "new_scheduler demo_start_world 0"]
    by (simp add: scheduler_init_def new_scheduler_def on_world_def lone_def demo_start_world_def
        dispatcher_init_def dispatcher_default_def fresh_engines_def new_engine_def fun_eq_iff)
  then show ?thesis unfolding stop_race_init_def by (auto simp: lone_def fun_eq_iff)
qed

text \<open>
  (C35) \<open>stop\<close> can wait for ever: there is an execution, from a freshly initialised scheduler
  whose only worker is idle, whatever tasks do, after which the stop token is set, the
  worker's engine has nothing to do and \<open>can_stop\<close> would let it leave, but the worker is
  blocked in its wait, the stopping thread waits to join it, and no thread can take a step
  of its own. The request fell between the test of the predicate and the blocking.
\<close>

theorem worker_can_miss_its_stop:
  fixes resume :: "(uint64 list \<times> uint64 list, unit, unit) resumption"
  shows "\<exists>s. reach (stop_race_init demo_uring) (stop_race_step demo_uring resume completed) s \<and>
    st_worker s 0 = Worker_blocked \<and> st_pc s = Stop_joining [0] \<and> 0 \<in> sc_stopping (st_scheduler s) \<and>
    can_stop True (engines (sc_world (st_scheduler s)) 0) \<and> sc_running (st_scheduler s) = {0} \<and>
    (\<forall>t. \<not> stop_race_step demo_uring resume completed s t)"
proof -
  let ?s = "lone True True True Worker_blocked (Stop_joining [0])"
  have "reach (stop_race_init demo_uring) (stop_race_step demo_uring resume completed) ?s"
    by (intro reach_steps [OF lone_execution] reach_init lone_init)
  moreover have "\<not> stop_race_step demo_uring resume completed ?s t" for t
    by (auto elim!: stop_race_stepE simp: lone_def split: if_splits)
  ultimately show ?thesis
    by (intro exI [of _ ?s]) (simp add: lone_def can_stop_def new_engine_def)
qed

end
