(* ===== verification/Submit_Race.thy ===== *)
theory Submit_Race
  imports Wakeup_Races
begin

text \<open>
  \<open>Scheduler::submit_new\<close> against \<open>Scheduler::stop\<close>. \<open>submit_new\<close> chooses the context under the
  state mutex and uses it after the mutex is released; \<open>shutdown_contexts\<close> destroys the
  contexts when its local vector goes out of scope.
\<close>

subsection \<open>The two halves of a submission\<close>

text \<open>Under the mutex: the chosen context, or \<open>None\<close> when the task was refused and destroyed.\<close>

definition submit_choose ::
  "handle \<Rightarrow> ('u, 'v, 's) scheduler \<Rightarrow> ('u, 'v, 's) scheduler \<times> nat option res" where
  "submit_choose h s =
     (if \<not> sc_initialized s \<or> \<not> sc_accepting s then
        (let (w, r) = world_destroy h (sc_world s) in bind_res (s\<lparr>sc_world := w\<rparr>, r) (\<lambda>s1 _. (s1, Ret None)))
      else
        let s1 = on_world (\<lambda>w. w\<lparr>pending_tasks := pending_tasks w + 1\<rparr>) s;
            (d, i) = dispatch (sc_dispatcher s1);
            s2 = s1\<lparr>sc_dispatcher := d\<rparr> in
        if unat i < length (sc_contexts s2) then (s2, Ret (Some (sc_contexts s2 ! unat i))) else (s2, Undef))"

text \<open>Without interference the halves are the whole.\<close>

lemma submit_new_split:
  assumes "h \<noteq> null_handle"
  shows "submit_new h s = bind_res (submit_choose h s)
    (\<lambda>s1 target. (case target of None \<Rightarrow> s1 | Some c \<Rightarrow> on_world (context_submit_task c h) s1, Ret ()))"
  using assms
  by (auto simp: submit_new_def submit_choose_def dispatch_def Let_def world_destroy_def handle_destroy_def
      split: prod.splits option.splits)

subsection \<open>Machine\<close>

datatype submit_pc = Sub_begin | Sub_chosen nat | Sub_done | Sub_undefined

record ('u, 'v, 's) submit_race =
  sb_runtime :: "('u, 'v, 's) stop_race"
  sb_pc :: submit_pc
  sb_destroyed :: "nat set"

inductive submit_race_step ::
  "'u liburing \<Rightarrow> ('u, 'v, 's) resumption \<Rightarrow> (('u, 'v, 's) world \<Rightarrow> ('u, 'v, 's) world) \<Rightarrow> handle \<Rightarrow>
   ('u, 'v, 's) submit_race \<Rightarrow> ('u, 'v, 's) submit_race \<Rightarrow> bool" for L resume completed h where
  sb_choose: "sb_pc s = Sub_begin \<Longrightarrow> submit_choose h (st_scheduler (sb_runtime s)) = (s1, Ret target) \<Longrightarrow>
    submit_race_step L resume completed h s (s\<lparr>sb_runtime := (sb_runtime s)\<lparr>st_scheduler := s1\<rparr>,
      sb_pc := (case target of None \<Rightarrow> Sub_done | Some c \<Rightarrow> Sub_chosen c)\<rparr>)"
| sb_submit: "sb_pc s = Sub_chosen c \<Longrightarrow> c \<notin> sb_destroyed s \<Longrightarrow>
    submit_race_step L resume completed h s (s\<lparr>sb_runtime := (sb_runtime s)\<lparr>st_scheduler :=
      on_world (context_submit_task c h) (st_scheduler (sb_runtime s))\<rparr>, sb_pc := Sub_done\<rparr>)"
| sb_use: "sb_pc s = Sub_chosen c \<Longrightarrow> c \<in> sb_destroyed s \<Longrightarrow>
    submit_race_step L resume completed h s (s\<lparr>sb_pc := Sub_undefined\<rparr>)"
| sb_other: "stop_race_step L resume completed (sb_runtime s) r \<Longrightarrow>
    submit_race_step L resume completed h s (s\<lparr>sb_runtime := r\<rparr>)"
| sb_destroy: "st_pc (sb_runtime s) = Stop_joining [] \<Longrightarrow>
    submit_race_step L resume completed h s (s\<lparr>sb_destroyed := sb_destroyed s \<union>
      (sc_stopping (st_scheduler (sb_runtime s)) - sc_running (st_scheduler (sb_runtime s)))\<rparr>)"

definition submit_race_init :: "'u liburing \<Rightarrow> ('u, 'v, 's) submit_race \<Rightarrow> bool" where
  "submit_race_init L s \<longleftrightarrow> stop_race_init L (sb_runtime s) \<and> sb_pc s = Sub_begin \<and> sb_destroyed s = {}"

subsection \<open>An execution\<close>

text \<open>One worker; the submission has chosen its context, and the scheduler is stopped meanwhile.\<close>

definition chosen :: "bool \<Rightarrow> bool \<Rightarrow> worker_pc \<Rightarrow> stop_pc \<Rightarrow> nat set \<Rightarrow>
    (uint64 list \<times> uint64 list, unit, unit) stop_race" where
  "chosen stopped token wp sp running =
     (let s = lone stopped token False wp sp in
      s\<lparr>st_scheduler := (st_scheduler s)\<lparr>sc_world := (sc_world (st_scheduler s))\<lparr>pending_tasks := 1\<rparr>,
         sc_dispatcher := \<lparr>context_count = 1, next_ticket = 1\<rparr>, sc_running := running\<rparr>\<rparr>)"

lemma chosen_idle:
  "work_or_poll demo_uring resume completed 0 (sc_world (st_scheduler (chosen b k wp sp R))) =
    Some (sc_world (st_scheduler (chosen b k wp sp R)), Ret False)"
  by (simp add: work_or_poll_def process_work_once_def pop_batch_def poll_io_once_def quiet_poll chosen_def lone_def
      new_engine_def on_engine_def demo_start_world_def fun_eq_iff)

lemma chosen_execution:
  fixes resume :: "(uint64 list \<times> uint64 list, unit, unit) resumption"
  shows "steps (stop_race_step demo_uring resume completed) (chosen False False Worker_running Stop_begin {0})
    (chosen True True Worker_left (Stop_joining []) {})"
proof -
  let ?R = "stop_race_step demo_uring resume completed"
  have 1: "?R (chosen False False Worker_running Stop_begin {0})
      (chosen True False Worker_running (Stop_notifying [0] [0]) {0})"
    by (rule stop_race_eq, rule st_begin) (auto simp: chosen_def lone_def)
  have 2: "?R (chosen True False Worker_running (Stop_notifying [0] [0]) {0})
      (chosen True True Worker_running (Stop_notifying [] [0]) {0})"
    by (rule stop_race_eq, rule st_notify [where c = 0 and cs = "[]" and all = "[0]"])
      (auto simp: chosen_def lone_def context_notify_stop_def on_world_def on_engine_def engine_notify_all_def notify_cv_def)
  have 3: "?R (chosen True True Worker_running (Stop_notifying [] [0]) {0})
      (chosen True True Worker_running (Stop_joining [0]) {0})"
    by (rule stop_race_eq, rule st_notified [where all = "[0]"]) (auto simp: chosen_def lone_def)
  have 4: "?R (chosen True True Worker_running (Stop_joining [0]) {0})
      (chosen True True Worker_left (Stop_joining [0]) {0})"
    by (rule stop_race_eq, rule st_idle [OF _ _ chosen_idle refl])
      (auto simp: chosen_def lone_def can_stop_def new_engine_def)
  have 5: "?R (chosen True True Worker_left (Stop_joining [0]) {0})
      (chosen True True Worker_left (Stop_joining []) {})"
    by (rule stop_race_eq, rule st_join [where c = 0 and cs = "[]"]) (auto simp: chosen_def lone_def context_join_def)
  show ?thesis
    by (rule steps_more [where step = ?R, OF 1], rule steps_more [where step = ?R, OF 2], rule steps_more [where step = ?R, OF 3],
        rule steps_more [where step = ?R, OF 4], rule steps_more [where step = ?R, OF 5], rule steps_refl)
qed

lemma other_steps:
  assumes "steps (stop_race_step L resume completed) r r'"
  shows "sb_runtime s = r \<Longrightarrow> steps (submit_race_step L resume completed h) s (s\<lparr>sb_runtime := r'\<rparr>)"
  using assms
proof (induction arbitrary: s rule: steps.induct)
  case (steps_refl r)
  then show ?case by (cases s) (auto intro: steps.steps_refl)
next
  case (steps_more r t u)
  have "submit_race_step L resume completed h s (s\<lparr>sb_runtime := t\<rparr>)"
    using steps_more.hyps(1) steps_more.prems by (intro sb_other) simp
  moreover have "steps (submit_race_step L resume completed h) (s\<lparr>sb_runtime := t\<rparr>) (s\<lparr>sb_runtime := u\<rparr>)"
    using steps_more.IH [of "s\<lparr>sb_runtime := t\<rparr>"] by simp
  ultimately show ?case by (rule steps.steps_more [where step = "submit_race_step L resume completed h"])
qed

text \<open>
  (C36) A submission can use a destroyed context: there is an execution, from a freshly
  initialised scheduler, in which a task is submitted while another thread stops the
  scheduler; the submission has counted the task and chosen its context, the worker leaves,
  the contexts are destroyed, and then the submission calls the destroyed context. The task
  stays counted as pending.
\<close>

theorem submission_can_use_a_destroyed_context:
  fixes resume :: "(uint64 list \<times> uint64 list, unit, unit) resumption"
  shows "\<exists>s. reach (submit_race_init demo_uring) (submit_race_step demo_uring resume completed 5) s \<and>
    sb_pc s = Sub_undefined \<and> 0 \<in> sb_destroyed s \<and> pending_tasks (sc_world (st_scheduler (sb_runtime s))) = 1"
proof -
  let ?R = "submit_race_step demo_uring resume completed 5" and ?I = "submit_race_init demo_uring"
  let ?a = "\<lparr>sb_runtime = lone False False False Worker_running Stop_begin, sb_pc = Sub_begin, sb_destroyed = {}\<rparr>"
  let ?b = "\<lparr>sb_runtime = chosen False False Worker_running Stop_begin {0}, sb_pc = Sub_chosen 0, sb_destroyed = {}\<rparr>"
  let ?c = "?b\<lparr>sb_runtime := chosen True True Worker_left (Stop_joining []) {}\<rparr>"
  let ?d = "?c\<lparr>sb_destroyed := {0}\<rparr>"
  let ?e = "?d\<lparr>sb_pc := Sub_undefined\<rparr>"
  have 0: "reach ?I ?R ?a" by (rule reach_init) (simp add: submit_race_init_def lone_init)
  have choice: "submit_choose 5 (st_scheduler (lone False False False Worker_running Stop_begin)) =
      (st_scheduler (chosen False False Worker_running Stop_begin {0}), Ret (Some 0))"
    by (simp add: submit_choose_def lone_def chosen_def on_world_def dispatch_def demo_start_world_def Let_def)
  have 1: "?R ?a ?b"
    using sb_choose [where s = ?a and h = 5 and target = "Some 0", of
        "st_scheduler (chosen False False Worker_running Stop_begin {0})" demo_uring resume completed]
    by (simp add: choice) (simp add: chosen_def Let_def)
  have 2: "steps ?R ?b ?c" by (rule other_steps [OF chosen_execution]) simp
  have 3: "?R ?c ?d" using sb_destroy [of ?c] by (simp add: chosen_def lone_def Let_def)
  have 4: "?R ?d ?e" using sb_use [of ?d 0] by simp
  have "reach ?I ?R ?c" by (rule reach_steps [OF 2 reach_step [where step = ?R, OF 0 1]])
  then have "reach ?I ?R ?e" by (rule reach_step [where step = ?R, OF reach_step [where step = ?R, OF _ 3] 4])
  then show ?thesis by (intro exI [of _ ?e]) (simp add: chosen_def lone_def Let_def)
qed

end
