(* ===== verification/Context_Props.thy ===== *)
theory Context_Props
  imports Context
begin

text \<open>
  Properties of the worker loop: a batch resumes each of its tasks once, in order, and
  destroys and reports exactly those that finished; and what happens to a coroutine that
  was resumed in the place of the task it belongs to.
\<close>

subsection \<open>A batch of tasks\<close>

text \<open>
  What the worker relies on: resuming a suspended coroutine comes back, destroys no frame,
  brings no other coroutine to its end and leaves the worker's running-task counter as it
  found it; the callback touches no frame and no engine. \<open>tally\<close> is anything that counts the
  calls of the callback.
\<close>

definition suspended :: "'v heap \<Rightarrow> handle \<Rightarrow> bool" where
  "suspended H h \<longleftrightarrow> (case H h of None \<Rightarrow> False | Some f \<Rightarrow> \<not> fr_done f)"

lemma suspended_live: "suspended H h \<Longrightarrow> H h \<noteq> None"
  by (auto simp: suspended_def split: option.splits)

definition keeps_others :: "handle \<Rightarrow> 'v heap \<Rightarrow> 'v heap \<Rightarrow> bool" where
  "keeps_others h H H1 \<longleftrightarrow>
     (\<forall>k. k \<noteq> h \<longrightarrow> H k \<noteq> None \<longrightarrow> H1 k \<noteq> None \<and> (suspended H k \<longrightarrow> suspended H1 k))"

definition tame ::
  "('u, 'v, 's) resumption \<Rightarrow> (('u, 'v, 's) world \<Rightarrow> ('u, 'v, 's) world) \<Rightarrow> nat \<Rightarrow> (('u, 'v, 's) world \<Rightarrow> nat) \<Rightarrow> bool" where
  "tame resume completed c tally \<longleftrightarrow>
     (\<forall>h w. suspended (frames w) h \<longrightarrow>
        (\<exists>w1. resume h w = Some (w1, Ret ()) \<and> frames w1 h \<noteq> None \<and> keeps_others h (frames w) (frames w1) \<and>
          tally w1 = tally w \<and> inflight_tasks (engines w1 c) = inflight_tasks (engines w c))) \<and>
     (\<forall>w. frames (completed w) = frames w \<and> engines (completed w) = engines w \<and> tally (completed w) = Suc (tally w)) \<and>
     (\<forall>w f. tally (on_engine c f w) = tally w) \<and>
     (\<forall>w H. tally (w\<lparr>frames := H\<rparr>) = tally w)"

lemma on_engine_sel [simp]:
  "frames (on_engine c f w) = frames w" "engines (on_engine c f w) c = f (engines w c)"
  "local_context_ptr (on_engine c f w) = local_context_ptr w"
  "pending_tasks (on_engine c f w) = pending_tasks w" "io_store (on_engine c f w) = io_store w"
  "obj (on_engine c f w) = obj w"
  by (simp_all add: on_engine_def)

text \<open>One handle: what resuming it did, then the frame is destroyed if it is done.\<close>

lemma process_handle_tame:
  assumes t: "tame resume completed c tally" and h: "suspended (frames w) h"
  shows "\<exists>w1 w2. resume h (on_engine c on_task_resume_begin w) = Some (w1, Ret ()) \<and>
    keeps_others h (frames w) (frames w1) \<and>
    process_handle resume completed c h w = Some (w2, Ret ()) \<and>
    frames w2 = (if suspended (frames w1) h then frames w1 else (frames w1)(h := None)) \<and>
    engines w2 = engines (on_engine c on_task_resume_end w1) \<and>
    ((\<forall>v. g (obj (completed v)) = g (obj v)) \<longrightarrow> g (obj w2) = g (obj w1)) \<and>
    inflight_tasks (engines w2 c) = inflight_tasks (engines w c) \<and>
    tally w2 = tally w + (if suspended (frames w1) h then 0 else 1)"
proof -
  let ?b = "on_engine c on_task_resume_begin w"
  have "suspended (frames ?b) h" using h by simp
  with t obtain w1 where r: "resume h ?b = Some (w1, Ret ())" "frames w1 h \<noteq> None"
    "keeps_others h (frames ?b) (frames w1)"
    "tally w1 = tally ?b" "inflight_tasks (engines w1 c) = inflight_tasks (engines ?b c)"
    unfolding tame_def by blast
  have b: "tally ?b = tally w" using t by (simp add: tame_def)
  let ?e = "on_engine c on_task_resume_end w1"
  have e: "inflight_tasks (engines ?e c) = inflight_tasks (engines w c)" "tally ?e = tally w"
    using r b t by (simp_all add: on_task_resume_end_def on_task_resume_begin_def tame_def)
  obtain f where f: "frames w1 h = Some f" using r(2) by auto
  have s: "suspended (frames w1) h \<longleftrightarrow> \<not> fr_done f" using f by (simp add: suspended_def)
  show ?thesis
  proof (cases "fr_done f")
    case True
    let ?d = "?e\<lparr>frames := (frames w1)(h := None)\<rparr>"
    have "process_handle resume completed c h w = Some (completed ?d, Ret ())"
      using r(1) f True
      by (simp add: process_handle_def handle_done_def world_destroy_def handle_destroy_def Let_def)
    moreover have "frames (completed ?d) = (frames w1)(h := None)" "engines (completed ?d) = engines ?e"
      "tally (completed ?d) = Suc (tally w)"
      using t e(2) by (simp_all add: tame_def)
    ultimately show ?thesis using r e(1) s True by (auto simp: Let_def)
  next
    case False
    have "process_handle resume completed c h w = Some (?e, Ret ())"
      using r(1) f False by (simp add: process_handle_def handle_done_def Let_def)
    with r e s False show ?thesis by auto
  qed
qed

lemma process_batch_tame:
  assumes "tame resume completed c tally" and "\<forall>h \<in> set hs. suspended (frames w) h" and "distinct hs"
  shows "\<exists>w1. process_batch resume completed c hs w = Some (w1, Ret ()) \<and>
    inflight_tasks (engines w1 c) = inflight_tasks (engines w c) \<and>
    dom (frames w) - set hs \<subseteq> dom (frames w1) \<and>
    tally w \<le> tally w1 \<and> tally w1 \<le> tally w + length hs"
  using assms(2,3)
proof (induction hs arbitrary: w)
  case (Cons h hs)
  have "suspended (frames w) h" using Cons.prems(1) by simp
  from process_handle_tame [OF assms(1) this] obtain v w1 where
    w1: "resume h (on_engine c on_task_resume_begin w) = Some (v, Ret ())"
      "keeps_others h (frames w) (frames v)" "process_handle resume completed c h w = Some (w1, Ret ())"
      "frames w1 = (if suspended (frames v) h then frames v else (frames v)(h := None))"
      "inflight_tasks (engines w1 c) = inflight_tasks (engines w c)"
      "tally w1 = tally w + (if suspended (frames v) h then 0 else 1)" by blast
  have k: "frames w1 k \<noteq> None" "suspended (frames w) k \<Longrightarrow> suspended (frames w1) k"
    if "k \<noteq> h" "frames w k \<noteq> None" for k
    using w1(2,4) that by (auto simp: keeps_others_def suspended_def)
  have "suspended (frames w1) k" if "k \<in> set hs" for k
  proof (rule k(2))
    show "k \<noteq> h" using that Cons.prems(2) by auto
    show "suspended (frames w) k" using that Cons.prems(1) by simp
    then show "frames w k \<noteq> None" by (rule suspended_live)
  qed
  with Cons.IH [of w1] Cons.prems(2) obtain w2 where
    w2: "process_batch resume completed c hs w1 = Some (w2, Ret ())"
      "inflight_tasks (engines w2 c) = inflight_tasks (engines w1 c)" "dom (frames w1) - set hs \<subseteq> dom (frames w2)"
      "tally w1 \<le> tally w2 \<and> tally w2 \<le> tally w1 + length hs" by auto
  have "dom (frames w) - set (h # hs) \<subseteq> dom (frames w2)" using k(1) w2(3) by fastforce
  with w1 w2 show ?case by (intro exI [of _ w2]) (simp split: if_splits)
qed simp

lemma process_work_once_batch:
  assumes "task_queue (engines w c) \<noteq> []"
  shows "process_work_once resume completed c w =
    map_option (\<lambda>p. bind_res p (\<lambda>w2 _. (w2, Ret True)))
      (process_batch resume completed c (take 64 (task_queue (engines w c)))
        (on_engine c (\<lambda>_. (engines w c)\<lparr>task_queue := drop 64 (task_queue (engines w c))\<rparr>) w))"
proof -
  let ?q = "task_queue (engines w c)"
  have k: "unat kProcessBatchSize = 64" "kProcessBatchSize \<noteq> 0" by (simp_all add: kProcessBatchSize_def)
  have "(of_nat (min (length ?q) 64) :: size_t) \<noteq> 0"
    using assms of_nat_eq_0_size_t [of "min (length ?q) 64"] by (simp add: min_def)
  then show ?thesis
    using pop_batch_eq [OF assms k(2), of "[]"] k(1) by (simp add: process_work_once_def Let_def)
qed

text \<open>
  A round of work on a queue of suspended tasks: all of them are resumed (the first 64
  if there are more) without undefined behaviour, as long as a task brings no other
  coroutine to its end; the running-task counter is back where it was, no frame but those of the resumed
  tasks is gone, and the completion callback ran at most once for each of them.
\<close>

lemma process_work_once_resumes_the_batch:
  assumes "tame resume completed c tally" and "task_queue (engines w c) \<noteq> []"
    and "\<forall>h \<in> set (take 64 (task_queue (engines w c))). suspended (frames w) h"
    and "distinct (take 64 (task_queue (engines w c)))"
  shows "\<exists>w1. process_work_once resume completed c w = Some (w1, Ret True) \<and>
    inflight_tasks (engines w1 c) = inflight_tasks (engines w c) \<and>
    dom (frames w) - set (take 64 (task_queue (engines w c))) \<subseteq> dom (frames w1) \<and>
    tally w \<le> tally w1 \<and> tally w1 \<le> tally w + length (take 64 (task_queue (engines w c)))"
proof -
  let ?q = "task_queue (engines w c)"
  let ?w = "on_engine c (\<lambda>_. (engines w c)\<lparr>task_queue := drop 64 ?q\<rparr>) w"
  note p = process_work_once_batch [OF assms(2), of resume completed]
  have t: "tally ?w = tally w" using assms(1) unfolding tame_def by blast
  from process_batch_tame [OF assms(1), of "take 64 ?q" ?w] assms(3,4) obtain w1 where
    "process_batch resume completed c (take 64 ?q) ?w = Some (w1, Ret ())"
    "inflight_tasks (engines w1 c) = inflight_tasks (engines w c)"
    "dom (frames w) - set (take 64 ?q) \<subseteq> dom (frames w1)"
    "tally w \<le> tally w1" "tally w1 \<le> tally w + length (take 64 ?q)"
    unfolding t by auto
  with p show ?thesis by simp
qed

text \<open>
  A task the worker resumes is destroyed and reported exactly when its coroutine is at
  its end afterwards: then its frame is gone and the callback has run once; otherwise the
  frame is still there and the callback has not run.
\<close>

lemma finished_task_is_destroyed_and_reported:
  assumes "tame resume completed c tally" and "suspended (frames w) h"
    and "resume h (on_engine c on_task_resume_begin w) = Some (w1, Ret ())"
  shows "\<exists>w2. process_handle resume completed c h w = Some (w2, Ret ()) \<and>
    frames w2 = (if suspended (frames w1) h then frames w1 else (frames w1)(h := None)) \<and>
    tally w2 = tally w + (if suspended (frames w1) h then 0 else 1)"
  using process_handle_tame [OF assms(1,2), where g = "\<lambda>s. s"] assms(3) by auto

subsection \<open>A coroutine inside a task\<close>

text \<open>
  A task at handle 1 that awaits the task at handle 2, which yields once before it returns,
  on the worker of context 0. The body of 1 owns the task object of 2, whose destructor runs
  when the body ends.
\<close>

definition nested_body :: "handle \<Rightarrow> (unit, unit, nat) world \<Rightarrow> (unit, unit, nat) world \<times> unit segment_end" where
  "nested_body h w =
     (if h = 1 then
        (if task_done \<lparr>handler = 2\<rparr> (frames w) = Ret True
         then (w\<lparr>frames := fst (task_destroy \<lparr>handler = 2\<rparr> (frames w))\<rparr>, Co_return ())
         else (w, Co_await \<lparr>handler = 2\<rparr>))
      else if obj w = 0 then (fst (yield_await_suspend 2 (w\<lparr>obj := 1\<rparr>)), Parked)
      else (w, Co_return ()))"

definition nested_resume :: "(unit, unit, nat) resumption" where
  "nested_resume = coroutine_resume frames (\<lambda>H w. w\<lparr>frames := H\<rparr>) nested_body"

definition nested_world :: "(unit, unit, nat) world" where
  "nested_world = \<lparr>engines = (\<lambda>_. (new_engine ())\<lparr>task_queue := [1]\<rparr>), local_context_ptr = Some 0,
     pending_tasks = 1, io_store = (\<lambda>_. None), frames = [1 \<mapsto> new_frame, 2 \<mapsto> new_frame], obj = 0\<rparr>"

definition nested_mid :: "(unit, unit, nat) world" where
  "nested_mid = nested_world\<lparr>engines := (\<lambda>_. (new_engine ())\<lparr>task_queue := [1]\<rparr>)(0 := (new_engine ())\<lparr>task_queue := [2]\<rparr>),
     frames := [1 \<mapsto> new_frame, 2 \<mapsto> new_frame\<lparr>fr_caller := 1\<rparr>], obj := 1\<rparr>"

lemmas nested_defs = process_work_once_def process_handle_def nested_resume_def nested_body_def nested_world_def
  resume_segment_def start_await_def task_await_ready_def handle_done_def task_await_suspend_def transfer_to_def
  finish_def mark_done_def final_await_suspend_def task_done_def task_destroy_def handle_destroy_def
  return_value_def yield_await_suspend_def try_local_context_def context_submit_task_def
  on_engine_def engine_submit_task_def notify_cv_def on_task_resume_begin_def on_task_resume_end_def
  new_frame_def new_engine_def pop_batch_def kProcessBatchSize_def pop_loop_eq nested_mid_def

text \<open>
  (C30) The worker takes the handle it resumed for the task: when a task awaits another that
  yields, the worker later resumes the inner coroutine, control comes back through the outer
  one, which destroys the inner frame and ends, and then the worker asks the destroyed frame
  whether it is done. The outer task, which did end, is neither destroyed nor reported.
\<close>

theorem nested_yield_uses_a_dead_frame:
  "\<exists>w1 w2. process_work_once nested_resume completed 0 nested_world = Some (w1, Ret True) \<and>
    process_work_once nested_resume completed 0 w1 = Some (w2, Undef) \<and>
    frames w2 2 = None \<and> map_option fr_done (frames w2 1) = Some True \<and> pending_tasks w2 = pending_tasks nested_world"
proof -
  have "process_work_once nested_resume completed 0 nested_world = Some (nested_mid, Ret True)"
    by (simp add: nested_defs coroutine_resume.simps)
  moreover have "\<exists>w2. process_work_once nested_resume completed 0 nested_mid = Some (w2, Undef) \<and>
    frames w2 2 = None \<and> map_option fr_done (frames w2 1) = Some True \<and> pending_tasks w2 = pending_tasks nested_world"
    by (simp add: nested_defs coroutine_resume.simps)
  ultimately show ?thesis by blast
qed

end
