(* ===== verification/Context_Run.thy ===== *)
theory Context_Run
  imports Context_Props
begin

text \<open>
  A worker that was asked to stop: it goes on until its tasks have nothing more to do, and
  then it leaves.
\<close>

subsection \<open>Tasks that come to an end\<close>

text \<open>
  \<open>left\<close> is an amount of work, of the tasks' own data and the frames, that every resumption
  decreases, \<open>parked\<close> the coroutines that wait for others (in a mutex, a channel, a group),
  \<open>fit\<close> what the tasks keep invariant. What a resumed coroutine queues on its worker is
  suspended and is itself, a coroutine that was parked, or a new one; it does no I/O. The
  callback does not matter to any of this.
\<close>

definition ending ::
  "('u, 'v, 's) resumption \<Rightarrow> (('u, 'v, 's) world \<Rightarrow> ('u, 'v, 's) world) \<Rightarrow> nat \<Rightarrow>
   ('s \<Rightarrow> 'v heap \<Rightarrow> bool) \<Rightarrow> ('s \<Rightarrow> 'v heap \<Rightarrow> nat) \<Rightarrow> ('s \<Rightarrow> handle set) \<Rightarrow> bool" where
  "ending resume completed c fit left parked \<longleftrightarrow>
     (\<forall>w. fit (obj (completed w)) = fit (obj w) \<and> left (obj (completed w)) = left (obj w) \<and>
        parked (obj (completed w)) = parked (obj w)) \<and>
     (\<forall>s H h. fit s H \<longrightarrow> \<not> suspended H h \<longrightarrow> fit s (H(h := None)) \<and> left s (H(h := None)) \<le> left s H) \<and>
     (\<forall>h w w1. fit (obj w) (frames w) \<longrightarrow> suspended (frames w) h \<longrightarrow> resume h w = Some (w1, Ret ()) \<longrightarrow>
        fit (obj w1) (frames w1) \<and> left (obj w1) (frames w1) < left (obj w) (frames w) \<and>
        (\<exists>qs b. engines w1 c = (engines w c)\<lparr>task_queue := task_queue (engines w c) @ qs, cv_waiting := b\<rparr> \<and>
           distinct qs \<and> (\<forall>k \<in> set qs. suspended (frames w1) k) \<and>
           set qs \<subseteq> {h} \<union> parked (obj w) \<union> {k. frames w k = None} \<and>
           parked (obj w1) \<subseteq> ({h} \<union> parked (obj w) \<union> {k. frames w k = None}) - set qs))"

text \<open>The handles the worker holds and those in its queue are all suspended, distinct and not parked.\<close>

definition sound ::
  "nat \<Rightarrow> ('s \<Rightarrow> 'v heap \<Rightarrow> bool) \<Rightarrow> ('s \<Rightarrow> handle set) \<Rightarrow> handle list \<Rightarrow> ('u, 'v, 's) world \<Rightarrow> bool" where
  "sound c fit parked hs w \<longleftrightarrow> fit (obj w) (frames w) \<and>
     (let q = hs @ task_queue (engines w c) in
      distinct q \<and> (\<forall>h \<in> set q. suspended (frames w) h) \<and> set q \<inter> parked (obj w) = {})"

text \<open>An engine without I/O, on a ring in which nothing is prepared or outstanding.\<close>

definition no_io :: "('u \<Rightarrow> uint64 list) \<Rightarrow> ('u \<Rightarrow> uint64 multiset) \<Rightarrow> 'u engine \<Rightarrow> bool" where
  "no_io sq outst e \<longleftrightarrow>
     io_waiting_queue e = [] \<and> io_read_submit_queue e = [] \<and> io_write_submit_queue e = [] \<and>
     pending_submit_count e = 0 \<and> inflight_io e = 0 \<and> inflight_tasks e = 0 \<and>
     sq (uring e) = [] \<and> outst (uring e) = {#}"

lemma no_io_queue [simp]:
  "no_io sq outst (e\<lparr>task_queue := q\<rparr>) = no_io sq outst e"
  "no_io sq outst (e\<lparr>task_queue := q, cv_waiting := b\<rparr>) = no_io sq outst e"
  by (simp_all add: no_io_def)

subsection \<open>Work\<close>

lemma sound_after:
  fixes w :: "('u, 'v, 's) world"
  assumes s: "sound c fit parked (h # hs) w" and k: "keeps_others h (frames w) H"
    and H: "frames w2 = (if suspended H h then H else H(h := None))" and p: "parked (obj w2) = P"
    and q: "distinct qs" "\<forall>k \<in> set qs. suspended H k"
      "set qs \<subseteq> {h} \<union> parked (obj w) \<union> {k. frames w k = None}"
      "P \<subseteq> ({h} \<union> parked (obj w) \<union> {k. frames w k = None}) - set qs"
    and e: "task_queue (engines w2 c) = task_queue (engines w c) @ qs" and f: "fit (obj w2) (frames w2)"
  shows "sound c fit parked hs w2"
proof -
  let ?q = "hs @ task_queue (engines w c)"
  have old: "distinct ?q" "h \<notin> set ?q" "\<forall>k \<in> set ?q. suspended (frames w) k" "set (h # ?q) \<inter> parked (obj w) = {}"
    using s by (auto simp: sound_def Let_def)
  have live: "frames w k \<noteq> None" if "k \<in> set ?q" for k using old(3) that suspended_live by blast
  have fresh: "k \<notin> {h} \<union> parked (obj w) \<union> {k. frames w k = None}" if "k \<in> set ?q" for k
    using that old(2,4) live [OF that] by auto
  have "set ?q \<inter> set qs = {}" using q(3) fresh by fastforce
  then have "distinct (?q @ qs)" using old(1) q(1) by (simp only: distinct_append)
  moreover have "suspended (frames w2) k" if "k \<in> set (?q @ qs)" for k
  proof (cases "k \<in> set qs")
    case True
    with q(2) show ?thesis unfolding H by (auto simp: suspended_def)
  next
    case False
    with that have m: "k \<in> set ?q" by simp
    with old(2) have "k \<noteq> h" by blast
    with k live [OF m] old(3) m show ?thesis unfolding H by (auto simp: keeps_others_def suspended_def)
  qed
  moreover have "set (?q @ qs) \<inter> parked (obj w2) = {}" using q(4) fresh unfolding p by fastforce
  ultimately show ?thesis using f by (simp add: sound_def Let_def e)
qed

lemma process_handle_ends:
  assumes t: "tame resume completed c tally" and d: "ending resume completed c fit left parked"
    and s: "sound c fit parked (h # hs) w"
  shows "\<exists>w1. process_handle resume completed c h w = Some (w1, Ret ()) \<and> sound c fit parked hs w1 \<and>
    left (obj w1) (frames w1) < left (obj w) (frames w) \<and>
    (\<exists>q b. engines w1 c = (engines w c)\<lparr>task_queue := q, cv_waiting := b\<rparr>)"
proof -
  let ?w = "on_engine c on_task_resume_begin w"
  let ?q = "task_queue (engines w c)"
  have h: "suspended (frames w) h" using s by (simp add: sound_def Let_def)
  from process_handle_tame [OF t h, where g = "\<lambda>s. (fit s, left s, parked s)"] obtain w1 w2 where
    w2: "resume h ?w = Some (w1, Ret ())" "keeps_others h (frames w) (frames w1)"
      "process_handle resume completed c h w = Some (w2, Ret ())"
      "frames w2 = (if suspended (frames w1) h then frames w1 else (frames w1)(h := None))"
      "engines w2 = engines (on_engine c on_task_resume_end w1)"
      "(\<forall>v. (fit (obj (completed v)), left (obj (completed v)), parked (obj (completed v))) =
          (fit (obj v), left (obj v), parked (obj v))) \<longrightarrow>
        (fit (obj w2), left (obj w2), parked (obj w2)) = (fit (obj w1), left (obj w1), parked (obj w1))" by blast
  have o: "fit (obj w2) = fit (obj w1)" "left (obj w2) = left (obj w1)" "parked (obj w2) = parked (obj w1)"
    using w2(6) d by (simp_all add: ending_def)
  have "suspended (frames ?w) h" using h by simp
  moreover have f: "fit (obj ?w) (frames ?w)" using s by (simp add: sound_def)
  ultimately have r: "fit (obj w1) (frames w1) \<and> left (obj w1) (frames w1) < left (obj ?w) (frames ?w) \<and>
      (\<exists>qs b. engines w1 c = (engines ?w c)\<lparr>task_queue := task_queue (engines ?w c) @ qs, cv_waiting := b\<rparr> \<and>
         distinct qs \<and> (\<forall>k \<in> set qs. suspended (frames w1) k) \<and>
         set qs \<subseteq> {h} \<union> parked (obj ?w) \<union> {k. frames ?w k = None} \<and>
         parked (obj w1) \<subseteq> ({h} \<union> parked (obj ?w) \<union> {k. frames ?w k = None}) - set qs)"
    using d w2(1) unfolding ending_def by blast
  have z: "fit (obj w2) (frames w2) \<and> left (obj w2) (frames w2) \<le> left (obj w1) (frames w1)"
    using r d unfolding o w2(4) ending_def by simp
  with r have l: "left (obj w2) (frames w2) < left (obj w) (frames w)" by simp
  from r obtain qs b where
    e: "engines w1 c = (engines ?w c)\<lparr>task_queue := task_queue (engines ?w c) @ qs, cv_waiting := b\<rparr>" and
    q: "distinct qs" "\<forall>k \<in> set qs. suspended (frames w1) k"
      "set qs \<subseteq> {h} \<union> parked (obj ?w) \<union> {k. frames ?w k = None}"
      "parked (obj w1) \<subseteq> ({h} \<union> parked (obj ?w) \<union> {k. frames ?w k = None}) - set qs" by blast
  have e2: "engines w2 c = (engines w c)\<lparr>task_queue := ?q @ qs, cv_waiting := b\<rparr>"
    unfolding w2(5) by (cases "engines w c") (simp add: e on_task_resume_begin_def on_task_resume_end_def)
  have "sound c fit parked hs w2"
    by (rule sound_after [OF s w2(2,4) o(3) q(1,2) _ _ _ z [THEN conjunct1]]) (use q(3,4) e2 in simp_all)
  with w2(3) l e2 show ?thesis by auto
qed

lemma process_batch_ends:
  assumes t: "tame resume completed c tally" and d: "ending resume completed c fit left parked"
  shows "sound c fit parked hs w \<Longrightarrow>
    \<exists>w1. process_batch resume completed c hs w = Some (w1, Ret ()) \<and> sound c fit parked [] w1 \<and>
      left (obj w1) (frames w1) + length hs \<le> left (obj w) (frames w) \<and>
      (\<exists>q b. engines w1 c = (engines w c)\<lparr>task_queue := q, cv_waiting := b\<rparr>)"
proof (induction hs arbitrary: w)
  case Nil
  then show ?case by (cases "engines w c") auto
next
  case (Cons h hs)
  from process_handle_ends [OF t d Cons.prems] obtain w1 q b where
    w1: "process_handle resume completed c h w = Some (w1, Ret ())" "sound c fit parked hs w1"
      "left (obj w1) (frames w1) < left (obj w) (frames w)" "engines w1 c = (engines w c)\<lparr>task_queue := q, cv_waiting := b\<rparr>" by blast
  from Cons.IH [OF w1(2)] obtain w2 q2 b2 where
    "process_batch resume completed c hs w1 = Some (w2, Ret ())" "sound c fit parked [] w2"
    "left (obj w2) (frames w2) + length hs \<le> left (obj w1) (frames w1)" "engines w2 c = (engines w1 c)\<lparr>task_queue := q2, cv_waiting := b2\<rparr>" by blast
  with w1 show ?case by auto
qed

lemma process_work_once_ends:
  assumes t: "tame resume completed c tally" and d: "ending resume completed c fit left parked"
    and s: "sound c fit parked [] w" and ne: "task_queue (engines w c) \<noteq> []"
  shows "\<exists>w1. process_work_once resume completed c w = Some (w1, Ret True) \<and> sound c fit parked [] w1 \<and>
      left (obj w1) (frames w1) < left (obj w) (frames w) \<and>
      (\<exists>q b. engines w1 c = (engines w c)\<lparr>task_queue := q, cv_waiting := b\<rparr>)"
proof -
  let ?q = "task_queue (engines w c)"
  let ?w = "on_engine c (\<lambda>_. (engines w c)\<lparr>task_queue := drop 64 ?q\<rparr>) w"
  have "sound c fit parked (take 64 ?q) ?w" using s by (simp add: sound_def Let_def)
  from process_batch_ends [OF t d this] obtain w1 q b where
    w1: "process_batch resume completed c (take 64 ?q) ?w = Some (w1, Ret ())" "sound c fit parked [] w1"
      "left (obj w1) (frames w1) + length (take 64 ?q) \<le> left (obj ?w) (frames ?w)"
      "engines w1 c = (engines ?w c)\<lparr>task_queue := q, cv_waiting := b\<rparr>" by blast
  have "0 < length (take 64 ?q)" using ne by simp
  with w1(3) have l: "left (obj w1) (frames w1) < left (obj w) (frames w)" unfolding on_engine_sel by linarith
  from process_work_once_batch [OF ne, of resume completed] w1(1)
  have "process_work_once resume completed c w = Some (w1, Ret True)" by simp
  with w1(2,4) l show ?thesis by auto
qed

subsection \<open>Polling without I/O\<close>

lemma poll_io_quiet:
  assumes ok: "uring_ok L sq outst entries" and n: "no_io sq outst e"
  shows "\<exists>u. poll_io L kIoPollBatchSize (e, m) = ((e\<lparr>uring := u\<rparr>, m), Ret 0) \<and> sq u = [] \<and> outst u = {#}"
proof -
  have o: "outst (uring e) = {#}" "sq (uring e) = []" using n by (simp_all add: no_io_def)
  then have "set_mset (outst (uring e)) \<subseteq> dom m" by simp
  from poll_complete_eq [OF ok this word_zero_le, of kIoPollBatchSize] obtain infos u where
    c: "poll_complete L kIoPollBatchSize 0 (e, m) =
       ((e\<lparr>uring := u, task_queue := task_queue e @ map (\<lambda>i. the (map_option aw_handle (m (user_data i)))) infos,
           inflight_io := inflight_io e - of_nat (length infos)\<rparr>, complete_all infos m), Ret (0 + of_nat (length infos)))"
    and u: "sq u = sq (uring e)" "outst (uring e) = mset (map user_data infos) + outst u" by blast
  from u(2) o(1) have "mset (map user_data infos) + outst u = {#}" by simp
  then have i: "infos = []" "outst u = {#}" by simp_all
  have "poll_complete L kIoPollBatchSize 0 (e, m) = ((e\<lparr>uring := u\<rparr>, m), Ret 0)"
    using c by (cases e) (simp add: i complete_all_def)
  moreover have "poll_waiting kIoPollBatchSize 0 e = (e, 0)" "poll_reads L m kIoPollBatchSize 0 e = (e, Ret 0)"
    "poll_writes L m kIoPollBatchSize 0 e = (e, Ret 0)" "poll_submit L 0 e = (e, Ret 0)"
    using n by (simp_all add: no_io_def poll_waiting.simps poll_reads.simps poll_writes.simps poll_submit.simps)
  moreover have "kIoPollBatchSize \<noteq> 0" by (simp add: kIoPollBatchSize_def)
  ultimately have "poll_io L kIoPollBatchSize (e, m) = ((e\<lparr>uring := u\<rparr>, m), Ret 0)"
    by (simp add: poll_io_def)
  with u(1) o(2) i(2) show ?thesis by auto
qed

lemma last_round:
  assumes ok: "uring_ok L sq outst entries" and n: "no_io sq outst (engines w c)"
    and q: "task_queue (engines w c) = []"
  shows "\<exists>w1. run_round L resume completed True c w = Some (w1, Ret Leave) \<and>
    engine_empty (engines w1 c) \<and> inflight_io (engines w1 c) = 0 \<and> inflight_tasks (engines w1 c) = 0 \<and>
    frames w1 = frames w \<and> obj w1 = obj w"
proof -
  from poll_io_quiet [OF ok n, of "io_store w"] obtain u where
    p: "poll_io L kIoPollBatchSize (engines w c, io_store w) = (((engines w c)\<lparr>uring := u\<rparr>, io_store w), Ret 0)" by blast
  have "process_work_once resume completed c w = Some (on_engine c (\<lambda>_. engines w c) w, Ret False)"
    using q by (simp add: process_work_once_def pop_batch_def)
  moreover have "poll_io_once L c (on_engine c (\<lambda>_. engines w c) w) =
      (on_engine c (\<lambda>_. (engines w c)\<lparr>uring := u\<rparr>) ((on_engine c (\<lambda>_. engines w c) w)\<lparr>io_store := io_store w\<rparr>), Ret False)"
    using p by (simp add: poll_io_once_def)
  moreover have "can_stop True ((engines w c)\<lparr>uring := u\<rparr>)" using n q by (simp add: can_stop_def no_io_def)
  ultimately show ?thesis using n q
    by (simp add: run_round_def engine_empty_def no_io_def)
qed

lemma run_rounds_end:
  assumes t: "tame resume completed c tally" and d: "ending resume completed c fit left parked"
    and ok: "uring_ok L sq outst entries"
  shows "sound c fit parked [] w \<Longrightarrow> no_io sq outst (engines w c) \<Longrightarrow> left (obj w) (frames w) < k \<Longrightarrow>
    \<exists>w1. run_rounds L resume completed True c k w = Some (w1, Ret ()) \<and> engine_empty (engines w1 c) \<and>
      inflight_io (engines w1 c) = 0 \<and> inflight_tasks (engines w1 c) = 0"
proof (induction k arbitrary: w)
  case (Suc k)
  show ?case
  proof (cases "task_queue (engines w c) = []")
    case True
    from last_round [OF ok Suc.prems(2) True, of resume completed] show ?thesis by auto
  next
    case False
    from process_work_once_ends [OF t d Suc.prems(1) False] obtain w1 q b where
      w1: "process_work_once resume completed c w = Some (w1, Ret True)" "sound c fit parked [] w1"
        "left (obj w1) (frames w1) < left (obj w) (frames w)" "engines w1 c = (engines w c)\<lparr>task_queue := q, cv_waiting := b\<rparr>" by blast
    have n: "no_io sq outst (engines w1 c)" using Suc.prems(2) w1(4) by simp
    have k: "left (obj w1) (frames w1) < k" using Suc.prems(3) w1(3) by simp
    have "run_round L resume completed True c w = Some (w1, Ret Again)" using w1(1) by (simp add: run_round_def)
    with Suc.IH [OF w1(2) n k] show ?thesis by simp
  qed
qed simp

subsection \<open>Property\<close>


text \<open>Two tasks that finish at once, and a callback that counts.\<close>

definition demo_stop :: "(uint64 list \<times> uint64 list, unit, nat) world" where
  "demo_stop = \<lparr>engines = (\<lambda>_. (new_engine ([], []))\<lparr>task_queue := [5, 6]\<rparr>), local_context_ptr = None,
     pending_tasks = 2, io_store = (\<lambda>_. None), frames = [5 \<mapsto> new_frame, 6 \<mapsto> new_frame], obj = 0\<rparr>"

definition finish_at_once :: "(uint64 list \<times> uint64 list, unit, nat) resumption" where
  "finish_at_once h w = Some (w\<lparr>frames := mark_done h (frames w)\<rparr>, Ret ())"

definition note_completion ::
  "(uint64 list \<times> uint64 list, unit, nat) world \<Rightarrow> (uint64 list \<times> uint64 list, unit, nat) world" where
  "note_completion w = w\<lparr>obj := Suc (obj w)\<rparr>"

lemma demo_tame: "tame finish_at_once note_completion 0 obj"
  by (auto simp: tame_def finish_at_once_def note_completion_def mark_done_def on_engine_def suspended_def
      keeps_others_def split: option.splits)

lemma suspended_mark_done:
  assumes "suspended H h"
  shows "{k. suspended H k} = insert h {k. suspended (mark_done h H) k}" "\<not> suspended (mark_done h H) h"
    "dom (mark_done h H) = dom H"
  using assms by (auto simp: suspended_def mark_done_def split: option.splits if_splits)

lemma demo_ending:
  "ending finish_at_once note_completion 0 (\<lambda>_ H. finite (dom H)) (\<lambda>_ H. card {k. suspended H k}) (\<lambda>_. {})"
proof -
  have fin: "finite {k. suspended H k}" if "finite (dom H)" for H :: "unit heap"
    using that by (rule rev_finite_subset) (auto simp: suspended_def split: option.splits)
  have less: "card {k. suspended (mark_done h H) k} < card {k. suspended H k}"
    if "finite (dom H)" "suspended H h" for h and H :: "unit heap"
    using suspended_mark_done [OF that(2)] fin [of "mark_done h H"] that(1) by simp
  have le: "card {k. suspended (H(h := None)) k} \<le> card {k. suspended H k}"
    if "finite (dom H)" for h and H :: "unit heap"
    by (rule card_mono [OF fin [OF that]]) (auto simp: suspended_def split: if_splits)
  have "finite (dom (frames w1)) \<and> card {k. suspended (frames w1) k} < card {k. suspended (frames w) k} \<and>
      (\<exists>qs b. engines w1 0 = (engines w 0)\<lparr>task_queue := task_queue (engines w 0) @ qs, cv_waiting := b\<rparr> \<and>
         distinct qs \<and> (\<forall>k \<in> set qs. suspended (frames w1) k) \<and> set qs \<subseteq> {h} \<union> {} \<union> {k. frames w k = None} \<and>
         {} \<subseteq> {h} \<union> {} \<union> {k. frames w k = None} - set qs)"
    if "finite (dom (frames w))" "suspended (frames w) h" "finish_at_once h w = Some (w1, Ret ())" for h w w1
  proof -
    have "w1 = w\<lparr>frames := mark_done h (frames w)\<rparr>" using that(3) by (simp add: finish_at_once_def)
    with less [OF that(1,2)] suspended_mark_done(3) [OF that(2)] that(1) show ?thesis
      by (intro conjI exI [of _ "[]"] exI [of _ "cv_waiting (engines w 0)"]) simp_all
  qed
  with le show ?thesis by (simp add: ending_def note_completion_def)
qed


end
