(* ===== verification/Runtime_Machine.thy ===== *)
theory Runtime_Machine
  imports Context_Run Scheduler_Machine
begin

text \<open>
  The runtime as a whole, for a program that initialises a scheduler, submits its tasks and
  calls \<open>loop\<close>: the workers take batches, resume handles and go to sleep in any
  interleaving. A step is a batch taken by \<open>pop_batch\<close>, one handle of a batch, or one round of
  \<open>run\<close> that finds nothing to do, up to and with its wait.
\<close>

subsection \<open>Machine\<close>

record ('u, 'v, 's) runtime =
  rt_scheduler :: "('u, 'v, 's) scheduler"
  rt_batch :: "nat \<Rightarrow> handle list"
  rt_failed :: bool

abbreviation rt_world :: "('u, 'v, 's) runtime \<Rightarrow> ('u, 'v, 's) world" where
  "rt_world s \<equiv> sc_world (rt_scheduler s)"

text \<open>
  One handle of a worker's batch, with \<open>Scheduler::on_task_completed\<close> as the callback, which is
  the last thing that happens to a handle.
\<close>

definition worker_handle ::
  "('u, 'v, 's) resumption \<Rightarrow> nat \<Rightarrow> handle \<Rightarrow> ('u, 'v, 's) scheduler \<Rightarrow>
   (('u, 'v, 's) scheduler \<times> unit res) option" where
  "worker_handle resume c h s =
     map_option (\<lambda>(w, r). let s1 = s\<lparr>sc_world := w\<rparr> in
         (if r = Ret () \<and> frames w h = None then on_task_completed s1 else s1, r))
       (process_handle resume (\<lambda>w. w) c h (run_begin c (sc_world s)))"

lemma callback_is_last:
  "process_handle resume completed c h w =
     map_option (\<lambda>(w1, r). (if r = Ret () \<and> frames w1 h = None then completed w1 else w1, r))
       (process_handle resume (\<lambda>w. w) c h w)"
proof (cases "resume h (on_engine c on_task_resume_begin w)")
  case (Some p)
  then show ?thesis
    by (cases p; cases "snd p"; cases "frames (fst p) h")
      (auto simp: process_handle_def world_destroy_def handle_destroy_def handle_done_def Let_def split: bool.splits)
qed (simp add: process_handle_def)

inductive runtime_step ::
  "'u liburing \<Rightarrow> ('u, 'v, 's) resumption \<Rightarrow> ('u, 'v, 's) runtime \<Rightarrow> ('u, 'v, 's) runtime \<Rightarrow> bool" for L resume where
  rt_take: "c \<in> set (sc_contexts (rt_scheduler s)) \<Longrightarrow> rt_batch s c = [] \<Longrightarrow>
    \<not> cv_waiting (engines (rt_world s) c) \<Longrightarrow>
    pop_batch [] kProcessBatchSize (engines (rt_world s) c) = (e, batch, n) \<Longrightarrow> n \<noteq> 0 \<Longrightarrow>
    runtime_step L resume s (s\<lparr>rt_scheduler := on_world (on_engine c (\<lambda>_. e)) (rt_scheduler s),
      rt_batch := (rt_batch s)(c := batch)\<rparr>)"
| rt_resume: "c \<in> set (sc_contexts (rt_scheduler s)) \<Longrightarrow> rt_batch s c = h # hs \<Longrightarrow>
    worker_handle resume c h (rt_scheduler s) = Some (s1, r) \<Longrightarrow>
    runtime_step L resume s (s\<lparr>rt_scheduler := s1, rt_batch := (rt_batch s)(c := hs), rt_failed := (r \<noteq> Ret ())\<rparr>)"
| rt_idle: "c \<in> set (sc_contexts (rt_scheduler s)) \<Longrightarrow> rt_batch s c = [] \<Longrightarrow>
    \<not> cv_waiting (engines (rt_world s) c) \<Longrightarrow> task_queue (engines (rt_world s) c) = [] \<Longrightarrow>
    run_round L resume (\<lambda>w. w) False c (run_begin c (rt_world s)) = Some (w, r) \<Longrightarrow>
    runtime_step L resume s (s\<lparr>rt_scheduler := (rt_scheduler s)\<lparr>sc_world := w\<rparr>, rt_failed := (r \<noteq> Ret Idle)\<rparr>)"

text \<open>The main thread: \<open>init\<close>, \<open>submit\<close> for each task, \<open>loop\<close>.\<close>

definition runtime_init ::
  "'u liburing \<Rightarrow> ('u, 'v, 's) world \<Rightarrow> nat \<Rightarrow> size_t \<Rightarrow> handle list \<Rightarrow> ('u, 'v, 's) runtime \<Rightarrow> bool" where
  "runtime_init L w k n hs s \<longleftrightarrow>
     (\<exists>b. bind_res (scheduler_init L n (new_scheduler w k))
            (\<lambda>s1 _. bind_res (submit_all hs s1) (\<lambda>s2 _. loop_begin s2)) = (rt_scheduler s, Ret b)) \<and>
     rt_batch s = (\<lambda>_. []) \<and> \<not> rt_failed s"

subsection \<open>What the tasks are relied on for\<close>

text \<open>
  \<open>fit\<close> is what the tasks keep invariant of their own data and the frames, with fewer than
  \<open>2 ^ 64\<close> frames at a time; \<open>left\<close> is an amount of work that every resumption decreases;
  \<open>parked\<close> are the tasks that wait in a synchronisation object. A task resumed on a worker
  comes back, brings no other coroutine to its end, destroys none, and afterwards it is at
  its end, parked, or queued again on the worker; it may wake parked tasks, which are queued
  on the worker, and create tasks that it submits as tracked.
\<close>

definition spawned :: "('u, 'v, 's) world \<Rightarrow> ('u, 'v, 's) world \<Rightarrow> handle set" where
  "spawned w w1 = dom (frames w1) - dom (frames w)"

definition steady ::
  "('u, 'v, 's) resumption \<Rightarrow> ('s \<Rightarrow> 'v heap \<Rightarrow> bool) \<Rightarrow> ('s \<Rightarrow> 'v heap \<Rightarrow> nat) \<Rightarrow> ('s \<Rightarrow> handle set) \<Rightarrow> bool" where
  "steady resume fit left parked \<longleftrightarrow>
     (\<forall>s H. fit s H \<longrightarrow> finite (dom H) \<and> card (dom H) < 2 ^ 64) \<and>
     (\<forall>s H h. fit s H \<longrightarrow> \<not> suspended H h \<longrightarrow> fit s (H(h := None)) \<and> left s (H(h := None)) \<le> left s H) \<and>
     (\<forall>c h w. local_context_ptr w = Some c \<longrightarrow> fit (obj w) (frames w) \<longrightarrow> suspended (frames w) h \<longrightarrow>
        h \<notin> parked (obj w) \<longrightarrow>
        (\<exists>w1 qs. resume h w = Some (w1, Ret ()) \<and> frames w1 h \<noteq> None \<and> keeps_others h (frames w) (frames w1) \<and>
           fit (obj w1) (frames w1) \<and> left (obj w1) (frames w1) < left (obj w) (frames w) \<and>
           engines w1 = (engines w)(c := fold engine_submit_task qs (engines w c)) \<and>
           distinct qs \<and> set qs \<inter> parked (obj w1) = {} \<and>
           set qs \<union> parked (obj w1) = {k. k = h \<and> suspended (frames w1) k} \<union> parked (obj w) \<union> spawned w w1 \<and>
           (\<forall>k \<in> spawned w w1. suspended (frames w1) k) \<and>
           pending_tasks w1 = pending_tasks w + of_nat (card (spawned w w1))))"

lemma fold_engine_submit_task:
  "fold engine_submit_task qs e = e\<lparr>task_queue := task_queue e @ qs, cv_waiting := cv_waiting e \<and> qs = []\<rparr>"
  by (induction qs arbitrary: e) (simp_all add: engine_submit_task_def notify_cv_def)

lemma steadyD:
  assumes "steady resume fit left parked"
  shows "fit d H \<Longrightarrow> finite (dom H) \<and> card (dom H) < 2 ^ 64"
    and "fit d H \<Longrightarrow> \<not> suspended H h \<Longrightarrow> fit d (H(h := None)) \<and> left d (H(h := None)) \<le> left d H"
    and "local_context_ptr w = Some c \<Longrightarrow> fit (obj w) (frames w) \<Longrightarrow> suspended (frames w) h \<Longrightarrow> h \<notin> parked (obj w) \<Longrightarrow>
      \<exists>w1 qs. resume h w = Some (w1, Ret ()) \<and> frames w1 h \<noteq> None \<and> keeps_others h (frames w) (frames w1) \<and>
        fit (obj w1) (frames w1) \<and> left (obj w1) (frames w1) < left (obj w) (frames w) \<and>
        engines w1 = (engines w)(c := fold engine_submit_task qs (engines w c)) \<and>
        distinct qs \<and> set qs \<inter> parked (obj w1) = {} \<and>
        set qs \<union> parked (obj w1) = {k. k = h \<and> suspended (frames w1) k} \<union> parked (obj w) \<union> spawned w w1 \<and>
        (\<forall>k \<in> spawned w w1. suspended (frames w1) k) \<and>
        pending_tasks w1 = pending_tasks w + of_nat (card (spawned w w1))"
proof -
  note s = assms [unfolded steady_def]
  show "fit d H \<Longrightarrow> finite (dom H) \<and> card (dom H) < 2 ^ 64" by (rule s [THEN conjunct1, rule_format])
  show "fit d H \<Longrightarrow> \<not> suspended H h \<Longrightarrow> fit d (H(h := None)) \<and> left d (H(h := None)) \<le> left d H"
    by (rule s [THEN conjunct2, THEN conjunct1, rule_format])
qed (rule assms [unfolded steady_def, THEN conjunct2, THEN conjunct2, rule_format])

text \<open>One handle of steady tasks.\<close>

lemma worker_handle_steady:
  assumes st: "steady resume fit left parked" and f: "fit (obj (sc_world s)) (frames (sc_world s))"
    and h: "suspended (frames (sc_world s)) h" "h \<notin> parked (obj (sc_world s))"
  shows "\<exists>s1 qs H. worker_handle resume c h s = Some (s1, Ret ()) \<and>
    keeps_others h (frames (sc_world s)) H \<and> H h \<noteq> None \<and>
    frames (sc_world s1) = (if suspended H h then H else H(h := None)) \<and>
    fit (obj (sc_world s1)) (frames (sc_world s1)) \<and>
    left (obj (sc_world s1)) (frames (sc_world s1)) < left (obj (sc_world s)) (frames (sc_world s)) \<and>
    engines (sc_world s1) = (engines (sc_world s))(c := fold engine_submit_task qs (engines (sc_world s) c)) \<and>
    distinct qs \<and> set qs \<inter> parked (obj (sc_world s1)) = {} \<and>
    set qs \<union> parked (obj (sc_world s1)) =
      {k. k = h \<and> suspended H k} \<union> parked (obj (sc_world s)) \<union> (dom H - dom (frames (sc_world s))) \<and>
    (\<forall>k \<in> dom H - dom (frames (sc_world s)). suspended H k) \<and>
    s1 = (let p = pending_tasks (sc_world s) + of_nat (card (dom H - dom (frames (sc_world s)))) in
       if suspended H h then s\<lparr>sc_world := (sc_world s1)\<lparr>pending_tasks := p\<rparr>\<rparr>
       else on_task_completed (s\<lparr>sc_world := (sc_world s1)\<lparr>pending_tasks := p\<rparr>\<rparr>))"
proof -
  let ?w = "on_engine c on_task_resume_begin (run_begin c (sc_world s))"
  have "local_context_ptr ?w = Some c" "obj ?w = obj (sc_world s)" "frames ?w = frames (sc_world s)"
    by (simp_all add: run_begin_def)
  then obtain w1 qs where r: "resume h ?w = Some (w1, Ret ())" "frames w1 h \<noteq> None"
    "keeps_others h (frames (sc_world s)) (frames w1)" "fit (obj w1) (frames w1)"
    "left (obj w1) (frames w1) < left (obj (sc_world s)) (frames (sc_world s))"
    "engines w1 = (engines ?w)(c := fold engine_submit_task qs (engines ?w c))"
    "distinct qs" "set qs \<inter> parked (obj w1) = {}"
    "set qs \<union> parked (obj w1) = {k. k = h \<and> suspended (frames w1) k} \<union> parked (obj (sc_world s)) \<union> spawned ?w w1"
    "\<forall>k \<in> spawned ?w w1. suspended (frames w1) k"
    "pending_tasks w1 = pending_tasks ?w + of_nat (card (spawned ?w w1))"
    using steadyD(3) [OF st, of ?w c h] f h by auto
  have sp: "spawned ?w w1 = dom (frames w1) - dom (frames (sc_world s))" by (simp add: spawned_def run_begin_def)
  have pw: "pending_tasks ?w = pending_tasks (sc_world s)" by (simp add: run_begin_def)
  let ?e = "on_engine c on_task_resume_end w1"
  have e: "engines ?e = (engines (sc_world s))(c := fold engine_submit_task qs (engines (sc_world s) c))"
    by (simp add: on_engine_def r(6) fold_engine_submit_task run_begin_def on_task_resume_begin_def on_task_resume_end_def)
  obtain g where g: "frames w1 h = Some g" using r(2) by auto
  have sg: "suspended (frames w1) h \<longleftrightarrow> \<not> fr_done g" using g by (simp add: suspended_def)
  show ?thesis
  proof (cases "fr_done g")
    case False
    then have "process_handle resume (\<lambda>w. w) c h (run_begin c (sc_world s)) = Some (?e, Ret ())"
      using r(1) g by (simp add: process_handle_def handle_done_def Let_def)
    then have "worker_handle resume c h s = Some (s\<lparr>sc_world := ?e\<rparr>, Ret ())"
      using g by (simp add: worker_handle_def)
    with False show ?thesis using r e sp pw sg
      by (intro exI [of _ "s\<lparr>sc_world := ?e\<rparr>"] exI [of _ qs] exI [of _ "frames w1"]) (simp add: on_engine_def)
  next
    case True
    let ?d = "?e\<lparr>frames := (frames w1)(h := None)\<rparr>"
    have "process_handle resume (\<lambda>w. w) c h (run_begin c (sc_world s)) = Some (?d, Ret ())"
      using r(1) g True by (simp add: process_handle_def handle_done_def world_destroy_def handle_destroy_def Let_def)
    then have "worker_handle resume c h s = Some (on_task_completed (s\<lparr>sc_world := ?d\<rparr>), Ret ())"
      by (simp add: worker_handle_def)
    moreover have z: "fit (obj w1) ((frames w1)(h := None)) \<and> left (obj w1) ((frames w1)(h := None)) \<le> left (obj w1) (frames w1)"
      using st r(4) sg True unfolding steady_def by simp
    ultimately show ?thesis using True r e sp pw sg
      by (intro exI [of _ "on_task_completed (s\<lparr>sc_world := ?d\<rparr>)"] exI [of _ qs] exI [of _ "frames w1"])
        (simp add: on_task_completed_def on_world_def on_engine_def Let_def)
  qed
qed

subsection \<open>Invariant\<close>

text \<open>What worker \<open>c\<close> has before it, and all tasks that are not at their end.\<close>

definition own :: "('u, 'v, 's) runtime \<Rightarrow> nat \<Rightarrow> handle list" where
  "own s c = rt_batch s c @ task_queue (engines (rt_world s) c)"

definition unfinished :: "('s \<Rightarrow> handle set) \<Rightarrow> ('u, 'v, 's) runtime \<Rightarrow> handle set" where
  "unfinished parked s = (\<Union>c \<in> set (sc_contexts (rt_scheduler s)). set (own s c)) \<union> parked (obj (rt_world s))"

definition worker_inv ::
  "('u \<Rightarrow> uint64 list) \<Rightarrow> ('u \<Rightarrow> uint64 multiset) \<Rightarrow> ('s \<Rightarrow> handle set) \<Rightarrow> ('u, 'v, 's) runtime \<Rightarrow> nat \<Rightarrow> bool" where
  "worker_inv sq outst parked s c \<longleftrightarrow>
     distinct (own s c) \<and> set (own s c) \<inter> parked (obj (rt_world s)) = {} \<and> no_io sq outst (engines (rt_world s) c) \<and>
     (own s c \<noteq> [] \<longrightarrow> \<not> cv_waiting (engines (rt_world s) c))"

definition runtime_inv ::
  "('u \<Rightarrow> uint64 list) \<Rightarrow> ('u \<Rightarrow> uint64 multiset) \<Rightarrow> ('s \<Rightarrow> 'v heap \<Rightarrow> bool) \<Rightarrow> ('s \<Rightarrow> handle set) \<Rightarrow>
   handle list \<Rightarrow> ('u, 'v, 's) runtime \<Rightarrow> bool" where
  "runtime_inv sq outst fit parked hs s \<longleftrightarrow>
     \<not> rt_failed s \<and> fit (obj (rt_world s)) (frames (rt_world s)) \<and>
     (\<forall>c \<in> set (sc_contexts (rt_scheduler s)). worker_inv sq outst parked s c) \<and>
     (\<forall>c \<in> set (sc_contexts (rt_scheduler s)). \<forall>d \<in> set (sc_contexts (rt_scheduler s)).
        c \<noteq> d \<longrightarrow> set (own s c) \<inter> set (own s d) = {}) \<and>
     (\<forall>k \<in> unfinished parked s. suspended (frames (rt_world s)) k) \<and>
     pending_tasks (rt_world s) = of_nat (card (unfinished parked s)) \<and>
     (sc_loop_blocked (rt_scheduler s) \<longrightarrow> pending_tasks (rt_world s) \<noteq> 0) \<and>
     (\<forall>h \<in> set hs. h \<in> unfinished parked s \<or> frames (rt_world s) h = None)"

lemma runtime_inv_cong:
  assumes "runtime_inv sq outst fit parked hs s" and "\<not> rt_failed t"
    and "own t = own s" "sc_contexts (rt_scheduler t) = sc_contexts (rt_scheduler s)"
    "sc_loop_blocked (rt_scheduler t) = sc_loop_blocked (rt_scheduler s)"
    "obj (rt_world t) = obj (rt_world s)" "frames (rt_world t) = frames (rt_world s)"
    "pending_tasks (rt_world t) = pending_tasks (rt_world s)"
    and "\<And>c. c \<in> set (sc_contexts (rt_scheduler s)) \<Longrightarrow> no_io sq outst (engines (rt_world t) c)"
    "\<And>c. own s c \<noteq> [] \<Longrightarrow> cv_waiting (engines (rt_world t) c) = cv_waiting (engines (rt_world s) c)"
  shows "runtime_inv sq outst fit parked hs t"
proof -
  have "unfinished parked t = unfinished parked s" using assms(3,4,6) by (simp add: unfinished_def)
  moreover have "worker_inv sq outst parked t c" if "c \<in> set (sc_contexts (rt_scheduler s))" for c
  proof -
    have "worker_inv sq outst parked s c" using assms(1) that by (simp add: runtime_inv_def)
    with assms(3,6) assms(9) [OF that] assms(10) [of c] show ?thesis by (auto simp: worker_inv_def)
  qed
  ultimately show ?thesis using assms(1-8) by (auto simp: runtime_inv_def)
qed

lemma take_inv:
  assumes inv: "runtime_inv sq outst fit parked hs s" and b: "rt_batch s c = []"
    and p: "pop_batch [] kProcessBatchSize (engines (rt_world s) c) = (e, batch, n)" "n \<noteq> 0"
    and t: "t = s\<lparr>rt_scheduler := on_world (on_engine c (\<lambda>_. e)) (rt_scheduler s), rt_batch := (rt_batch s)(c := batch)\<rparr>"
  shows "runtime_inv sq outst fit parked hs t" "own t = own s" "batch \<noteq> []"
    "e = (engines (rt_world s) c)\<lparr>task_queue := drop 64 (task_queue (engines (rt_world s) c))\<rparr>"
    "task_queue (engines (rt_world s) c) \<noteq> []"
proof -
  let ?e = "engines (rt_world s) c"
  show q: "task_queue ?e \<noteq> []" using p by (auto simp: pop_batch_def)
  have k: "kProcessBatchSize \<noteq> 0" "unat kProcessBatchSize = 64" by (simp_all add: kProcessBatchSize_def)
  from pop_batch_eq [OF q k(1), of "[]"] p(1) k(2)
  show e: "e = ?e\<lparr>task_queue := drop 64 (task_queue ?e)\<rparr>" and ba: "batch \<noteq> []"
    using q by auto
  have bb: "batch = take 64 (task_queue ?e)" using pop_batch_eq [OF q k(1), of "[]"] p(1) k(2) by simp
  show o: "own t = own s" using b by (auto simp: own_def t e bb on_world_def on_engine_def fun_eq_iff)
  have n: "no_io sq outst (engines (rt_world t) d)" if "d \<in> set (sc_contexts (rt_scheduler s))" for d
  proof -
    have "no_io sq outst (engines (rt_world s) d)"
      using inv that by (simp add: runtime_inv_def worker_inv_def)
    then show ?thesis by (auto simp: t on_world_def on_engine_def e)
  qed
  show "runtime_inv sq outst fit parked hs t"
    by (rule runtime_inv_cong [OF inv _ o _ _ _ _ _ n])
      (use inv in \<open>simp_all add: runtime_inv_def t on_world_def on_engine_def e\<close>)
qed

lemma idle_round:
  assumes ok: "uring_ok L sq outst entries" and n: "no_io sq outst (engines w c)"
    and q: "task_queue (engines w c) = []"
  shows "\<exists>u. run_round L resume completed False c w =
      Some (on_engine c (\<lambda>e. e\<lparr>uring := u, cv_waiting := True\<rparr>) w, Ret Idle) \<and> sq u = [] \<and> outst u = {#}"
proof -
  from poll_io_quiet [OF ok n, of "io_store w"] obtain u where
    p: "poll_io L kIoPollBatchSize (engines w c, io_store w) = (((engines w c)\<lparr>uring := u\<rparr>, io_store w), Ret 0)"
      "sq u = []" "outst u = {#}" by blast
  have "process_work_once resume completed c w = Some (w, Ret False)"
    using q by (simp add: process_work_once_def pop_batch_def on_engine_def)
  moreover have "poll_io_once L c w = (on_engine c (\<lambda>e. e\<lparr>uring := u\<rparr>) w, Ret False)"
    using p(1) by (simp add: poll_io_once_def on_engine_def)
  moreover have "\<not> can_stop False ((engines w c)\<lparr>uring := u\<rparr>)" by (simp add: can_stop_def)
  moreover have "wait_or_idle False c (on_engine c (\<lambda>e. e\<lparr>uring := u\<rparr>) w) =
      on_engine c (\<lambda>e. e\<lparr>uring := u, cv_waiting := True\<rparr>) w"
    using n q by (simp add: wait_or_idle_def wait_for_work_or_stop_def wait_pred_def no_io_def on_engine_def)
  ultimately show ?thesis using p(2,3) by (auto simp: run_round_def)
qed

lemma idle_inv:
  assumes inv: "runtime_inv sq outst fit parked hs s" and ok: "uring_ok L sq outst entries"
    and c: "c \<in> set (sc_contexts (rt_scheduler s))" and q: "rt_batch s c = []" "task_queue (engines (rt_world s) c) = []"
    and r: "run_round L resume (\<lambda>w. w) False c (run_begin c (rt_world s)) = Some (w, r)"
    and t: "t = s\<lparr>rt_scheduler := (rt_scheduler s)\<lparr>sc_world := w\<rparr>, rt_failed := (r \<noteq> Ret Idle)\<rparr>"
  shows "runtime_inv sq outst fit parked hs t" "own t = own s"
    "\<exists>u. engines w = (engines (rt_world s))(c := (engines (rt_world s) c)\<lparr>uring := u, cv_waiting := True\<rparr>)"
    "obj w = obj (rt_world s)" "frames w = frames (rt_world s)"
proof -
  have n: "no_io sq outst (engines (run_begin c (rt_world s)) c)"
    using inv c by (simp add: runtime_inv_def worker_inv_def run_begin_def)
  from idle_round [OF ok n, of resume "\<lambda>w. w"] q(2) r obtain u where
    w: "w = on_engine c (\<lambda>e. e\<lparr>uring := u, cv_waiting := True\<rparr>) (run_begin c (rt_world s))" "r = Ret Idle"
      "sq u = []" "outst u = {#}"
    by (auto simp: run_begin_def)
  then show "\<exists>u. engines w = (engines (rt_world s))(c := (engines (rt_world s) c)\<lparr>uring := u, cv_waiting := True\<rparr>)"
    and f: "obj w = obj (rt_world s)" "frames w = frames (rt_world s)"
    by (auto simp: on_engine_def run_begin_def)
  show o: "own t = own s" using q by (auto simp: own_def t w(1) on_engine_def run_begin_def fun_eq_iff)
  have m: "no_io sq outst (engines (rt_world t) d)" if "d \<in> set (sc_contexts (rt_scheduler s))" for d
  proof -
    have "no_io sq outst (engines (rt_world s) d)"
      using inv that by (simp add: runtime_inv_def worker_inv_def)
    then show ?thesis using w(3,4) by (auto simp: t w(1) on_engine_def run_begin_def no_io_def)
  qed
  show "runtime_inv sq outst fit parked hs t"
    by (rule runtime_inv_cong [OF inv _ o _ _ _ _ _ m])
      (use inv q in \<open>auto simp: runtime_inv_def t w on_engine_def run_begin_def own_def\<close>)
qed

text \<open>
  A resumption: \<open>qs\<close> is what it queues, \<open>N\<close> the tasks it creates. Of the workers' handles only
  those of \<open>c\<close> change, and a task leaves the unfinished ones exactly if it is at its end.
\<close>

lemma unfinished_resume:
  fixes s t :: "('u, 'v, 's) runtime" and parked :: "'s \<Rightarrow> handle set"
  defines "P \<equiv> parked (obj (rt_world s))" and "C \<equiv> set (sc_contexts (rt_scheduler s))"
  assumes inv: "runtime_inv sq outst fit parked hs s" and c: "c \<in> C" "rt_batch s c = h # bs"
    and t: "sc_contexts (rt_scheduler t) = sc_contexts (rt_scheduler s)" "own t c = bs @ task_queue (engines (rt_world s) c) @ qs"
      "\<forall>d \<in> C. d \<noteq> c \<longrightarrow> own t d = own s d"
    and q: "set qs \<union> parked (obj (rt_world t)) = {k. k = h \<and> still} \<union> P \<union> N"
  shows "unfinished parked t = (unfinished parked s - {k. k = h \<and> \<not> still}) \<union> N"
    and "\<forall>d \<in> C. d \<noteq> c \<longrightarrow> h \<notin> set (own s d)" "h \<notin> set bs" "h \<notin> set (task_queue (engines (rt_world s) c))" "h \<notin> P"
proof -
  have o: "own s c = h # bs @ task_queue (engines (rt_world s) c)" using c(2) by (simp add: own_def)
  have w: "worker_inv sq outst parked s c" using inv c(1) by (simp add: runtime_inv_def C_def)
  then show h: "h \<notin> set bs" "h \<notin> set (task_queue (engines (rt_world s) c))" "h \<notin> P"
    using o by (auto simp: worker_inv_def P_def)
  have dis: "c \<noteq> d \<Longrightarrow> d \<in> C \<Longrightarrow> set (own s c) \<inter> set (own s d) = {}" for d
    using inv c(1) by (simp add: runtime_inv_def C_def)
  show d: "\<forall>d \<in> C. d \<noteq> c \<longrightarrow> h \<notin> set (own s d)" using dis o by fastforce
  let ?D = "\<Union>d \<in> C - {c}. set (own s d)"
  have us: "unfinished parked s = ?D \<union> set (own s c) \<union> P" using c(1) by (auto simp: unfinished_def P_def C_def)
  have "(\<Union>d \<in> C. set (own t d)) = (\<Union>d \<in> C - {c}. set (own t d)) \<union> set (own t c)" using c(1) by auto
  also have "(\<Union>d \<in> C - {c}. set (own t d)) = ?D" by (rule SUP_cong) (use t(3) in auto)
  finally have "(\<Union>d \<in> C. set (own t d)) = ?D \<union> set (own t c)" .
  then have ut: "unfinished parked t = ?D \<union> set (own t c) \<union> parked (obj (rt_world t))"
    using t(1) by (simp add: unfinished_def C_def)
  have "unfinished parked t = ?D \<union> set bs \<union> set (task_queue (engines (rt_world s) c)) \<union> ({k. k = h \<and> still} \<union> P \<union> N)"
    unfolding ut t(2) q [symmetric] by auto
  also have "\<dots> = (unfinished parked s - {k. k = h \<and> \<not> still}) \<union> N"
    unfolding us o using h d by auto
  finally show "unfinished parked t = (unfinished parked s - {k. k = h \<and> \<not> still}) \<union> N" .
qed

lemma runtime_inv_dom:
  assumes "runtime_inv sq outst fit parked hs s" and "steady resume fit left parked"
  shows "unfinished parked s \<subseteq> dom (frames (rt_world s))" "finite (unfinished parked s)"
    "card (unfinished parked s) < 2 ^ 64"
proof -
  show d: "unfinished parked s \<subseteq> dom (frames (rt_world s))"
    using assms(1) by (auto simp: runtime_inv_def dest!: bspec suspended_live)
  have f: "finite (dom (frames (rt_world s)))" "card (dom (frames (rt_world s))) < 2 ^ 64"
    using steadyD(1) [OF assms(2)] assms(1) by (auto simp: runtime_inv_def)
  show "finite (unfinished parked s)" by (rule finite_subset [OF d f(1)])
  show "card (unfinished parked s) < 2 ^ 64" using card_mono [OF f(1) d] f(2) by linarith
qed

text \<open>The counter, and the wake of \<open>loop\<close>, after one handle.\<close>

lemma count_after_resume:
  fixes U N :: "handle set"
  assumes "finite U" "h \<in> U" "finite N" "U \<inter> N = {}" and "U' = (U - {k. k = h \<and> \<not> still}) \<union> N" "card U' < 2 ^ 64"
    and "pending_tasks (sc_world s) = of_nat (card U)" "sc_loop_blocked s \<longrightarrow> pending_tasks (sc_world s) \<noteq> 0"
    and "s1 = (let p = pending_tasks (sc_world s) + of_nat (card N) in
       if still then s\<lparr>sc_world := w\<lparr>pending_tasks := p\<rparr>\<rparr> else on_task_completed (s\<lparr>sc_world := w\<lparr>pending_tasks := p\<rparr>\<rparr>))"
  shows "pending_tasks (sc_world s1) = of_nat (card U')" "sc_loop_blocked s1 \<longrightarrow> pending_tasks (sc_world s1) \<noteq> 0"
    "sc_contexts s1 = sc_contexts s"
proof -
  have c: "card U' + (if still then 0 else 1) = card U + card N"
  proof (cases still)
    case True
    then have "U' = U \<union> N" using assms(5) by simp
    with True assms(1,3,4) show ?thesis by (simp add: card_Un_disjoint)
  next
    case False
    then have "U' = (U - {h}) \<union> N" using assms(5) by simp
    then have "card U' = card (U - {h}) + card N" using assms(1,3,4) by (auto intro: card_Un_disjoint)
    with False card_Suc_Diff1 [OF assms(1,2)] show ?thesis by simp
  qed
  have "(of_nat (card U' + (if still then 0 else 1)) :: size_t) = of_nat (card U + card N)"
    by (rule arg_cong [OF c])
  then have p: "pending_tasks (sc_world s) + of_nat (card N) = of_nat (card U') + (if still then 0 else 1)"
    using assms(7) by (simp split: if_splits)
  show n: "pending_tasks (sc_world s1) = of_nat (card U')"
    unfolding assms(9) p by (simp add: on_task_completed_def on_world_def Let_def)
  show "sc_contexts s1 = sc_contexts s"
    unfolding assms(9) by (simp add: on_task_completed_def on_world_def Let_def)
  have "finite U'" using assms(1,3,5) by simp
  then have "card U' = 0 \<Longrightarrow> \<not> still" using assms(2,5) by auto
  moreover have "(of_nat (card U') :: size_t) = 0 \<longleftrightarrow> card U' = 0" using of_nat_eq_0_size_t [OF assms(6)] .
  ultimately show "sc_loop_blocked s1 \<longrightarrow> pending_tasks (sc_world s1) \<noteq> 0"
    unfolding n unfolding assms(9) p by (auto simp: on_task_completed_def on_world_def Let_def)
qed

text \<open>Every unfinished task is suspended after a resumption, and no task is forgotten.\<close>

lemma unfinished_suspended:
  assumes k: "keeps_others h F H" and h: "suspended F h" and N: "\<forall>k \<in> dom H - dom F. suspended H k"
    and U: "\<forall>k \<in> U. suspended F k" "U' = (U - {k. k = h \<and> \<not> suspended H h}) \<union> (dom H - dom F)"
    and G: "G = (if suspended H h then H else H(h := None))"
  shows "\<forall>k \<in> U'. suspended G k" "k \<in> U \<or> F k = None \<Longrightarrow> k \<in> U' \<or> G k = None"
proof -
  show "\<forall>k \<in> U'. suspended G k"
  proof
    fix k assume "k \<in> U'"
    then consider "k \<in> dom H - dom F" | "k \<in> U" "k = h \<Longrightarrow> suspended H h" using U(2) by auto
    then show "suspended G k"
    proof cases
      case 1
      with N h have "suspended H k" "k \<noteq> h" by (auto dest: suspended_live)
      then show ?thesis unfolding G by (simp add: suspended_def)
    next
      case 2
      with U(1) have "suspended F k" by simp
      with 2(2) k show ?thesis unfolding G
        by (cases "k = h") (auto simp: keeps_others_def suspended_def dest: suspended_live)
    qed
  qed
  show "k \<in> U \<or> F k = None \<Longrightarrow> k \<in> U' \<or> G k = None" unfolding U(2) G by (auto split: if_splits)
qed

lemma resume_effect:
  fixes s :: "('u, 'v, 's) runtime"
  assumes inv: "runtime_inv sq outst fit parked hs s" and st: "steady resume fit left parked"
    and c: "c \<in> set (sc_contexts (rt_scheduler s))" "rt_batch s c = h # bs"
  shows "\<exists>s1 qs N t. worker_handle resume c h (rt_scheduler s) = Some (s1, Ret ()) \<and>
    t = s\<lparr>rt_scheduler := s1, rt_batch := (rt_batch s)(c := bs), rt_failed := False\<rparr> \<and>
    fit (obj (rt_world t)) (frames (rt_world t)) \<and>
    left (obj (rt_world t)) (frames (rt_world t)) < left (obj (rt_world s)) (frames (rt_world s)) \<and>
    sc_contexts s1 = sc_contexts (rt_scheduler s) \<and>
    engines (rt_world t) = (engines (rt_world s))(c := fold engine_submit_task qs (engines (rt_world s) c)) \<and>
    distinct qs \<and> set qs \<inter> parked (obj (rt_world t)) = {} \<and>
    set qs \<union> parked (obj (rt_world t)) \<subseteq> {h} \<union> parked (obj (rt_world s)) \<union> N \<and>
    N \<inter> dom (frames (rt_world s)) = {} \<and>
    (\<forall>k \<in> unfinished parked t. suspended (frames (rt_world t)) k) \<and>
    (\<forall>k. k \<in> unfinished parked s \<or> frames (rt_world s) k = None \<longrightarrow> k \<in> unfinished parked t \<or> frames (rt_world t) k = None) \<and>
    pending_tasks (rt_world t) = of_nat (card (unfinished parked t)) \<and>
    (sc_loop_blocked s1 \<longrightarrow> pending_tasks (rt_world t) \<noteq> 0)"
proof -
  let ?C = "set (sc_contexts (rt_scheduler s))" and ?F = "frames (rt_world s)" and ?q = "task_queue (engines (rt_world s) c)"
  have f: "fit (obj (rt_world s)) ?F" using inv by (simp add: runtime_inv_def)
  have hu: "h \<in> unfinished parked s" using c by (auto simp: unfinished_def own_def intro!: bexI [of _ c])
  then have hs: "suspended ?F h" using inv by (simp add: runtime_inv_def)
  have "worker_inv sq outst parked s c" using inv c(1) by (simp add: runtime_inv_def)
  then have hp: "h \<notin> parked (obj (rt_world s))" using c(2) by (auto simp: worker_inv_def own_def)
  from worker_handle_steady [OF st f hs hp, of c] obtain s1 qs H where
    r: "worker_handle resume c h (rt_scheduler s) = Some (s1, Ret ())"
      "keeps_others h ?F H" "H h \<noteq> None" "frames (sc_world s1) = (if suspended H h then H else H(h := None))"
      "fit (obj (sc_world s1)) (frames (sc_world s1))"
      "left (obj (sc_world s1)) (frames (sc_world s1)) < left (obj (rt_world s)) ?F"
      "engines (sc_world s1) = (engines (rt_world s))(c := fold engine_submit_task qs (engines (rt_world s) c))"
      "distinct qs" "set qs \<inter> parked (obj (sc_world s1)) = {}"
      "set qs \<union> parked (obj (sc_world s1)) = {k. k = h \<and> suspended H k} \<union> parked (obj (rt_world s)) \<union> (dom H - dom ?F)"
      "\<forall>k \<in> dom H - dom ?F. suspended H k"
    and s1: "s1 = (let p = pending_tasks (rt_world s) + of_nat (card (dom H - dom ?F)) in
       if suspended H h then (rt_scheduler s)\<lparr>sc_world := (sc_world s1)\<lparr>pending_tasks := p\<rparr>\<rparr>
       else on_task_completed ((rt_scheduler s)\<lparr>sc_world := (sc_world s1)\<lparr>pending_tasks := p\<rparr>\<rparr>))" by blast
  let ?t = "s\<lparr>rt_scheduler := s1, rt_batch := (rt_batch s)(c := bs), rt_failed := False\<rparr>"
  let ?U = "unfinished parked s" and ?U' = "unfinished parked ?t" and ?N = "dom H - dom ?F"
  note d = runtime_inv_dom [OF inv st]
  have ctx: "sc_contexts s1 = sc_contexts (rt_scheduler s)"
    by (subst s1) (simp add: on_task_completed_def on_world_def Let_def)
  have ot: "own ?t c = bs @ ?q @ qs" "\<forall>d \<in> ?C. d \<noteq> c \<longrightarrow> own ?t d = own s d"
    using r(7) by (simp_all add: own_def fold_engine_submit_task)
  have sq: "{k. k = h \<and> suspended H k} = {k. k = h \<and> suspended H h}" by auto
  have U: "?U' = (?U - {k. k = h \<and> \<not> suspended H h}) \<union> ?N"
    by (rule unfinished_resume(1) [where t = ?t and still = "suspended H h" and N = ?N, OF inv c _ ot])
      (use ctx r(10) sq in simp_all)
  have "\<forall>k \<in> ?U. suspended ?F k" using inv by (simp add: runtime_inv_def)
  note live = unfinished_suspended [OF r(2) hs r(11) this U r(4)]
  have fr: "finite (dom (frames (sc_world s1)))" "card (dom (frames (sc_world s1))) < 2 ^ 64"
    using steadyD(1) [OF st r(5)] by simp_all
  have "?U' \<subseteq> dom (frames (sc_world s1))" using live(1) by (auto dest!: bspec suspended_live)
  then have card: "card ?U' < 2 ^ 64" using card_mono [OF fr(1), of ?U'] fr(2) by linarith
  have fn: "finite ?N" "?U \<inter> ?N = {}" using fr r(3,4) d(1) by (auto split: if_splits)
  have p: "pending_tasks (rt_world s) = of_nat (card ?U)" "sc_loop_blocked (rt_scheduler s) \<longrightarrow> pending_tasks (rt_world s) \<noteq> 0"
    using inv unfolding runtime_inv_def by blast+
  show ?thesis
    using count_after_resume [OF d(2) hu fn U card p s1] r(1,5-10) live ctx
    by (intro exI [of _ s1] exI [of _ qs] exI [of _ ?N] exI [of _ ?t]) auto
qed

lemma workers_after_resume:
  fixes s t :: "('u, 'v, 's) runtime"
  defines "C \<equiv> set (sc_contexts (rt_scheduler s))"
  assumes inv: "runtime_inv sq outst fit parked hs s" and st: "steady resume fit left parked"
    and c: "c \<in> C" "rt_batch s c = h # bs" and t: "rt_batch t = (rt_batch s)(c := bs)"
      "engines (rt_world t) = (engines (rt_world s))(c := fold engine_submit_task qs (engines (rt_world s) c))"
    and q: "distinct qs" "set qs \<inter> parked (obj (rt_world t)) = {}"
      "set qs \<union> parked (obj (rt_world t)) \<subseteq> {h} \<union> parked (obj (rt_world s)) \<union> N" "N \<inter> dom (frames (rt_world s)) = {}"
  shows "\<forall>d \<in> C. worker_inv sq outst parked t d" "\<forall>d \<in> C. \<forall>e \<in> C. d \<noteq> e \<longrightarrow> set (own t d) \<inter> set (own t e) = {}"
proof -
  let ?q = "task_queue (engines (rt_world s) c)" and ?A = "set qs \<union> parked (obj (rt_world t))"
  have wi: "worker_inv sq outst parked s d" if "d \<in> C" for d using inv that by (simp add: runtime_inv_def C_def)
  have dis: "set (own s d) \<inter> set (own s e) = {}" if "d \<in> C" "e \<in> C" "d \<noteq> e" for d e
    using inv that by (simp add: runtime_inv_def C_def)
  have oc: "own s c = h # bs @ ?q" using c(2) by (simp add: own_def)
  have ot: "own t c = bs @ ?q @ qs" "d \<noteq> c \<Longrightarrow> own t d = own s d" for d
    using t by (simp_all add: own_def fold_engine_submit_task)
  have apart: "X \<inter> ?A = {}" if "d \<in> C" "X \<subseteq> set (own s d)" "h \<notin> X" for d X
  proof -
    have "X \<inter> N = {}" using runtime_inv_dom(1) [OF inv st] q(4) that unfolding unfinished_def C_def by blast
    moreover have "X \<inter> parked (obj (rt_world s)) = {}" using wi [OF that(1)] that(2) by (auto simp: worker_inv_def)
    ultimately show ?thesis using q(3) that(3) by blast
  qed
  have rest: "set (bs @ ?q) \<inter> ?A = {}"
    by (rule apart [OF c(1)]) (use oc wi [OF c(1)] in \<open>auto simp: worker_inv_def\<close>)
  have away: "set (own s d) \<inter> ?A = {}" if "d \<in> C" "d \<noteq> c" for d
    by (rule apart [OF that(1)]) (use dis [OF c(1) that(1)] that(2) oc in auto)
  have half: "set (own t c) \<inter> set (own s d) = {}" if "d \<in> C" "d \<noteq> c" for d
    using dis [OF c(1) that(1)] away [OF that] that(2) unfolding oc ot(1) by auto
  have "worker_inv sq outst parked t c"
    using wi [OF c(1)] oc ot(1) q(1,2) rest t(2) by (auto simp: worker_inv_def fold_engine_submit_task)
  moreover have "worker_inv sq outst parked t d" if "d \<in> C" "d \<noteq> c" for d
    using wi [OF that(1)] away [OF that] ot(2) [OF that(2)] t(2) that(2) by (auto simp: worker_inv_def)
  ultimately show "\<forall>d \<in> C. worker_inv sq outst parked t d" by blast
  have "set (own t d) \<inter> set (own t e) = {}" if "d \<in> C" "e \<in> C" "d \<noteq> e" for d e
    using that half [of d] half [of e] dis [OF that] ot(2) [of d] ot(2) [of e] by (cases "d = c"; cases "e = c") auto
  then show "\<forall>d \<in> C. \<forall>e \<in> C. d \<noteq> e \<longrightarrow> set (own t d) \<inter> set (own t e) = {}" by blast
qed

lemma resume_inv:
  fixes s :: "('u, 'v, 's) runtime"
  assumes inv: "runtime_inv sq outst fit parked hs s" and st: "steady resume fit left parked"
    and c: "c \<in> set (sc_contexts (rt_scheduler s))" "rt_batch s c = h # bs"
  shows "\<exists>s1 t. worker_handle resume c h (rt_scheduler s) = Some (s1, Ret ()) \<and>
    t = s\<lparr>rt_scheduler := s1, rt_batch := (rt_batch s)(c := bs), rt_failed := False\<rparr> \<and>
    runtime_inv sq outst fit parked hs t \<and>
    left (obj (rt_world t)) (frames (rt_world t)) < left (obj (rt_world s)) (frames (rt_world s)) \<and>
    sc_contexts s1 = sc_contexts (rt_scheduler s)"
proof -
  from resume_effect [OF inv st c] obtain s1 qs N t where
    r: "worker_handle resume c h (rt_scheduler s) = Some (s1, Ret ())"
      "t = s\<lparr>rt_scheduler := s1, rt_batch := (rt_batch s)(c := bs), rt_failed := False\<rparr>"
      "fit (obj (rt_world t)) (frames (rt_world t))"
      "left (obj (rt_world t)) (frames (rt_world t)) < left (obj (rt_world s)) (frames (rt_world s))"
      "sc_contexts s1 = sc_contexts (rt_scheduler s)"
      "engines (rt_world t) = (engines (rt_world s))(c := fold engine_submit_task qs (engines (rt_world s) c))"
    and q: "distinct qs" "set qs \<inter> parked (obj (rt_world t)) = {}"
      "set qs \<union> parked (obj (rt_world t)) \<subseteq> {h} \<union> parked (obj (rt_world s)) \<union> N"
      "N \<inter> dom (frames (rt_world s)) = {}"
    and k: "\<forall>k \<in> unfinished parked t. suspended (frames (rt_world t)) k"
      "\<forall>k. k \<in> unfinished parked s \<or> frames (rt_world s) k = None \<longrightarrow> k \<in> unfinished parked t \<or> frames (rt_world t) k = None"
      "pending_tasks (rt_world t) = of_nat (card (unfinished parked t))"
      "sc_loop_blocked s1 \<longrightarrow> pending_tasks (rt_world t) \<noteq> 0" by (elim exE conjE) (rule that; assumption)
  have b: "rt_batch t = (rt_batch s)(c := bs)" using r(2) by simp
  have "\<forall>h \<in> set hs. h \<in> unfinished parked t \<or> frames (rt_world t) h = None"
  proof
    fix x assume "x \<in> set hs"
    with inv have "x \<in> unfinished parked s \<or> frames (rt_world s) x = None" by (simp add: runtime_inv_def)
    then show "x \<in> unfinished parked t \<or> frames (rt_world t) x = None" by (rule k(2) [rule_format])
  qed
  moreover have "\<not> rt_failed t" "sc_contexts (rt_scheduler t) = sc_contexts (rt_scheduler s)"
    "sc_loop_blocked (rt_scheduler t) \<longrightarrow> pending_tasks (rt_world t) \<noteq> 0" using r(2,5) k(4) by simp_all
  ultimately have "runtime_inv sq outst fit parked hs t"
    unfolding runtime_inv_def using r(3) k(1,3) workers_after_resume [OF inv st c b r(6) q] by (simp only: simp_thms)
  with r(1,2,4,5) show ?thesis by (intro exI [of _ s1] exI [of _ t] conjI)
qed

lemma runtime_step_inv:
  assumes step: "runtime_step L resume s t" and inv: "runtime_inv sq outst fit parked hs s"
    and st: "steady resume fit left parked" and ok: "uring_ok L sq outst entries"
  shows "runtime_inv sq outst fit parked hs t"
  using step
proof cases
  case (rt_take c e batch n)
  show ?thesis by (rule take_inv(1) [OF inv rt_take(3,5,6,1)])
next
  case (rt_resume c h bs s1 r)
  from resume_inv [OF inv st rt_resume(2,3)] rt_resume(4) show ?thesis unfolding rt_resume(1) by auto
next
  case (rt_idle c w r)
  show ?thesis by (rule idle_inv(1) [OF inv ok rt_idle(2,3,5,6,1)])
qed

subsection \<open>Progress and termination\<close>

text \<open>Work left, then tasks queued, then workers awake: each step decreases the first that it changes.\<close>

definition runtime_measure ::
  "('s \<Rightarrow> 'v heap \<Rightarrow> nat) \<Rightarrow> ('u, 'v, 's) runtime \<Rightarrow> nat \<times> nat \<times> nat" where
  "runtime_measure left s =
     (left (obj (rt_world s)) (frames (rt_world s)),
      \<Sum>c \<in> set (sc_contexts (rt_scheduler s)). length (task_queue (engines (rt_world s) c)),
      card {c \<in> set (sc_contexts (rt_scheduler s)). \<not> cv_waiting (engines (rt_world s) c)})"

lemma runtime_step_decreases:
  assumes step: "runtime_step L resume s t" and inv: "runtime_inv sq outst fit parked hs s"
    and st: "steady resume fit left parked" and ok: "uring_ok L sq outst entries"
  shows "(runtime_measure left t, runtime_measure left s) \<in> less_than <*lex*> less_than <*lex*> less_than"
  using step
proof cases
  case (rt_take c e batch n)
  let ?E = "engines (rt_world s)" and ?C = "set (sc_contexts (rt_scheduler s))"
  have e: "e = (?E c)\<lparr>task_queue := drop 64 (task_queue (?E c))\<rparr>" "task_queue (?E c) \<noteq> []"
    using take_inv(4,5) [OF inv rt_take(3,5,6,1)] .
  have "(\<Sum>d \<in> ?C. length (task_queue ((?E(c := e)) d))) < (\<Sum>d \<in> ?C. length (task_queue (?E d)))"
    using e rt_take(2) by (intro sum_strict_mono_ex1) (auto intro: bexI [of _ c])
  then show ?thesis unfolding rt_take(1) runtime_measure_def by (simp add: on_world_def on_engine_def)
next
  case (rt_resume c h bs s1 r)
  from resume_inv [OF inv st rt_resume(2,3)] rt_resume(4) show ?thesis
    unfolding rt_resume(1) runtime_measure_def by auto
next
  case (rt_idle c w r)
  let ?E = "engines (rt_world s)" and ?C = "set (sc_contexts (rt_scheduler s))"
  note f = idle_inv(3-5) [OF inv ok rt_idle(2,3,5,6,1)]
  from f(1) obtain u where u: "engines w = ?E(c := (?E c)\<lparr>uring := u, cv_waiting := True\<rparr>)" by blast
  have q: "task_queue (engines w d) = task_queue (?E d)" for d by (simp add: u)
  have "{d \<in> ?C. \<not> cv_waiting (engines w d)} \<subset> {d \<in> ?C. \<not> cv_waiting (?E d)}"
    using rt_idle(2,4) by (auto simp: u)
  then have "card {d \<in> ?C. \<not> cv_waiting (engines w d)} < card {d \<in> ?C. \<not> cv_waiting (?E d)}"
    by (intro psubset_card_mono) simp_all
  then show ?thesis unfolding rt_idle(1) runtime_measure_def by (simp add: f(2,3) q)
qed

lemma runtime_progress:
  assumes inv: "runtime_inv sq outst fit parked hs s" and st: "steady resume fit left parked"
    and ok: "uring_ok L sq outst entries" and stuck: "\<forall>t. \<not> runtime_step L resume s t"
    and c: "c \<in> set (sc_contexts (rt_scheduler s))"
  shows "own s c = []" "cv_waiting (engines (rt_world s) c)"
proof -
  let ?e = "engines (rt_world s) c"
  have b: "rt_batch s c = []"
  proof (cases "rt_batch s c")
    case (Cons h bs)
    from resume_inv [OF inv st c Cons] obtain s1 where "worker_handle resume c h (rt_scheduler s) = Some (s1, Ret ())" by blast
    from rt_resume [OF c Cons this] stuck show ?thesis by blast
  qed
  have wi: "worker_inv sq outst parked s c" using inv c by (simp add: runtime_inv_def)
  have q: "task_queue ?e = []"
  proof (rule ccontr)
    assume ne: "task_queue ?e \<noteq> []"
    have k: "kProcessBatchSize \<noteq> 0" "unat kProcessBatchSize = 64" by (simp_all add: kProcessBatchSize_def)
    have z: "(of_nat (min (length (task_queue ?e)) 64) :: size_t) \<noteq> 0"
      using ne of_nat_eq_0_size_t [of "min (length (task_queue ?e)) 64"] by (simp add: min_def)
    have "\<not> cv_waiting ?e" using wi ne by (simp add: worker_inv_def own_def)
    from rt_take [OF c b this pop_batch_eq [OF ne k(1)], of L resume] z k(2) stuck show False by auto
  qed
  with b show "own s c = []" by (simp add: own_def)
  show "cv_waiting ?e"
  proof (rule ccontr)
    assume a: "\<not> cv_waiting ?e"
    have "no_io sq outst (engines (run_begin c (rt_world s)) c)" using wi by (simp add: worker_inv_def run_begin_def)
    from idle_round [OF ok this, of resume "\<lambda>w. w"] q obtain w where
      "run_round L resume (\<lambda>w. w) False c (run_begin c (rt_world s)) = Some (w, Ret Idle)" by (auto simp: run_begin_def)
    from rt_idle [OF c b a q this] stuck show False by blast
  qed
qed

lemma no_infinite_execution:
  assumes inv: "runtime_inv sq outst fit parked hs s" and st: "steady resume fit left parked"
    and ok: "uring_ok L sq outst entries" and run: "run 0 = s" "\<forall>i. runtime_step L resume (run i) (run (Suc i))"
  shows False
proof -
  have "runtime_inv sq outst fit parked hs (run i)" for i
  proof (induction i)
    case 0
    then show ?case using inv run(1) by simp
  next
    case (Suc i)
    show ?case by (rule runtime_step_inv [OF run(2) [rule_format] Suc st ok])
  qed
  then have "\<forall>i. (runtime_measure left (run (Suc i)), runtime_measure left (run i)) \<in> less_than <*lex*> less_than <*lex*> less_than"
    using runtime_step_decreases [OF run(2) [rule_format] _ st ok] by blast
  then have "\<exists>f. \<forall>i. (f (Suc i), f i) \<in> less_than <*lex*> less_than <*lex*> less_than"
    by (rule exI [of _ "\<lambda>i. runtime_measure left (run i)"])
  moreover have "wf (less_than <*lex*> less_than <*lex*> less_than)" by (intro wf_lex_prod wf_less_than)
  ultimately show False unfolding wf_iff_no_infinite_down_chain by (rule notE [rotated])
qed

subsection \<open>Start\<close>

lemma share_set: "set (share m j hs) = {hs ! i | i. i < length hs \<and> i mod m = j}"
  by (auto simp: share_def)

lemma share_distinct:
  assumes "distinct hs"
  shows "distinct (share m j hs)" "i \<noteq> j \<Longrightarrow> set (share m i hs) \<inter> set (share m j hs) = {}"
proof -
  show "distinct (share m j hs)"
    using assms by (auto simp: share_def distinct_map inj_on_def nth_eq_iff_index_eq)
  show "i \<noteq> j \<Longrightarrow> set (share m i hs) \<inter> set (share m j hs) = {}"
    using assms by (auto simp: share_set nth_eq_iff_index_eq)
qed

lemma share_all: "0 < m \<Longrightarrow> (\<Union>j < m. set (share m j hs)) = set hs"
  by (auto simp: share_set in_set_conv_nth intro!: bexI [where x = "i mod m" for i])

lemma submit_all_frame:
  assumes "ready k n s" and "null_handle \<notin> set hs" and "submit_all hs s = (s', r)"
  shows "frames (sc_world s') = frames (sc_world s) \<and> obj (sc_world s') = obj (sc_world s) \<and>
    sc_loop_blocked s' = sc_loop_blocked s \<and>
    (\<forall>c. (engines (sc_world s') c)\<lparr>task_queue := [], cv_waiting := False\<rparr> =
         (engines (sc_world s) c)\<lparr>task_queue := [], cv_waiting := False\<rparr> \<and>
       (cv_waiting (engines (sc_world s') c) \<longrightarrow> cv_waiting (engines (sc_world s) c)))"
  using assms
proof (induction hs arbitrary: s)
  case (Cons h hs)
  have h: "h \<noteq> null_handle" using Cons.prems(2) by auto
  from submit_new_ready [OF Cons.prems(1) h] obtain s1 where
    s1: "submit_new h s = (s1, Ret ())" "ready k n s1" by blast
  have f: "frames (sc_world s1) = frames (sc_world s)" "obj (sc_world s1) = obj (sc_world s)" "sc_loop_blocked s1 = sc_loop_blocked s"
    "(engines (sc_world s1) c)\<lparr>task_queue := [], cv_waiting := False\<rparr> = (engines (sc_world s) c)\<lparr>task_queue := [], cv_waiting := False\<rparr>"
    "cv_waiting (engines (sc_world s1) c) \<longrightarrow> cv_waiting (engines (sc_world s) c)" for c
    using s1(1) h Cons.prems(1)
    by (auto simp: submit_new_def ready_def on_world_def context_submit_task_def on_engine_def engine_submit_task_def
        notify_cv_def Let_def split: prod.splits if_splits)
  have m: "submit_all hs s1 = (s', r)" "null_handle \<notin> set hs" using Cons.prems(2,3) s1(1) by simp_all
  from Cons.IH [OF s1(2) m(2,1)] f show ?case by simp
qed simp

lemma submitted_program:
  assumes u: "IoUring_new L 256 = Ret u" "sq u = []" "outst u = {#}" and hs: "null_handle \<notin> set hs" "length hs < 2 ^ 64"
    and m: "m = unat (if n = 0 then 1 else n)"
  shows "\<exists>s. bind_res (scheduler_init L n (new_scheduler w k)) (\<lambda>s1 _. submit_all hs s1) = (s, Ret ()) \<and>
    sc_initialized s \<and> \<not> sc_loop_blocked s \<and> sc_contexts s = [k..<k + m] \<and>
    pending_tasks (sc_world s) = of_nat (length hs) \<and> frames (sc_world s) = frames w \<and> obj (sc_world s) = obj w \<and>
    (\<forall>j < m. task_queue (engines (sc_world s) (k + j)) = share m j hs \<and> no_io sq outst (engines (sc_world s) (k + j)) \<and>
       \<not> cv_waiting (engines (sc_world s) (k + j)))"
proof -
  let ?n = "if n = 0 then 1 else n"
  obtain s1 where s1: "scheduler_init L n (new_scheduler w k) = (s1, Ret ())"
    and f: "sc_initialized s1" "sc_accepting s1" "sc_contexts s1 = [k..<k + m]" "\<not> sc_loop_blocked s1"
      "sc_dispatcher s1 = dispatcher_init ?n dispatcher_default" "engines (sc_world s1) = fresh_engines u k m (engines w)"
      "pending_tasks (sc_world s1) = 0" "frames (sc_world s1) = frames w" "obj (sc_world s1) = obj w"
    using make_contexts_eq [OF u(1), of m "new_scheduler w k"]
    by (auto simp: scheduler_init_def new_scheduler_def on_world_def m Let_def)
  have r: "ready k ?n s1" using f m by (simp add: ready_def dispatcher_init_def)
  have "next_ticket (sc_dispatcher s1) = 0" using f by (simp add: dispatcher_init_def)
  from submit_all_ready [OF r this hs] obtain s2 where
    s2: "submit_all hs s1 = (s2, Ret ())" "ready k ?n s2" "pending_tasks (sc_world s2) = of_nat (length hs)"
      "\<forall>c. task_queue (engines (sc_world s2) c) = task_queue (engines (sc_world s1) c) @
       (if k \<le> c \<and> c < k + m then share m (c - k) hs else [])"
    using f(7) m by auto
  note g = submit_all_frame [OF r hs(1) s2(1)]
  have "no_io sq outst (engines (sc_world s2) (k + j)) \<and> \<not> cv_waiting (engines (sc_world s2) (k + j))" if "j < m" for j
  proof -
    have "(engines (sc_world s2) (k + j))\<lparr>task_queue := [], cv_waiting := False\<rparr> = new_engine u"
      "\<not> cv_waiting (engines (sc_world s2) (k + j))"
      using g that by (auto simp: f(6) fresh_engines_def new_engine_def)
    with no_io_queue(2) [where q = "[]" and b = False and e = "engines (sc_world s2) (k + j)" and sq = sq and outst = outst] u(2,3) show ?thesis
      by (simp add: no_io_def new_engine_def)
  qed
  moreover have "task_queue (engines (sc_world s2) (k + j)) = share m j hs" if "j < m" for j
    using that s2(4) f(6) by (simp add: fresh_engines_def new_engine_def)
  ultimately show ?thesis using s1 s2(1-3) g f(4,8,9) m
    by (intro exI [of _ s2]) (simp add: ready_def)
qed

lemma loop_begin_initialized:
  assumes "sc_initialized s" "\<not> sc_loop_blocked s"
  shows "\<exists>s1 b. loop_begin s = (s1, Ret b) \<and> sc_world s1 = sc_world s \<and> sc_contexts s1 = sc_contexts s \<and>
    (sc_loop_blocked s1 \<longrightarrow> pending_tasks (sc_world s) \<noteq> 0)"
  using assms by (auto simp: loop_begin_def loop_pred_def)

lemma runtime_start:
  assumes st: "steady resume fit left parked" and u: "IoUring_new L 256 = Ret u" "sq u = []" "outst u = {#}"
    and hs: "distinct hs" "null_handle \<notin> set hs" "\<forall>h \<in> set hs. suspended (frames w) h"
    and w: "fit (obj w) (frames w)" "parked (obj w) = {}"
  shows "\<exists>s. runtime_init L w k n hs s"
    and "runtime_init L w k n hs s \<Longrightarrow> runtime_inv sq outst fit parked hs s"
proof -
  define m where m: "m = unat (if n = 0 then 1 else n)"
  have m0: "0 < m" by (simp add: m unat_gt_0)
  have "set hs \<subseteq> dom (frames w)" using hs(3) by (auto dest!: bspec suspended_live)
  then have "length hs \<le> card (dom (frames w))"
    using distinct_card [OF hs(1)] card_mono [of "dom (frames w)" "set hs"] steadyD(1) [OF st w(1)] by simp
  then have l: "length hs < 2 ^ 64" using steadyD(1) [OF st w(1)] by simp
  from submitted_program [where sq = sq and outst = outst and w = w and k = k, OF u hs(2) l m] obtain s2 where
    s2: "bind_res (scheduler_init L n (new_scheduler w k)) (\<lambda>s1 _. submit_all hs s1) = (s2, Ret ())"
    and f: "sc_initialized s2" "\<not> sc_loop_blocked s2" "sc_contexts s2 = [k..<k + m]"
      "pending_tasks (sc_world s2) = of_nat (length hs)" "frames (sc_world s2) = frames w" "obj (sc_world s2) = obj w"
    and e: "\<And>j. j < m \<Longrightarrow> task_queue (engines (sc_world s2) (k + j)) = share m j hs \<and>
       no_io sq outst (engines (sc_world s2) (k + j)) \<and> \<not> cv_waiting (engines (sc_world s2) (k + j))" by blast
  have init: "runtime_init L w k n hs s \<longleftrightarrow>
      (\<exists>b. loop_begin s2 = (rt_scheduler s, Ret b)) \<and> rt_batch s = (\<lambda>_. []) \<and> \<not> rt_failed s" for s
    using bind_res_assoc [of "scheduler_init L n (new_scheduler w k)" "\<lambda>s1 _. submit_all hs s1" "\<lambda>s2 _. loop_begin s2"]
    unfolding runtime_init_def s2 by simp
  obtain s3 b where l3: "loop_begin s2 = (s3, Ret b)" and s3: "sc_world s3 = sc_world s2" "sc_contexts s3 = [k..<k + m]"
    "sc_loop_blocked s3 \<longrightarrow> pending_tasks (sc_world s2) \<noteq> 0"
    using loop_begin_initialized [OF f(1,2)] f(3) by auto
  show "\<exists>s. runtime_init L w k n hs s"
    unfolding init l3 by (intro exI [of _ "\<lparr>rt_scheduler = s3, rt_batch = \<lambda>_. [], rt_failed = False\<rparr>"]) simp
  show "runtime_inv sq outst fit parked hs s" if "runtime_init L w k n hs s"
  proof -
    have s: "rt_scheduler s = s3" "rt_batch s = (\<lambda>_. [])" "\<not> rt_failed s" using that unfolding init l3 by auto
    have own: "own s (k + j) = share m j hs" if "j < m" for j
      using that s s3(1) e by (simp add: own_def)
    have C: "set [k..<k + m] = (+) k ` {..<m}" by (simp add: lessThan_atLeast0 add.commute)
    have U: "unfinished parked s = set hs"
      unfolding unfinished_def s s3 C using own share_all [OF m0, of hs] w(2) f(6) by simp
    have "worker_inv sq outst parked s c" if "c \<in> (+) k ` {..<m}" for c
      using that own e share_distinct(1) [OF hs(1)] w(2) f(6) by (auto simp: worker_inv_def s s3)
    moreover have "set (own s c) \<inter> set (own s d) = {}" if "c \<in> (+) k ` {..<m}" "d \<in> (+) k ` {..<m}" "c \<noteq> d" for c d
    proof -
      from that obtain i j where "c = k + i" "d = k + j" "i < m" "j < m" "i \<noteq> j" by auto
      with own share_distinct(2) [OF hs(1), of i j m] show ?thesis by simp
    qed
    ultimately show ?thesis
      unfolding runtime_inv_def U s s3 C using w hs(1,3) f s3(3) s(3) by (simp add: distinct_card)
  qed
qed

subsection \<open>Property\<close>


text \<open>Tasks that yield as often as \<open>obj\<close> says of their handle, and then end.\<close>

definition yielding :: "(uint64 list \<times> uint64 list, unit, handle \<Rightarrow> nat) resumption" where
  "yielding h w =
     (if obj w h = 0 then Some (w\<lparr>frames := mark_done h (frames w)\<rparr>, Ret ())
      else Some (fst (yield_await_suspend h (w\<lparr>obj := (obj w)(h := obj w h - 1)\<rparr>)), Ret ()))"

definition yields_left :: "(handle \<Rightarrow> nat) \<Rightarrow> unit heap \<Rightarrow> nat" where
  "yields_left y H = (\<Sum>k \<in> {k. suspended H k}. Suc (y k))"

lemma finite_suspended: "finite (dom H) \<Longrightarrow> finite {k. suspended H k}"
  by (rule rev_finite_subset) (auto dest: suspended_live)

lemma yielding_steady: "steady yielding (\<lambda>_ H. finite (dom H) \<and> card (dom H) < 2 ^ 64) yields_left (\<lambda>_. {})"
  unfolding steady_def
proof (intro conjI allI impI)
  fix y :: "handle \<Rightarrow> nat" and H :: "unit heap" and h
  assume f: "finite (dom H) \<and> card (dom H) < 2 ^ 64" and n: "\<not> suspended H h"
  show "finite (dom (H(h := None)))" using f by simp
  have "card (dom (H(h := None))) \<le> card (dom H)" by (rule card_mono) (use f in auto)
  then show "card (dom (H(h := None))) < 2 ^ 64" using f by linarith
  have "{k. suspended (H(h := None)) k} \<subseteq> {k. suspended H k}" by (auto simp: suspended_def split: if_splits)
  then show "yields_left y (H(h := None)) \<le> yields_left y H"
    unfolding yields_left_def using f finite_suspended by (intro sum_mono2) auto
next
  fix c h and w :: "(uint64 list \<times> uint64 list, unit, handle \<Rightarrow> nat) world"
  assume l: "local_context_ptr w = Some c" and f: "finite (dom (frames w)) \<and> card (dom (frames w)) < 2 ^ 64"
    and h: "suspended (frames w) h"
  note fin = finite_suspended [OF f [THEN conjunct1]]
  show "\<exists>w1 qs. yielding h w = Some (w1, Ret ()) \<and> frames w1 h \<noteq> None \<and> keeps_others h (frames w) (frames w1) \<and>
      (finite (dom (frames w1)) \<and> card (dom (frames w1)) < 2 ^ 64) \<and>
      yields_left (obj w1) (frames w1) < yields_left (obj w) (frames w) \<and>
      engines w1 = (engines w)(c := fold engine_submit_task qs (engines w c)) \<and>
      distinct qs \<and> set qs \<inter> {} = {} \<and> set qs \<union> {} = {k. k = h \<and> suspended (frames w1) k} \<union> {} \<union> spawned w w1 \<and>
      (\<forall>k \<in> spawned w w1. suspended (frames w1) k) \<and>
      pending_tasks w1 = pending_tasks w + of_nat (card (spawned w w1))"
  proof (cases "obj w h = 0")
    case True
    let ?H = "mark_done h (frames w)"
    note m = suspended_mark_done [OF h]
    have "yields_left (obj w) (frames w) = Suc (obj w h) + yields_left (obj w) ?H"
      using m(1,2) fin unfolding yields_left_def by (simp del: sum.insert add: m(1)) (simp add: m(2))
    then show ?thesis using True m f h
      by (intro exI [of _ "w\<lparr>frames := ?H\<rparr>"] exI [of _ "[]"])
        (auto simp: yielding_def spawned_def keeps_others_def mark_done_def suspended_def split: option.splits)
  next
    case False
    let ?w = "w\<lparr>obj := (obj w)(h := obj w h - 1)\<rparr>"
    have "yields_left (obj ?w) (frames w) < yields_left (obj w) (frames w)"
      unfolding yields_left_def using False h fin by (intro sum_strict_mono_ex1) auto
    with False l h f show ?thesis
      by (intro exI [of _ "context_submit_task c h ?w"] exI [of _ "[h]"])
        (auto simp: yielding_def yield_await_suspend_def try_local_context_def context_submit_task_def spawned_def
          on_engine_def keeps_others_def dest: suspended_live)
  qed
qed simp_all

definition demo_program :: "(uint64 list \<times> uint64 list, unit, handle \<Rightarrow> nat) world" where
  "demo_program = \<lparr>engines = (\<lambda>_. new_engine ([], [])), local_context_ptr = None, pending_tasks = 0,
     io_store = (\<lambda>_. None), frames = [5 \<mapsto> new_frame, 6 \<mapsto> new_frame, 7 \<mapsto> new_frame], obj = (\<lambda>h. h - 5)\<rparr>"


end
