(* ===== verification/Scheduler_Restart.thy ===== *)
theory Scheduler_Restart
  imports Runtime_Machine Wait_Group
begin

text \<open>
  A scheduler that is stopped and initialised again while a task is parked in a
  synchronisation object, here a wait group: \<open>init\<close> sets the pending-task counter to zero,
  but the task comes back when it is woken.
\<close>

subsection \<open>Two tasks\<close>

text \<open>
  The task 5 waits for a group, any other task counts the group down and ends. A worker that
  resumes 5 with the group at zero is past the wait.
\<close>

definition group_resume :: "(uint64 list \<times> uint64 list, unit, wait_group) resumption" where
  "group_resume h w =
     (if h = 5 then
        (let (g, b) = wg_wait 5 (obj w); w1 = w\<lparr>obj := g\<rparr> in
         Some (if b then w1 else w1\<lparr>frames := mark_done 5 (frames w1)\<rparr>, Ret ()))
      else
        (let (w1, _) = wait_group_done (\<lambda>_ w. w) w in
         Some (w1\<lparr>frames := mark_done h (frames w1)\<rparr>, Ret ())))"

definition group_world :: "(uint64 list \<times> uint64 list, unit, wait_group) world" where
  "group_world = \<lparr>engines = (\<lambda>_. new_engine ([], [])), local_context_ptr = None, pending_tasks = 0,
     io_store = (\<lambda>_. None), frames = [5 \<mapsto> new_frame, 6 \<mapsto> new_frame], obj = \<lparr>wg_count = 1, wg_queue = []\<rparr>\<rparr>"

text \<open>
  The states of the execution, in the life of the scheduler that has context \<open>c\<close>: the
  worker's queue and batch, the counter, the frames, the group, and whether \<open>loop\<close> is blocked.
\<close>

definition life ::
  "nat \<Rightarrow> nat option \<Rightarrow> handle list \<Rightarrow> handle list \<Rightarrow> size_t \<Rightarrow> unit heap \<Rightarrow> wait_group \<Rightarrow> bool \<Rightarrow>
   (uint64 list \<times> uint64 list, unit, wait_group) runtime" where
  "life c ptr queue batch n F g blocked =
     \<lparr>rt_scheduler =
        \<lparr>sc_world = \<lparr>engines = (\<lambda>_. new_engine ([], []))(c := (new_engine ([], []))\<lparr>task_queue := queue\<rparr>),
           local_context_ptr = ptr, pending_tasks = n, io_store = (\<lambda>_. None), frames = F, obj = g\<rparr>,
         sc_contexts = [c], sc_dispatcher = \<lparr>context_count = 1, next_ticket = 1\<rparr>, sc_stop_requested = False,
         sc_accepting = True, sc_initialized = True, sc_fresh = Suc c, sc_running = {c}, sc_stopping = {..<c},
         sc_loop_blocked = blocked\<rparr>,
      rt_batch = (\<lambda>_. [])(c := batch), rt_failed = False\<rparr>"

lemma runtime_step_eq: "runtime_step L resume s t \<Longrightarrow> t = t' \<Longrightarrow> runtime_step L resume s t'"
  by simp

lemma life_take:
  "runtime_step demo_uring group_resume (life c ptr [h] [] n F g b) (life c ptr [] [h] n F g b)"
  by (rule runtime_step_eq, rule rt_take [where c = c])
    (auto simp: life_def new_engine_def pop_batch_def pop_loop.simps kProcessBatchSize_def on_world_def on_engine_def fun_eq_iff)

lemma life_resume:
  assumes "worker_handle group_resume c h (rt_scheduler (life c ptr q [h] n F g b)) =
    Some (rt_scheduler (life c ptr' q' [] n' F' g' b'), Ret ())"
  shows "runtime_step demo_uring group_resume (life c ptr q [h] n F g b) (life c ptr' q' [] n' F' g' b')"
  by (rule runtime_step_eq, rule rt_resume [where c = c and h = h and hs = "[]", OF _ _ assms])
    (auto simp: life_def fun_eq_iff)

lemmas handle_defs = worker_handle_def process_handle_def run_begin_def group_resume_def wg_wait_def wg_await_ready_def
  wg_await_suspend_def on_task_resume_begin_def on_task_resume_end_def on_engine_def handle_done_def new_frame_def
  mark_done_def world_destroy_def handle_destroy_def on_task_completed_def on_world_def life_def new_engine_def

lemma waiting_parks:
  "worker_handle group_resume 0 5 (rt_scheduler (life 0 None [] [5] 1 (frames group_world) (obj group_world) True)) =
    Some (rt_scheduler (life 0 (Some 0) [] [] 1 (frames group_world) \<lparr>wg_count = 1, wg_queue = [5]\<rparr> True), Ret ())"
  by (simp add: handle_defs group_world_def fun_eq_iff)

lemma counting_wakes:
  "worker_handle group_resume 1 6 (rt_scheduler (life 1 ptr [] [6] 1 (frames group_world) \<lparr>wg_count = 1, wg_queue = [5]\<rparr> True)) =
    Some (rt_scheduler (life 1 (Some 1) [5] [] 0 [5 \<mapsto> new_frame] \<lparr>wg_count = 0, wg_queue = []\<rparr> False), Ret ())"
  by (simp add: handle_defs group_world_def fun_eq_iff wait_group_done_def call_locked_def wg_done_eq reschedule_or_resume_def
      try_local_context_def context_submit_task_def engine_submit_task_def notify_cv_def)

lemma woken_ends:
  "worker_handle group_resume 1 5 (rt_scheduler (life 1 ptr [] [5] 0 [5 \<mapsto> new_frame] \<lparr>wg_count = 0, wg_queue = []\<rparr> False)) =
    Some (rt_scheduler (life 1 (Some 1) [] [] (- 1) (\<lambda>_. None) \<lparr>wg_count = 0, wg_queue = []\<rparr> False), Ret ())"
  by (simp add: handle_defs fun_eq_iff)

subsection \<open>Property\<close>

lemma first_life: "runtime_init demo_uring group_world 0 1 [5] (life 0 None [5] [] 1 (frames group_world) (obj group_world) True)"
proof -
  have u: "IoUring_new demo_uring 256 = Ret ([], [])" by (simp add: IoUring_new_def demo_uring_def)
  show ?thesis
    by (simp add: u make_context_def runtime_init_def scheduler_init_def new_scheduler_def on_world_def submit_new_def dispatch_def dispatcher_init_def
        dispatcher_default_def context_submit_task_def on_engine_def engine_submit_task_def notify_cv_def loop_begin_def loop_pred_def
        life_def new_engine_def group_world_def fun_eq_iff Let_def) blast
qed

lemma second_life:
  "bind_res (scheduler_init demo_uring 1 (scheduler_stop (rt_scheduler (life 0 (Some 0) [] [] 1 F g True))))
     (\<lambda>s1 _. bind_res (submit_all [6] s1) (\<lambda>s2 _. loop_begin s2)) =
   (rt_scheduler (life 1 (Some 0) [6] [] 1 F g True), Ret False)"
proof -
  have u: "IoUring_new demo_uring 256 = Ret ([], [])" by (simp add: IoUring_new_def demo_uring_def)
  show ?thesis
    by (simp add: u make_context_def scheduler_init_def scheduler_stop_def shutdown_contexts_def context_notify_stop_def context_join_def
        engine_notify_all_def on_world_def submit_new_def dispatch_def dispatcher_init_def context_submit_task_def on_engine_def
        engine_submit_task_def notify_cv_def loop_begin_def loop_pred_def life_def new_engine_def fun_eq_iff
        lessThan_Suc Let_def)
qed

text \<open>
  (C37) A restart miscounts the tasks that are parked: there is an execution in which a task
  waits in a wait group, the scheduler is stopped, with nothing left for its worker to do, and
  initialised again; a second task is submitted, wakes the first and ends. Then \<open>loop\<close> goes on
  although the first task is queued and not at its end; and when that task has ended too, the
  counter has wrapped around to its largest value, so that \<open>loop\<close> blocks with no task left.
\<close>

theorem restart_miscounts_parked_tasks:
  "\<exists>s t u v x. runtime_init demo_uring group_world 0 1 [5] s \<and>
    steps (runtime_step demo_uring group_resume) s t \<and> can_stop True (engines (rt_world t) 0) \<and> rt_batch t 0 = [] \<and>
    bind_res (scheduler_init demo_uring 1 (scheduler_stop (rt_scheduler t)))
      (\<lambda>s1 _. bind_res (submit_all [6] s1) (\<lambda>s2 _. loop_begin s2)) = (rt_scheduler u, Ret False) \<and>
    rt_batch u = (\<lambda>_. []) \<and> \<not> rt_failed u \<and> steps (runtime_step demo_uring group_resume) u v \<and>
    loop_pred (rt_scheduler v) \<and> \<not> sc_loop_blocked (rt_scheduler v) \<and>
    suspended (frames (rt_world v)) 5 \<and> task_queue (engines (rt_world v) 1) = [5] \<and>
    steps (runtime_step demo_uring group_resume) v x \<and> frames (rt_world x) = (\<lambda>_. None) \<and>
    unat (pending_tasks (rt_world x)) = 2 ^ 64 - 1 \<and> snd (loop_begin (rt_scheduler x)) = Ret False"
proof -
  let ?R = "runtime_step demo_uring group_resume" and ?F = "frames group_world"
  let ?p = "\<lparr>wg_count = 1, wg_queue = [5]\<rparr>" and ?z = "\<lparr>wg_count = 0, wg_queue = []\<rparr>"
  have two: "steps ?R a c" if "?R a b" "?R b c" for a b c
    by (rule steps_more [where step = ?R, OF that(1) steps_more [where step = ?R, OF that(2) steps_refl]])
  let ?t = "life 0 (Some 0) [] [] 1 ?F ?p True" and ?u = "life 1 (Some 0) [6] [] 1 ?F ?p True"
  let ?v = "life 1 (Some 1) [5] [] 0 [5 \<mapsto> new_frame] ?z False" and ?x = "life 1 (Some 1) [] [] (- 1) (\<lambda>_. None) ?z False"
  have "steps ?R (life 0 None [5] [] 1 ?F (obj group_world) True) ?t"
    by (rule two [OF life_take life_resume [OF waiting_parks]])
  moreover have "steps ?R ?u ?v" by (rule two [OF life_take life_resume [OF counting_wakes]])
  moreover have "steps ?R ?v ?x" by (rule two [OF life_take life_resume [OF woken_ends]])
  moreover have "can_stop True (engines (rt_world ?t) 0)" "rt_batch ?t 0 = []" "rt_batch ?u = (\<lambda>_. [])" "\<not> rt_failed ?u"
    "loop_pred (rt_scheduler ?v)" "\<not> sc_loop_blocked (rt_scheduler ?v)" "suspended (frames (rt_world ?v)) 5"
    "task_queue (engines (rt_world ?v) 1) = [5]" "frames (rt_world ?x) = (\<lambda>_. None)"
    "unat (pending_tasks (rt_world ?x)) = 2 ^ 64 - 1" "snd (loop_begin (rt_scheduler ?x)) = Ret False"
    by (simp_all add: life_def can_stop_def new_engine_def loop_pred_def suspended_def new_frame_def loop_begin_def
        unsigned_minus_1_eq_mask mask_eq_exp_minus_1 fun_eq_iff)
  ultimately show ?thesis using first_life second_life [of ?F ?p] by blast
qed

end
