(* ===== verification/Spec2Isabelle.thy ===== *)
theory Spec2Isabelle
  imports Channel_Batch Channel_Waiters Io_Round_Trip Task_Calls Async_Mutex_Props Cv_Race When_All_Race
    Submit_Race Scheduler_Restart
begin

text \<open>
  Verification of tiny\_coroutine, a C++20 coroutine library with a multi-threaded runtime
  over io\_uring.

  \<^bold>\<open>The program.\<close> A \<open>Task\<close> owns the frame of a lazily started coroutine; awaiting a task
  starts it by symmetric transfer, and its final suspension transfers back. A \<open>Scheduler\<close> owns
  \<open>Context\<close>s, one worker thread each. A context owns an \<open>Engine\<close>: a queue of coroutines to
  resume, queues of I/O operations to submit and an io\_uring. The worker resumes batches of
  coroutines, polls, leaves when it may stop and otherwise sleeps. \<open>Channel\<close>, \<open>AsyncMutex\<close>,
  \<open>ConditionVariable\<close> and \<open>WaitGroup\<close> park suspended coroutines in queues and wake them with
  \<open>reschedule_or_resume\<close>, which queues them on the calling worker or, elsewhere, resumes them
  in place; \<open>when_all\<close> is a wait group over wrapper coroutines.

  \<^bold>\<open>Theories.\<close>
  \<^item> \<open>Prelude\<close>: machine integers (\<open>size_t\<close>, \<open>int32\<close> and others are words), addresses and handles,
    \<open>res\<close> (a value, a C++ exception, or \<open>Undef\<close> for undefined behaviour) with its sequencing
    \<open>bind_res\<close>, shared lemmas. \<open>Step_System\<close>: reachability and the interface
    \<open>invariant_system\<close>, interpreted by every machine below.
  \<^item> \<open>Io_Uring\<close> (\<open>include/io_uring.h\<close>): the wrapper; liburing is the record of functions
    \<open>liburing\<close>, a parameter, and \<open>uring_ok\<close> states what its manual promises.
  \<^item> \<open>Engine\<close>, \<open>Engine_Props\<close>, \<open>Engine_Machine\<close> (\<open>runtime/engine.h\<close>, \<open>src/runtime/engine.cpp\<close>):
    every method, \<open>poll_io\<close> loop by loop; then executions of an engine, with the multiset of
    operations each field stands for. \<open>Io_Round_Trip\<close>: an awaited operation from its
    \<open>co_await\<close> to its result, over the awaiters of \<open>Runtime\<close>; failures of the ring.
  \<^item> \<open>Task\<close>, \<open>Task_Props\<close> (\<open>include/task.h\<close>): frames and promises in a heap from handles, task
    objects, awaiting, final suspension; the bodies of coroutines are a parameter that runs
    one from a suspension to the next. \<open>Task_Calls\<close>: coroutines that are programs with nested calls,
    as an instance of that parameter, against the meaning of the program.
  \<^item> \<open>Runtime\<close> (\<open>runtime/resume_handle\<close>, \<open>runtime/io_awaiter.h\<close>, the inline functions of
    \<open>runtime/scheduler.h\<close> and the submission methods of \<open>Context\<close>): the \<open>world\<close> of the
    executing thread, that is all engines, the thread-local context, the pending-task counter,
    frames and one object under consideration. \<open>call_locked\<close> is the scheme of every method
    that changes its object under its mutex and then wakes coroutines; the interface
    \<open>rescheduler\<close> is what those methods need of \<open>reschedule_or_resume\<close>.
  \<^item> \<open>Channel\<close> (\<open>include/channel.h\<close>): the data members with the ring buffer as an array of
    optional values, and each critical section. \<open>Channel_Ring\<close>: the interface \<open>bounded_queue\<close>
    and the ring as an instance. \<open>Channel_Spec\<close>, \<open>Channel_Refine\<close>: an abstract channel (a
    list of buffered values, the parked senders with their values, the parked receivers), and
    the refinement of each critical section. \<open>Channel_Machine\<close>, \<open>Channel_Props\<close>: all
    interleavings of calls, with the history of values. \<open>Channel_Batch\<close>: the batch
    operations against repeated single ones. \<open>Channel_Waiters\<close>: the same interleavings with the
    history of the coroutines that sleep and are woken.
  \<^item> \<open>Async_Mutex\<close>, \<open>Async_Mutex_Props\<close> (\<open>include/async_mutex.h\<close>): mutexes and guards in
    stores from addresses, and executions of coroutines over any number of them.
  \<^item> \<open>Condition_Variable\<close>, \<open>Cv_Race\<close> (\<open>include/condition_variable.h\<close>): notification, the
    coroutine \<open>wait\<close> by its suspension points, and a machine that splits its suspension into
    the writes other workers can see one by one.
  \<^item> \<open>Wait_Group\<close>, \<open>When_All\<close>, \<open>When_All_Race\<close> (\<open>include/wait_group.h\<close>, \<open>include/when_all.h\<close>):
    the counter and its waiters, both overloads of \<open>when_all\<close>, and a machine that splits
    \<open>done\<close> and the awaiter into their shared accesses.
  \<^item> \<open>Context\<close>, \<open>Context_Props\<close>, \<open>Context_Run\<close> (\<open>runtime/context.h\<close>, \<open>src/runtime/context.cpp\<close>):
    the worker's batches, polls and rounds, and its loop, by the number of rounds.
  \<^item> \<open>Dispatcher\<close>, \<open>Scheduler\<close>, \<open>Scheduler_Props\<close>, \<open>Scheduler_Machine\<close>, \<open>Wakeup_Races\<close>
    (\<open>runtime/dispatcher.h\<close>, \<open>runtime/scheduler.h\<close>, \<open>src/runtime/scheduler.cpp\<close>): the methods, their
    executions, and the two waits on a \<open>std::condition_variable\<close> split into test and block.
    \<open>Submit_Race\<close>: \<open>submit_new\<close> split at the release of its mutex, against \<open>stop\<close>.
  \<^item> \<open>Runtime_Machine\<close>: the runtime as a whole, that is the main thread's \<open>init\<close>, \<open>submit\<close> and
    \<open>loop\<close> and the workers of every context, which take batches, resume single handles and go
    to sleep in any order. \<open>Scheduler_Restart\<close>: two lives of a scheduler in a row, with a wait group
    that outlives the first.

  \<^bold>\<open>What is shown.\<close>
  \<^item> Channel: first in first out over every interleaving; no undefined behaviour; the buffer is
    bounded and nobody is parked who could be served; coroutines are woken once each, in the
    order they went to sleep; buffer, indices and pointers are well formed; suspension refines the abstract
    operations; what the batch operations take, and that they are repeated single calls; what \<open>close\<close> does; the statistics balance.
  \<^item> Engine: polling loses no operation and returns; an awaited operation is reaped once and
    its coroutine gets its result; a failure of the ring ends the worker; \<open>can_stop\<close> leaves nothing behind; a worker
    sleeps only when idle and every submission wakes it.
  \<^item> Task: symmetric transfer implements calls, whatever their depth, exceptions included; each frame has one owner and is destroyed once;
    awaiting an empty task is undefined.
  \<^item> Mutex and condition variable: mutual exclusion, no forgotten waiter, hand-over in order;
    waiters register before they release and return with lock and predicate. The flag written
    after the unlock loses the lock on several workers.
  \<^item> Wait group and \<open>when_all\<close>: each waiter is woken once; results in order or the first
    exception; the overloads agree; on several workers \<open>when_all\<close> goes on only after every
    task, and always ends; the vector overload can destroy its group while \<open>done\<close> uses it.
  \<^item> Context and scheduler: a round resumes the batch, and finished tasks are destroyed and
    reported once; a worker asked to stop finishes its tasks and returns; tasks are spread round robin; \<open>stop\<close> shuts down; the pending counter is the
    number of outstanding tasks. A program with steady tasks runs to the end in every
    interleaving: it is free of undefined behaviour, finite, and ends with all workers asleep and
    as many pending tasks as are parked. A worker that resumes an inner coroutine asks a destroyed
    frame; \<open>loop\<close> and a stopping worker can miss their notification; a submission can call a
    context that \<open>stop\<close> destroyed; a restart forgets the tasks that are parked.

  The theorems about the worker state what they need of the tasks as hypotheses: that a
  resumption comes back and brings no other coroutine to its end (\<open>tame\<close>), and that the tasks
  come to an end (\<open>ending\<close>; \<open>steady\<close> says both for tasks on any worker). The first is the condition the code breaks for nested tasks.

  \<^bold>\<open>Bounds.\<close> Loops are total functions with measures, except \<open>coroutine_resume\<close>, a partial
  function, since coroutines may transfer to each other for ever, and \<open>run_rounds\<close>, the loop of
  a worker, which takes a number of rounds: a worker is meant to run until it is stopped, and
  the theorem gives a number that is enough. The theorems state that they return. Counters are words and wrap; where a theorem needs fewer
  than \<open>2 ^ 64\<close> tasks or \<open>2 ^ 32\<close> members of a group, it says so.

  \<^bold>\<open>Not modelled.\<close> Exhaustion of memory; the weak orderings of \<open>std::atomic\<close> (all machines are
  sequentially consistent); spurious wakeups; the creation of threads. A critical section
  under a \<open>std::mutex\<close> is one step, except in the machines that split it. The programs under
  \<open>benchmarks\<close> and \<open>tests\<close> only use the library.
\<close>

end
